(* ===== verification/Prelude.thy ===== *)
theory Prelude
  imports Main "HOL-Library.Word"
begin

unbundle bit_operations_syntax

text \<open>
  Shared vocabulary of the zCore development.

  \<^item> Machine integers: Rust's \<^verbatim>\<open>u8\<close>, \<^verbatim>\<open>u32\<close>, \<^verbatim>\<open>u64\<close>, \<^verbatim>\<open>usize\<close> are words of 8, 32, 64 and 64 bits
    (every target of the repository is a 64-bit one).
  \<^item> \<open>result\<close>: Rust's \<^verbatim>\<open>Result\<close> with a third outcome, \<open>Panic\<close>, for \<^verbatim>\<open>assert!\<close>, \<^verbatim>\<open>unwrap\<close>,
    \<^verbatim>\<open>unimplemented!\<close> and out-of-range indexing.
  \<^item> Flag sets: a type declared with \<^verbatim>\<open>bitflags!\<close> is the word of its bits; \<open>contains\<close>,
    \<open>intersects\<close>, \<open>flag_insert\<close>, \<open>flag_remove\<close> and \<open>from_bits\<close> are that type's methods of the
    same names, on the bits.
  \<^item> Generic lemmas on words and lists that several components use, and the collections
    \<open>flag_simps\<close> and \<open>kernel_inv\<close> (invariant preservation) that their proofs draw on.
\<close>

named_theorems flag_simps
named_theorems kernel_inv

type_synonym u8 = "8 word"
type_synonym u32 = "32 word"
type_synonym u64 = "64 word"
type_synonym usize = "64 word"

section \<open>Results\<close>

datatype ('e, 'a) result = Ok 'a | Err 'e | Panic

fun result_bind :: "('e, 'a) result \<Rightarrow> ('a \<Rightarrow> ('e, 'b) result) \<Rightarrow> ('e, 'b) result" where
  "result_bind (Ok a) f = f a"
| "result_bind (Err e) f = Err e"
| "result_bind Panic f = Panic"

definition ok_or :: "'a option \<Rightarrow> 'e \<Rightarrow> ('e, 'a) result" where
  "ok_or x e = (case x of Some a \<Rightarrow> Ok a | None \<Rightarrow> Err e)"

section \<open>Flag sets\<close>

definition contains :: "'a::len word \<Rightarrow> 'a word \<Rightarrow> bool" where
  "contains flags other \<longleftrightarrow> flags AND other = other"

definition intersects :: "'a::len word \<Rightarrow> 'a word \<Rightarrow> bool" where
  "intersects flags other \<longleftrightarrow> flags AND other \<noteq> 0"

definition flag_insert :: "'a::len word \<Rightarrow> 'a word \<Rightarrow> 'a word" where
  "flag_insert flags other = flags OR other"

definition flag_remove :: "'a::len word \<Rightarrow> 'a word \<Rightarrow> 'a word" where
  "flag_remove flags other = flags AND NOT other"

definition from_bits :: "'a::len word \<Rightarrow> 'a word \<Rightarrow> 'a word option" where
  "from_bits all_flags bits = (if bits AND NOT all_flags = 0 then Some bits else None)"

section \<open>Lemmas on results\<close>

lemma result_bind_Ok_iff [simp]:
  "result_bind r f = Ok b \<longleftrightarrow> (\<exists>a. r = Ok a \<and> f a = Ok b)"
  by (cases r) auto

lemma ok_or_simps [simp]:
  "ok_or (Some a) e = Ok a" "ok_or None e = Err e"
  by (simp_all add: ok_or_def)

lemma ok_or_Ok_iff [simp]: "ok_or x e = Ok a \<longleftrightarrow> x = Some a"
  by (cases x) auto

section \<open>Lemmas on flag sets\<close>

lemma contains_iff_bits: "contains a b \<longleftrightarrow> (\<forall>n. bit b n \<longrightarrow> bit a n)"
  unfolding contains_def by (auto simp: bit_eq_iff bit_and_iff dest: bit_imp_le_length)

lemma intersects_iff_bits: "intersects a b \<longleftrightarrow> (\<exists>n. bit a n \<and> bit b n)"
  unfolding intersects_def by (auto simp: bit_eq_iff bit_and_iff dest: bit_imp_le_length)

lemma contains_refl [simp]: "contains a a"
  by (simp add: contains_def)

lemma contains_zero [simp]: "contains a 0"
  by (simp add: contains_def)

lemma contains_trans: "contains a b \<Longrightarrow> contains b c \<Longrightarrow> contains a c"
  by (auto simp: contains_iff_bits)

lemma contains_and_left [simp]: "contains a (a AND b)"
  by (simp add: contains_iff_bits bit_and_iff)

lemma contains_and_right [simp]: "contains b (a AND b)"
  by (simp add: contains_iff_bits bit_and_iff)

lemma contains_insert [simp]: "contains (flag_insert a b) b"
  by (simp add: contains_iff_bits flag_insert_def bit_or_iff)

lemma not_intersects_remove [simp]: "\<not> intersects (flag_remove a b) b"
  by (auto simp: intersects_iff_bits flag_remove_def bit_and_iff bit_not_iff)

lemma flag_insert_zero [simp]: "flag_insert a 0 = a"
  by (simp add: flag_insert_def)

lemma flag_remove_zero [simp]: "flag_remove a 0 = a"
  by (simp add: flag_remove_def)

lemma from_bits_Some_iff: "from_bits m x = Some y \<longleftrightarrow> x = y \<and> contains m x"
proof -
  have "x AND NOT m = 0 \<longleftrightarrow> m AND x = x"
    by (simp add: bit_eq_iff bit_and_iff bit_not_iff) (meson bit_imp_le_length linorder_not_le)
  then show ?thesis
    by (auto simp: from_bits_def contains_def)
qed

text \<open>
  A single-bit flag is \<open>1 << n\<close>; the state of such a flag after an update is a matter of one bit.
\<close>

lemma contains_single_bit: "n < LENGTH('a::len) \<Longrightarrow> contains w (push_bit n 1 :: 'a word) \<longleftrightarrow> bit w n"
  by (auto simp: contains_iff_bits bit_exp_iff)

section \<open>Lemmas on lists\<close>

lemma take_min_length [simp]: "take (min n (length xs)) xs = take n xs"
  by (simp add: min_def)

lemma drop_min_length [simp]: "drop (min n (length xs)) xs = drop n xs"
  by (simp add: min_def)

lemma filter_rev_rev [simp]: "rev (filter P (rev xs)) = filter P xs"
  by (simp add: rev_filter)

lemma set_drop_append: "k \<le> length xs \<Longrightarrow> set (drop k (xs @ ys)) = set (drop k xs) \<union> set ys"
  by simp

text \<open>The two ends of a pair are its sides \<open>False\<close> and \<open>True\<close>; the peer of \<open>s\<close> is \<open>\<not> s\<close>.\<close>

lemma all_sides: "(\<forall>s'. P s') \<longleftrightarrow> P s \<and> P (\<not> s)" for s :: bool
  by (cases s) (auto simp: all_bool_eq)

section \<open>Checked arithmetic\<close>

text \<open>Rust's \<^verbatim>\<open>checked_add\<close>, \<^verbatim>\<open>checked_sub\<close> and \<^verbatim>\<open>checked_mul\<close> on unsigned integers.\<close>

definition checked_add :: "'a::len word \<Rightarrow> 'a word \<Rightarrow> 'a word option" where
  "checked_add a b = (if unat a + unat b < 2 ^ LENGTH('a) then Some (a + b) else None)"

definition checked_sub :: "'a::len word \<Rightarrow> 'a word \<Rightarrow> 'a word option" where
  "checked_sub a b = (if b \<le> a then Some (a - b) else None)"

definition checked_mul :: "'a::len word \<Rightarrow> 'a word \<Rightarrow> 'a word option" where
  "checked_mul a b = (if unat a * unat b < 2 ^ LENGTH('a) then Some (a * b) else None)"

lemma unat_add_no_wrap: "unat a + unat b < 2 ^ LENGTH('a) \<Longrightarrow> unat (a + b :: 'a::len word) = unat a + unat b"
  by (simp add: unat_word_ariths)

lemma unat_mult_no_wrap: "unat a * unat b < 2 ^ LENGTH('a) \<Longrightarrow> unat (a * b :: 'a::len word) = unat a * unat b"
  by (simp add: unat_word_ariths)

lemma checked_add_Some_iff:
  "checked_add a b = Some c \<longleftrightarrow> unat a + unat b < 2 ^ LENGTH('a) \<and> c = a + b" for a :: "'a::len word"
  by (auto simp: checked_add_def)

lemma checked_mul_Some_iff:
  "checked_mul a b = Some c \<longleftrightarrow> unat a * unat b < 2 ^ LENGTH('a) \<and> c = a * b" for a :: "'a::len word"
  by (auto simp: checked_mul_def)

lemma unat_checked_add: "checked_add a b = Some c \<Longrightarrow> unat c = unat a + unat b"
  by (auto simp: checked_add_Some_iff intro: unat_add_no_wrap)

lemma unat_checked_mul: "checked_mul a b = Some c \<Longrightarrow> unat c = unat a * unat b"
  by (auto simp: checked_mul_Some_iff intro: unat_mult_no_wrap)

lemma unat_checked_sub: "checked_sub a b = Some c \<Longrightarrow> unat c = unat a - unat b \<and> unat b \<le> unat a"
  by (auto simp: checked_sub_def unat_sub word_le_nat_alt split: if_splits)

section \<open>Transition systems\<close>

text \<open>
  A component that evolves by steps: an invariant that holds initially and that every step keeps
  holds in every reachable state.
\<close>

locale step_invariant =
  fixes init :: "'s \<Rightarrow> bool"
    and step :: "'s \<Rightarrow> 's \<Rightarrow> bool"
    and inv :: "'s \<Rightarrow> bool"
  assumes inv_init: "init s \<Longrightarrow> inv s"
    and inv_step: "inv s \<Longrightarrow> step s s' \<Longrightarrow> inv s'"
begin

lemma inv_star: "step\<^sup>*\<^sup>* s s' \<Longrightarrow> inv s \<Longrightarrow> inv s'"
  by (induction rule: rtranclp_induct) (auto intro: inv_step)

lemma inv_reachable: "init s \<Longrightarrow> step\<^sup>*\<^sup>* s s' \<Longrightarrow> inv s'"
  by (auto intro: inv_star inv_init)

end

end
