(* ===== verification/Zx_Error.thy ===== *)
theory Zx_Error
  imports Prelude
begin

text \<open>
  The status codes of \<^verbatim>\<open>zircon-object/src/error.rs\<close>: the enum \<^verbatim>\<open>ZxError\<close> with its discriminants, the
  conversion from the user-pointer errors of \<^verbatim>\<open>kernel-hal\<close>, and the fact that a status code
  determines its error.
\<close>

datatype zx_error =
    OK
  | INTERNAL | NOT_SUPPORTED | NO_RESOURCES | NO_MEMORY | INTERNAL_INTR_RETRY
  | INVALID_ARGS | BAD_HANDLE | WRONG_TYPE | BAD_SYSCALL | OUT_OF_RANGE
  | BUFFER_TOO_SMALL | BAD_STATE | TIMED_OUT | SHOULD_WAIT | CANCELED
  | PEER_CLOSED | NOT_FOUND | ALREADY_EXISTS | ALREADY_BOUND | UNAVAILABLE
  | ACCESS_DENIED | IO | IO_REFUSED | IO_DATA_INTEGRITY | IO_DATA_LOSS
  | IO_NOT_PRESENT | IO_OVERRUN | IO_MISSED_DEADLINE | IO_INVALID | BAD_PATH
  | NOT_DIR | NOT_FILE | FILE_BIG | NO_SPACE | NOT_EMPTY
  | STOP | NEXT | ASYNC | PROTOCOL_NOT_SUPPORTED | ADDRESS_UNREACHABLE
  | ADDRESS_IN_USE | NOT_CONNECTED | CONNECTION_REFUSED | CONNECTION_RESET | CONNECTION_ABORTED

type_synonym 'a zx_result = "(zx_error, 'a) result"

fun zx_status :: "zx_error \<Rightarrow> int" where
  "zx_status OK = 0"
| "zx_status INTERNAL = - 1"
| "zx_status NOT_SUPPORTED = - 2"
| "zx_status NO_RESOURCES = - 3"
| "zx_status NO_MEMORY = - 4"
| "zx_status INTERNAL_INTR_RETRY = - 6"
| "zx_status INVALID_ARGS = - 10"
| "zx_status BAD_HANDLE = - 11"
| "zx_status WRONG_TYPE = - 12"
| "zx_status BAD_SYSCALL = - 13"
| "zx_status OUT_OF_RANGE = - 14"
| "zx_status BUFFER_TOO_SMALL = - 15"
| "zx_status BAD_STATE = - 20"
| "zx_status TIMED_OUT = - 21"
| "zx_status SHOULD_WAIT = - 22"
| "zx_status CANCELED = - 23"
| "zx_status PEER_CLOSED = - 24"
| "zx_status NOT_FOUND = - 25"
| "zx_status ALREADY_EXISTS = - 26"
| "zx_status ALREADY_BOUND = - 27"
| "zx_status UNAVAILABLE = - 28"
| "zx_status ACCESS_DENIED = - 30"
| "zx_status IO = - 40"
| "zx_status IO_REFUSED = - 41"
| "zx_status IO_DATA_INTEGRITY = - 42"
| "zx_status IO_DATA_LOSS = - 43"
| "zx_status IO_NOT_PRESENT = - 44"
| "zx_status IO_OVERRUN = - 45"
| "zx_status IO_MISSED_DEADLINE = - 46"
| "zx_status IO_INVALID = - 47"
| "zx_status BAD_PATH = - 50"
| "zx_status NOT_DIR = - 51"
| "zx_status NOT_FILE = - 52"
| "zx_status FILE_BIG = - 53"
| "zx_status NO_SPACE = - 54"
| "zx_status NOT_EMPTY = - 55"
| "zx_status STOP = - 60"
| "zx_status NEXT = - 61"
| "zx_status ASYNC = - 62"
| "zx_status PROTOCOL_NOT_SUPPORTED = - 70"
| "zx_status ADDRESS_UNREACHABLE = - 71"
| "zx_status ADDRESS_IN_USE = - 72"
| "zx_status NOT_CONNECTED = - 73"
| "zx_status CONNECTION_REFUSED = - 74"
| "zx_status CONNECTION_RESET = - 75"
| "zx_status CONNECTION_ABORTED = - 76"

datatype user_error =
  InvalidUtf8 | InvalidPointer | BufferTooSmall | InvalidLength | InvalidVectorAddress

fun zx_from_user_error :: "user_error \<Rightarrow> zx_error" where
  "zx_from_user_error InvalidUtf8 = INVALID_ARGS"
| "zx_from_user_error InvalidPointer = INVALID_ARGS"
| "zx_from_user_error BufferTooSmall = BUFFER_TOO_SMALL"
| "zx_from_user_error InvalidLength = INVALID_ARGS"
| "zx_from_user_error InvalidVectorAddress = NOT_FOUND"

text \<open>The inverse reading of a status, as the system-call layer returns it.\<close>

definition all_zx_errors :: "zx_error list" where
  "all_zx_errors = [OK, INTERNAL, NOT_SUPPORTED, NO_RESOURCES, NO_MEMORY,
    INTERNAL_INTR_RETRY, INVALID_ARGS, BAD_HANDLE, WRONG_TYPE, BAD_SYSCALL,
    OUT_OF_RANGE, BUFFER_TOO_SMALL, BAD_STATE, TIMED_OUT, SHOULD_WAIT,
    CANCELED, PEER_CLOSED, NOT_FOUND, ALREADY_EXISTS, ALREADY_BOUND,
    UNAVAILABLE, ACCESS_DENIED, IO, IO_REFUSED, IO_DATA_INTEGRITY,
    IO_DATA_LOSS, IO_NOT_PRESENT, IO_OVERRUN, IO_MISSED_DEADLINE, IO_INVALID,
    BAD_PATH, NOT_DIR, NOT_FILE, FILE_BIG, NO_SPACE,
    NOT_EMPTY, STOP, NEXT, ASYNC, PROTOCOL_NOT_SUPPORTED,
    ADDRESS_UNREACHABLE, ADDRESS_IN_USE, NOT_CONNECTED, CONNECTION_REFUSED, CONNECTION_RESET,
    CONNECTION_ABORTED]"

lemma all_zx_errors_complete: "e \<in> set all_zx_errors"
  by (cases e) (simp_all add: all_zx_errors_def)

lemma distinct_zx_status: "distinct (map zx_status all_zx_errors)"
  by (simp add: all_zx_errors_def)

lemma inj_zx_status: "inj zx_status"
  using distinct_zx_status all_zx_errors_complete
  by (auto simp: distinct_map inj_on_def inj_def)

lemma zx_status_nonpos: "zx_status e \<le> 0"
  by (cases e) simp_all

end
