(* ===== verification/Rights_Signals.thy ===== *)
theory Rights_Signals
  imports Zx_Error
begin

text \<open>
  Handle rights and object signals: \<^verbatim>\<open>zircon-object/src/object/rights.rs\<close> and
  \<^verbatim>\<open>zircon-object/src/object/signal.rs\<close>. A right or a signal is a bit of a 32-bit word; the names
  are the source's with the prefix \<open>RIGHT_\<close> or \<open>SIG_\<close>.
\<close>

section \<open>Rights\<close>

type_synonym rights = u32

definition RIGHT_DUPLICATE :: rights where "RIGHT_DUPLICATE = push_bit 0 1"
definition RIGHT_TRANSFER :: rights where "RIGHT_TRANSFER = push_bit 1 1"
definition RIGHT_READ :: rights where "RIGHT_READ = push_bit 2 1"
definition RIGHT_WRITE :: rights where "RIGHT_WRITE = push_bit 3 1"
definition RIGHT_EXECUTE :: rights where "RIGHT_EXECUTE = push_bit 4 1"
definition RIGHT_MAP :: rights where "RIGHT_MAP = push_bit 5 1"
definition RIGHT_GET_PROPERTY :: rights where "RIGHT_GET_PROPERTY = push_bit 6 1"
definition RIGHT_SET_PROPERTY :: rights where "RIGHT_SET_PROPERTY = push_bit 7 1"
definition RIGHT_ENUMERATE :: rights where "RIGHT_ENUMERATE = push_bit 8 1"
definition RIGHT_DESTROY :: rights where "RIGHT_DESTROY = push_bit 9 1"
definition RIGHT_SET_POLICY :: rights where "RIGHT_SET_POLICY = push_bit 10 1"
definition RIGHT_GET_POLICY :: rights where "RIGHT_GET_POLICY = push_bit 11 1"
definition RIGHT_SIGNAL :: rights where "RIGHT_SIGNAL = push_bit 12 1"
definition RIGHT_SIGNAL_PEER :: rights where "RIGHT_SIGNAL_PEER = push_bit 13 1"
definition RIGHT_WAIT :: rights where "RIGHT_WAIT = push_bit 14 1"
definition RIGHT_INSPECT :: rights where "RIGHT_INSPECT = push_bit 15 1"
definition RIGHT_MANAGE_JOB :: rights where "RIGHT_MANAGE_JOB = push_bit 16 1"
definition RIGHT_MANAGE_PROCESS :: rights where "RIGHT_MANAGE_PROCESS = push_bit 17 1"
definition RIGHT_MANAGE_THREAD :: rights where "RIGHT_MANAGE_THREAD = push_bit 18 1"
definition RIGHT_APPLY_PROFILE :: rights where "RIGHT_APPLY_PROFILE = push_bit 19 1"
definition RIGHT_MANAGE_SOCKET :: rights where "RIGHT_MANAGE_SOCKET = push_bit 20 1"
definition RIGHT_OP_CHILDREN :: rights where "RIGHT_OP_CHILDREN = push_bit 21 1"
definition RIGHT_RESIZE :: rights where "RIGHT_RESIZE = push_bit 22 1"
definition RIGHT_ATTACH_VMO :: rights where "RIGHT_ATTACH_VMO = push_bit 23 1"
definition RIGHT_MANAGE_VMO :: rights where "RIGHT_MANAGE_VMO = push_bit 24 1"
definition RIGHT_SAME_RIGHTS :: rights where "RIGHT_SAME_RIGHTS = push_bit 31 1"

definition RIGHT_BASIC :: rights where
  "RIGHT_BASIC = RIGHT_TRANSFER OR RIGHT_DUPLICATE OR RIGHT_WAIT OR RIGHT_INSPECT"
definition RIGHT_IO :: rights where
  "RIGHT_IO = RIGHT_READ OR RIGHT_WRITE"
definition RIGHT_PROPERTY :: rights where
  "RIGHT_PROPERTY = RIGHT_GET_PROPERTY OR RIGHT_SET_PROPERTY"
definition RIGHT_POLICY :: rights where
  "RIGHT_POLICY = RIGHT_GET_POLICY OR RIGHT_SET_POLICY"
definition RIGHT_DEFAULT_CHANNEL :: rights where
  "RIGHT_DEFAULT_CHANNEL = (RIGHT_BASIC AND NOT RIGHT_DUPLICATE) OR RIGHT_IO
      OR RIGHT_SIGNAL OR RIGHT_SIGNAL_PEER"
definition RIGHT_DEFAULT_PROCESS :: rights where
  "RIGHT_DEFAULT_PROCESS = RIGHT_BASIC OR RIGHT_IO OR RIGHT_PROPERTY OR RIGHT_ENUMERATE
      OR RIGHT_DESTROY OR RIGHT_SIGNAL OR RIGHT_MANAGE_PROCESS OR RIGHT_MANAGE_THREAD"
definition RIGHT_DEFAULT_THREAD :: rights where
  "RIGHT_DEFAULT_THREAD = RIGHT_BASIC OR RIGHT_IO OR RIGHT_PROPERTY OR RIGHT_DESTROY
      OR RIGHT_SIGNAL OR RIGHT_MANAGE_THREAD"
definition RIGHT_DEFAULT_VMAR :: rights where
  "RIGHT_DEFAULT_VMAR = (RIGHT_BASIC AND NOT RIGHT_WAIT) OR RIGHT_OP_CHILDREN"
definition RIGHT_DEFAULT_EXCEPTION :: rights where
  "RIGHT_DEFAULT_EXCEPTION = RIGHT_TRANSFER OR RIGHT_PROPERTY OR RIGHT_INSPECT"

text \<open>The presets of the objects that the calls modelled here do not create.\<close>

datatype rights_preset =
    Preset_VMO | Preset_JOB | Preset_RESOURCE | Preset_DEBUGLOG | Preset_SUSPEND_TOKEN | Preset_PORT
  | Preset_TIMER | Preset_CLOCK | Preset_COUNTER | Preset_EVENT | Preset_SYSTEM_EVENT_LOW_MEMORY | Preset_EVENTPAIR
  | Preset_FIFO | Preset_SOCKET | Preset_STREAM | Preset_BTI | Preset_INTERRUPT | Preset_DEVICE
  | Preset_PCI_INTERRUPT | Preset_GUEST | Preset_VCPU

fun default_rights :: "rights_preset \<Rightarrow> rights" where
  "default_rights Preset_VMO = RIGHT_BASIC OR RIGHT_IO OR RIGHT_PROPERTY OR RIGHT_MAP OR RIGHT_SIGNAL"
| "default_rights Preset_JOB = RIGHT_BASIC OR RIGHT_IO OR RIGHT_PROPERTY OR RIGHT_POLICY OR RIGHT_ENUMERATE OR RIGHT_DESTROY OR RIGHT_SIGNAL OR RIGHT_MANAGE_JOB OR RIGHT_MANAGE_PROCESS OR RIGHT_MANAGE_THREAD"
| "default_rights Preset_RESOURCE = (RIGHT_BASIC AND NOT RIGHT_WAIT) OR RIGHT_WRITE OR RIGHT_GET_PROPERTY"
| "default_rights Preset_DEBUGLOG = RIGHT_BASIC OR RIGHT_WRITE OR RIGHT_SIGNAL"
| "default_rights Preset_SUSPEND_TOKEN = RIGHT_TRANSFER OR RIGHT_INSPECT"
| "default_rights Preset_PORT = (RIGHT_BASIC AND NOT RIGHT_WAIT) OR RIGHT_IO"
| "default_rights Preset_TIMER = RIGHT_BASIC OR RIGHT_WRITE OR RIGHT_SIGNAL"
| "default_rights Preset_CLOCK = RIGHT_BASIC OR RIGHT_IO OR RIGHT_SIGNAL OR RIGHT_PROPERTY OR RIGHT_MAP"
| "default_rights Preset_COUNTER = RIGHT_BASIC OR RIGHT_IO OR RIGHT_SIGNAL"
| "default_rights Preset_EVENT = RIGHT_BASIC OR RIGHT_SIGNAL"
| "default_rights Preset_SYSTEM_EVENT_LOW_MEMORY = RIGHT_WAIT OR RIGHT_DUPLICATE OR RIGHT_TRANSFER"
| "default_rights Preset_EVENTPAIR = RIGHT_BASIC OR RIGHT_SIGNAL OR RIGHT_SIGNAL_PEER"
| "default_rights Preset_FIFO = RIGHT_BASIC OR RIGHT_IO OR RIGHT_SIGNAL OR RIGHT_SIGNAL_PEER"
| "default_rights Preset_SOCKET = RIGHT_BASIC OR RIGHT_IO OR RIGHT_PROPERTY OR RIGHT_SIGNAL OR RIGHT_SIGNAL_PEER OR RIGHT_MANAGE_SOCKET"
| "default_rights Preset_STREAM = RIGHT_BASIC OR RIGHT_PROPERTY OR RIGHT_SIGNAL"
| "default_rights Preset_BTI = (RIGHT_BASIC AND NOT RIGHT_WAIT) OR RIGHT_IO OR RIGHT_PROPERTY OR RIGHT_MAP"
| "default_rights Preset_INTERRUPT = RIGHT_BASIC OR RIGHT_IO OR RIGHT_SIGNAL"
| "default_rights Preset_DEVICE = RIGHT_BASIC OR RIGHT_IO"
| "default_rights Preset_PCI_INTERRUPT = RIGHT_BASIC OR RIGHT_IO OR RIGHT_SIGNAL"
| "default_rights Preset_GUEST = RIGHT_TRANSFER OR RIGHT_DUPLICATE OR RIGHT_WRITE OR RIGHT_INSPECT OR RIGHT_MANAGE_THREAD"
| "default_rights Preset_VCPU = RIGHT_BASIC OR RIGHT_IO OR RIGHT_EXECUTE OR RIGHT_SIGNAL"

definition RIGHTS_ALL :: rights where
  "RIGHTS_ALL = 0x81FFFFFF"

definition rights_try_from :: "u32 \<Rightarrow> rights zx_result" where
  "rights_try_from x = ok_or (from_bits RIGHTS_ALL x) INVALID_ARGS"

lemmas single_rights = 
  RIGHT_DUPLICATE_def RIGHT_TRANSFER_def RIGHT_READ_def RIGHT_WRITE_def
  RIGHT_EXECUTE_def RIGHT_MAP_def RIGHT_GET_PROPERTY_def RIGHT_SET_PROPERTY_def
  RIGHT_ENUMERATE_def RIGHT_DESTROY_def RIGHT_SET_POLICY_def RIGHT_GET_POLICY_def
  RIGHT_SIGNAL_def RIGHT_SIGNAL_PEER_def RIGHT_WAIT_def RIGHT_INSPECT_def
  RIGHT_MANAGE_JOB_def RIGHT_MANAGE_PROCESS_def RIGHT_MANAGE_THREAD_def RIGHT_APPLY_PROFILE_def
  RIGHT_MANAGE_SOCKET_def RIGHT_OP_CHILDREN_def RIGHT_RESIZE_def RIGHT_ATTACH_VMO_def
  RIGHT_MANAGE_VMO_def RIGHT_SAME_RIGHTS_def

lemmas default_rights_defs =
  RIGHT_BASIC_def RIGHT_IO_def RIGHT_PROPERTY_def RIGHT_POLICY_def
  RIGHT_DEFAULT_CHANNEL_def RIGHT_DEFAULT_PROCESS_def RIGHT_DEFAULT_THREAD_def
  RIGHT_DEFAULT_VMAR_def RIGHT_DEFAULT_EXCEPTION_def

section \<open>Signals\<close>

type_synonym signal = u32

definition SIG_READABLE :: signal where "SIG_READABLE = push_bit 0 1"
definition SIG_WRITABLE :: signal where "SIG_WRITABLE = push_bit 1 1"
definition SIG_PEER_CLOSED :: signal where "SIG_PEER_CLOSED = push_bit 2 1"
definition SIG_SIGNALED :: signal where "SIG_SIGNALED = push_bit 3 1"
definition SIG_HANDLE_CLOSED :: signal where "SIG_HANDLE_CLOSED = push_bit 23 1"
definition SIG_KERNEL_ALL :: signal where "SIG_KERNEL_ALL = 0xFFFFFF"
definition SIG_USER_ALL :: signal where "SIG_USER_ALL = push_bit 24 0xFF"
definition SIG_CLOCK_STARTED :: signal where "SIG_CLOCK_STARTED = push_bit 4 1"
definition SIG_COUNTER_POSITIVE :: signal where "SIG_COUNTER_POSITIVE = push_bit 4 1"
definition SIG_COUNTER_NON_POSITIVE :: signal where "SIG_COUNTER_NON_POSITIVE = push_bit 5 1"
definition SIG_SOCKET_PEER_WRITE_DISABLED :: signal where "SIG_SOCKET_PEER_WRITE_DISABLED = push_bit 4 1"
definition SIG_SOCKET_WRITE_DISABLED :: signal where "SIG_SOCKET_WRITE_DISABLED = push_bit 5 1"
definition SIG_SOCKET_CONTROL_READABLE :: signal where "SIG_SOCKET_CONTROL_READABLE = push_bit 6 1"
definition SIG_SOCKET_CONTROL_WRITABLE :: signal where "SIG_SOCKET_CONTROL_WRITABLE = push_bit 7 1"
definition SIG_SCOEKT_ACCEPT :: signal where "SIG_SCOEKT_ACCEPT = push_bit 8 1"
definition SIG_SOCKET_SHARE :: signal where "SIG_SOCKET_SHARE = push_bit 9 1"
definition SIG_SOCKET_READ_THRESHOLD :: signal where "SIG_SOCKET_READ_THRESHOLD = push_bit 10 1"
definition SIG_SOCKET_WRITE_THRESHOLD :: signal where "SIG_SOCKET_WRITE_THRESHOLD = push_bit 11 1"
definition SIG_TASK_TERMINATED :: signal where "SIG_TASK_TERMINATED = SIG_SIGNALED"
definition SIG_JOB_TERMINATED :: signal where "SIG_JOB_TERMINATED = SIG_SIGNALED"
definition SIG_JOB_NO_JOBS :: signal where "SIG_JOB_NO_JOBS = push_bit 4 1"
definition SIG_JOB_NO_PROCESSES :: signal where "SIG_JOB_NO_PROCESSES = push_bit 5 1"
definition SIG_PROCESS_TERMINATED :: signal where "SIG_PROCESS_TERMINATED = SIG_SIGNALED"
definition SIG_THREAD_TERMINATED :: signal where "SIG_THREAD_TERMINATED = SIG_SIGNALED"
definition SIG_THREAD_RUNNING :: signal where "SIG_THREAD_RUNNING = push_bit 4 1"
definition SIG_THREAD_SUSPENDED :: signal where "SIG_THREAD_SUSPENDED = push_bit 5 1"
definition SIG_VMO_ZERO_CHILDREN :: signal where "SIG_VMO_ZERO_CHILDREN = SIG_SIGNALED"
definition SIG_INTERRUPT_SIGNAL :: signal where "SIG_INTERRUPT_SIGNAL = push_bit 4 1"
definition SIG_SIGCHLD :: signal where "SIG_SIGCHLD = push_bit 6 1"
definition SIG_USER_SIGNAL :: "nat \<Rightarrow> signal" where "SIG_USER_SIGNAL k = push_bit (24 + k) 1"

definition SIGNALS_ALL :: signal where
  "SIGNALS_ALL = SIG_KERNEL_ALL OR SIG_USER_ALL"

definition verify_user_signal :: "signal \<Rightarrow> u32 \<Rightarrow> signal zx_result" where
  "verify_user_signal allowed_signals number =
     (if number AND NOT allowed_signals \<noteq> 0 then Err INVALID_ARGS
      else ok_or (from_bits SIGNALS_ALL number) INVALID_ARGS)"

lemmas signal_bits =
  SIG_READABLE_def SIG_WRITABLE_def SIG_PEER_CLOSED_def SIG_SIGNALED_def
  SIG_HANDLE_CLOSED_def SIG_KERNEL_ALL_def SIG_USER_ALL_def SIG_CLOCK_STARTED_def
  SIG_COUNTER_POSITIVE_def SIG_COUNTER_NON_POSITIVE_def SIG_SOCKET_PEER_WRITE_DISABLED_def SIG_SOCKET_WRITE_DISABLED_def
  SIG_SOCKET_CONTROL_READABLE_def SIG_SOCKET_CONTROL_WRITABLE_def SIG_SCOEKT_ACCEPT_def SIG_SOCKET_SHARE_def
  SIG_SOCKET_READ_THRESHOLD_def SIG_SOCKET_WRITE_THRESHOLD_def SIG_TASK_TERMINATED_def SIG_JOB_TERMINATED_def
  SIG_JOB_NO_JOBS_def SIG_JOB_NO_PROCESSES_def SIG_PROCESS_TERMINATED_def SIG_THREAD_TERMINATED_def
  SIG_THREAD_RUNNING_def SIG_THREAD_SUSPENDED_def SIG_VMO_ZERO_CHILDREN_def SIG_INTERRUPT_SIGNAL_def
  SIG_SIGCHLD_def SIG_USER_SIGNAL_def

lemma SIGNALS_ALL_max: "SIGNALS_ALL = - 1"
  by (simp add: SIGNALS_ALL_def SIG_KERNEL_ALL_def SIG_USER_ALL_def)

lemma verify_user_signal_Ok_iff:
  "verify_user_signal allowed n = Ok s \<longleftrightarrow> s = n \<and> contains allowed n"
proof -
  have "n AND NOT allowed = 0 \<longleftrightarrow> contains allowed n"
    using from_bits_Some_iff [of allowed n n] by (auto simp: from_bits_def split: if_splits)
  moreover have "from_bits SIGNALS_ALL n = Some n"
    by (simp add: from_bits_def SIGNALS_ALL_max)
  ultimately show ?thesis
    by (auto simp: verify_user_signal_def)
qed

text \<open>\<open>Rights::try_from\<close> accepts exactly the words made of declared rights, \<open>SAME_RIGHTS\<close> included.\<close>

lemma RIGHTS_ALL_is_union:
  "RIGHTS_ALL = fold (OR)
     [RIGHT_DUPLICATE, RIGHT_TRANSFER, RIGHT_READ, RIGHT_WRITE,
      RIGHT_EXECUTE, RIGHT_MAP, RIGHT_GET_PROPERTY, RIGHT_SET_PROPERTY,
      RIGHT_ENUMERATE, RIGHT_DESTROY, RIGHT_SET_POLICY, RIGHT_GET_POLICY,
      RIGHT_SIGNAL, RIGHT_SIGNAL_PEER, RIGHT_WAIT, RIGHT_INSPECT,
      RIGHT_MANAGE_JOB, RIGHT_MANAGE_PROCESS, RIGHT_MANAGE_THREAD, RIGHT_APPLY_PROFILE,
      RIGHT_MANAGE_SOCKET, RIGHT_OP_CHILDREN, RIGHT_RESIZE, RIGHT_ATTACH_VMO,
      RIGHT_MANAGE_VMO, RIGHT_SAME_RIGHTS] 0"
  by (simp add: RIGHTS_ALL_def single_rights)

lemma rights_try_from_Ok_iff: "rights_try_from x = Ok r \<longleftrightarrow> r = x \<and> contains RIGHTS_ALL x"
  by (auto simp: rights_try_from_def from_bits_Some_iff)

subsection \<open>Signals as bits\<close>

text \<open>
  A single-bit signal \<open>1 << k\<close> is asserted when bit \<open>k\<close> of the signal word is set; clearing and
  raising act bit by bit.
\<close>

lemma bit_flag_insert [flag_simps]: "bit (flag_insert a b) n \<longleftrightarrow> bit a n \<or> bit b n"
  by (simp add: flag_insert_def bit_or_iff)

lemma bit_flag_remove [flag_simps]: "bit (flag_remove a b) n \<longleftrightarrow> bit a n \<and> \<not> bit b n"
  by (auto simp: flag_remove_def bit_and_iff bit_not_iff dest: bit_imp_le_length)

lemma bit_signal_exp: "bit (push_bit k 1 :: signal) n \<longleftrightarrow> n = k \<and> k < 32"
  by (auto simp: bit_exp_iff)

lemmas single_signal_defs =
  SIG_READABLE_def SIG_WRITABLE_def SIG_PEER_CLOSED_def SIG_SIGNALED_def
  SIG_HANDLE_CLOSED_def SIG_CLOCK_STARTED_def SIG_COUNTER_POSITIVE_def SIG_COUNTER_NON_POSITIVE_def
  SIG_SOCKET_PEER_WRITE_DISABLED_def SIG_SOCKET_WRITE_DISABLED_def SIG_SOCKET_CONTROL_READABLE_def SIG_SOCKET_CONTROL_WRITABLE_def
  SIG_SCOEKT_ACCEPT_def SIG_SOCKET_SHARE_def SIG_SOCKET_READ_THRESHOLD_def SIG_SOCKET_WRITE_THRESHOLD_def
  SIG_JOB_NO_JOBS_def SIG_JOB_NO_PROCESSES_def SIG_THREAD_RUNNING_def SIG_THREAD_SUSPENDED_def
  SIG_INTERRUPT_SIGNAL_def SIG_SIGCHLD_def SIG_TASK_TERMINATED_def SIG_JOB_TERMINATED_def
  SIG_PROCESS_TERMINATED_def SIG_THREAD_TERMINATED_def SIG_VMO_ZERO_CHILDREN_def

lemma bit_SIG [flag_simps]:
  "bit SIG_READABLE n \<longleftrightarrow> n = 0"
  "bit SIG_WRITABLE n \<longleftrightarrow> n = 1"
  "bit SIG_PEER_CLOSED n \<longleftrightarrow> n = 2"
  "bit SIG_SIGNALED n \<longleftrightarrow> n = 3"
  "bit SIG_HANDLE_CLOSED n \<longleftrightarrow> n = 23"
  "bit SIG_CLOCK_STARTED n \<longleftrightarrow> n = 4"
  "bit SIG_COUNTER_POSITIVE n \<longleftrightarrow> n = 4"
  "bit SIG_COUNTER_NON_POSITIVE n \<longleftrightarrow> n = 5"
  "bit SIG_SOCKET_PEER_WRITE_DISABLED n \<longleftrightarrow> n = 4"
  "bit SIG_SOCKET_WRITE_DISABLED n \<longleftrightarrow> n = 5"
  "bit SIG_SOCKET_CONTROL_READABLE n \<longleftrightarrow> n = 6"
  "bit SIG_SOCKET_CONTROL_WRITABLE n \<longleftrightarrow> n = 7"
  "bit SIG_SCOEKT_ACCEPT n \<longleftrightarrow> n = 8"
  "bit SIG_SOCKET_SHARE n \<longleftrightarrow> n = 9"
  "bit SIG_SOCKET_READ_THRESHOLD n \<longleftrightarrow> n = 10"
  "bit SIG_SOCKET_WRITE_THRESHOLD n \<longleftrightarrow> n = 11"
  "bit SIG_JOB_NO_JOBS n \<longleftrightarrow> n = 4"
  "bit SIG_JOB_NO_PROCESSES n \<longleftrightarrow> n = 5"
  "bit SIG_THREAD_RUNNING n \<longleftrightarrow> n = 4"
  "bit SIG_THREAD_SUSPENDED n \<longleftrightarrow> n = 5"
  "bit SIG_INTERRUPT_SIGNAL n \<longleftrightarrow> n = 4"
  "bit SIG_SIGCHLD n \<longleftrightarrow> n = 6"
  "bit SIG_TASK_TERMINATED n \<longleftrightarrow> n = 3"
  "bit SIG_JOB_TERMINATED n \<longleftrightarrow> n = 3"
  "bit SIG_PROCESS_TERMINATED n \<longleftrightarrow> n = 3"
  "bit SIG_THREAD_TERMINATED n \<longleftrightarrow> n = 3"
  "bit SIG_VMO_ZERO_CHILDREN n \<longleftrightarrow> n = 3"
  unfolding single_signal_defs bit_signal_exp by auto

lemma contains_SIG [flag_simps]:
  "contains s SIG_READABLE \<longleftrightarrow> bit s 0"
  "contains s SIG_WRITABLE \<longleftrightarrow> bit s 1"
  "contains s SIG_PEER_CLOSED \<longleftrightarrow> bit s 2"
  "contains s SIG_SIGNALED \<longleftrightarrow> bit s 3"
  "contains s SIG_HANDLE_CLOSED \<longleftrightarrow> bit s 23"
  "contains s SIG_CLOCK_STARTED \<longleftrightarrow> bit s 4"
  "contains s SIG_COUNTER_POSITIVE \<longleftrightarrow> bit s 4"
  "contains s SIG_COUNTER_NON_POSITIVE \<longleftrightarrow> bit s 5"
  "contains s SIG_SOCKET_PEER_WRITE_DISABLED \<longleftrightarrow> bit s 4"
  "contains s SIG_SOCKET_WRITE_DISABLED \<longleftrightarrow> bit s 5"
  "contains s SIG_SOCKET_CONTROL_READABLE \<longleftrightarrow> bit s 6"
  "contains s SIG_SOCKET_CONTROL_WRITABLE \<longleftrightarrow> bit s 7"
  "contains s SIG_SCOEKT_ACCEPT \<longleftrightarrow> bit s 8"
  "contains s SIG_SOCKET_SHARE \<longleftrightarrow> bit s 9"
  "contains s SIG_SOCKET_READ_THRESHOLD \<longleftrightarrow> bit s 10"
  "contains s SIG_SOCKET_WRITE_THRESHOLD \<longleftrightarrow> bit s 11"
  "contains s SIG_JOB_NO_JOBS \<longleftrightarrow> bit s 4"
  "contains s SIG_JOB_NO_PROCESSES \<longleftrightarrow> bit s 5"
  "contains s SIG_THREAD_RUNNING \<longleftrightarrow> bit s 4"
  "contains s SIG_THREAD_SUSPENDED \<longleftrightarrow> bit s 5"
  "contains s SIG_INTERRUPT_SIGNAL \<longleftrightarrow> bit s 4"
  "contains s SIG_SIGCHLD \<longleftrightarrow> bit s 6"
  "contains s SIG_TASK_TERMINATED \<longleftrightarrow> bit s 3"
  "contains s SIG_JOB_TERMINATED \<longleftrightarrow> bit s 3"
  "contains s SIG_PROCESS_TERMINATED \<longleftrightarrow> bit s 3"
  "contains s SIG_THREAD_TERMINATED \<longleftrightarrow> bit s 3"
  "contains s SIG_VMO_ZERO_CHILDREN \<longleftrightarrow> bit s 3"
  by (simp_all only: contains_iff_bits bit_SIG) auto

lemma user_signals_high:
  assumes "contains SIG_USER_ALL s" and "bit s n"
  shows "24 \<le> n"
proof (rule ccontr)
  assume "\<not> 24 \<le> n"
  then have "\<not> bit (push_bit 24 0xFF :: signal) n" by (simp only: bit_push_bit_iff) simp
  with assms show False by (auto simp: contains_iff_bits SIG_USER_ALL_def)
qed

lemma user_signals_low: "contains SIG_USER_ALL s \<Longrightarrow> n < 24 \<Longrightarrow> \<not> bit s n"
  using user_signals_high [of s n] by auto

end
