(* ===== verification/KObject.thy ===== *)
theory KObject
  imports Rights_Signals
begin

text \<open>
  The base of every kernel object, \<^verbatim>\<open>zircon-object/src/object/mod.rs\<close>: \<^verbatim>\<open>KObjectBase\<close> with its
  signals and signal callbacks.

  A callback of type \<open>'h\<close> is run by a function \<open>call\<close>, which returns the callback's Boolean (done,
  never call again) and the environment \<open>'e\<close> it leaves behind, so that the same definitions serve
  the objects whose observers are plain predicates and those whose observers wake tasks or queue
  packets. The locale \<open>signal_bus\<close> is the contract the clients of the base rely on.
\<close>

section \<open>KObjectBase\<close>

record 'h kobject_base =
  kobj_id :: u64
  kobj_name :: string
  kobj_signal :: signal
  signal_callbacks :: "'h list"

definition KOID_INIT :: u64 where
  "KOID_INIT = 1024"

text \<open>\<^verbatim>\<open>fetch_add(1)\<close> on the global counter: the old value is the new object's KoID.\<close>

definition new_koid :: "u64 \<Rightarrow> u64 \<times> u64" where
  "new_koid koid = (koid, koid + 1)"

definition kobject_with :: "string \<Rightarrow> signal \<Rightarrow> u64 \<Rightarrow> 'h kobject_base \<times> u64" where
  "kobject_with name sig koid =
     (let (i, koid') = new_koid koid
      in (\<lparr>kobj_id = i, kobj_name = name, kobj_signal = sig, signal_callbacks = []\<rparr>, koid'))"

definition kobject_new :: "u64 \<Rightarrow> 'h kobject_base \<times> u64" where
  "kobject_new = kobject_with [] 0"

definition kobject_with_signal :: "signal \<Rightarrow> u64 \<Rightarrow> 'h kobject_base \<times> u64" where
  "kobject_with_signal sig = kobject_with [] sig"

definition kobject_with_name :: "string \<Rightarrow> u64 \<Rightarrow> 'h kobject_base \<times> u64" where
  "kobject_with_name name = kobject_with name 0"

definition set_name :: "string \<Rightarrow> 'h kobject_base \<Rightarrow> 'h kobject_base" where
  "set_name name b = b\<lparr>kobj_name := name\<rparr>"

text \<open>\<^verbatim>\<open>Vec::retain(|f| !f(s))\<close>: every callback runs once, in order; those that are done go.\<close>

fun retain_callbacks ::
  "('h \<Rightarrow> signal \<Rightarrow> 'e \<Rightarrow> bool \<times> 'e) \<Rightarrow> signal \<Rightarrow> 'h list \<Rightarrow> 'e \<Rightarrow> 'h list \<times> 'e" where
  "retain_callbacks call s [] e = ([], e)"
| "retain_callbacks call s (f # fs) e =
     (let (fin, e1) = call f s e; (fs', e2) = retain_callbacks call s fs e1
      in (if fin then fs' else f # fs', e2))"

definition signal_change ::
  "('h \<Rightarrow> signal \<Rightarrow> 'e \<Rightarrow> bool \<times> 'e) \<Rightarrow> signal \<Rightarrow> signal \<Rightarrow> 'h kobject_base \<Rightarrow> 'e
     \<Rightarrow> 'h kobject_base \<times> 'e" where
  "signal_change call clear raise b e =
     (let old_signal = kobj_signal b;
          new_signal = flag_insert (flag_remove old_signal clear) raise;
          b1 = b\<lparr>kobj_signal := new_signal\<rparr>
      in if new_signal = old_signal then (b1, e)
         else let (cbs, e1) = retain_callbacks call new_signal (rev (signal_callbacks b1)) e
              in (b1\<lparr>signal_callbacks := rev cbs\<rparr>, e1))"

definition signal_set ::
  "('h \<Rightarrow> signal \<Rightarrow> 'e \<Rightarrow> bool \<times> 'e) \<Rightarrow> signal \<Rightarrow> 'h kobject_base \<Rightarrow> 'e \<Rightarrow> 'h kobject_base \<times> 'e" where
  "signal_set call s = signal_change call 0 s"

definition signal_clear ::
  "('h \<Rightarrow> signal \<Rightarrow> 'e \<Rightarrow> bool \<times> 'e) \<Rightarrow> signal \<Rightarrow> 'h kobject_base \<Rightarrow> 'e \<Rightarrow> 'h kobject_base \<times> 'e" where
  "signal_clear call s = signal_change call s 0"

definition add_signal_callback ::
  "('h \<Rightarrow> signal \<Rightarrow> 'e \<Rightarrow> bool \<times> 'e) \<Rightarrow> 'h \<Rightarrow> 'h kobject_base \<Rightarrow> 'e \<Rightarrow> 'h kobject_base \<times> 'e" where
  "add_signal_callback call cb b e =
     (let (fin, e1) = call cb (kobj_signal b) e
      in if fin then (b, e1) else (b\<lparr>signal_callbacks := signal_callbacks b @ [cb]\<rparr>, e1))"

subsection \<open>Observers that are predicates\<close>

text \<open>
  The objects of the IPC and task layers never look at what an observer does. For them an observer
  is its completion predicate, and the environment is trivial.
\<close>

type_synonym kobj = "(signal \<Rightarrow> bool) kobject_base"

definition run_pred :: "(signal \<Rightarrow> bool) \<Rightarrow> signal \<Rightarrow> unit \<Rightarrow> bool \<times> unit" where
  "run_pred f s u = (f s, u)"

definition kchange :: "signal \<Rightarrow> signal \<Rightarrow> kobj \<Rightarrow> kobj" where
  "kchange clear raise b = fst (signal_change run_pred clear raise b ())"

definition kset :: "signal \<Rightarrow> kobj \<Rightarrow> kobj" where
  "kset s b = fst (signal_set run_pred s b ())"

definition kclear :: "signal \<Rightarrow> kobj \<Rightarrow> kobj" where
  "kclear s b = fst (signal_clear run_pred s b ())"

definition kobserve :: "(signal \<Rightarrow> bool) \<Rightarrow> kobj \<Rightarrow> kobj" where
  "kobserve f b = fst (add_signal_callback run_pred f b ())"

section \<open>Facts about the base\<close>

lemma kobject_with_simps [simp]:
  "kobj_id (fst (kobject_with n s k)) = k"
  "kobj_name (fst (kobject_with n s k)) = n"
  "kobj_signal (fst (kobject_with n s k)) = s"
  "signal_callbacks (fst (kobject_with n s k)) = []"
  "snd (kobject_with n s k) = k + 1"
  by (simp_all add: kobject_with_def new_koid_def)

lemma signal_change_signal [simp]:
  "kobj_signal (fst (signal_change call c s b e)) = flag_insert (flag_remove (kobj_signal b) c) s"
  by (simp add: signal_change_def Let_def split: prod.split)

lemma signal_change_id [simp]: "kobj_id (fst (signal_change call c s b e)) = kobj_id b"
  by (simp add: signal_change_def Let_def split: prod.split)

lemma signal_change_name [simp]: "kobj_name (fst (signal_change call c s b e)) = kobj_name b"
  by (simp add: signal_change_def Let_def split: prod.split)

lemma retain_callbacks_subset:
  "set (fst (retain_callbacks call s fs e)) \<subseteq> set fs"
proof (induction fs arbitrary: e)
  case (Cons f fs)
  then show ?case
    by (auto simp: Let_def split: prod.splits) (metis fst_conv subsetD)+
qed simp

lemma signal_change_callbacks_subset:
  "set (signal_callbacks (fst (signal_change call c s b e))) \<subseteq> set (signal_callbacks b)"
proof -
  have "set (fst (retain_callbacks call n (rev (signal_callbacks b)) e)) \<subseteq> set (signal_callbacks b)" for n
    using retain_callbacks_subset [of call n "rev (signal_callbacks b)" e] by simp
  then show ?thesis
    by (auto simp: signal_change_def Let_def split: prod.split) (metis fst_conv subsetD)
qed

lemma signal_change_unobserved:
  "signal_callbacks b = [] \<Longrightarrow>
     signal_change call c s b e = (b\<lparr>kobj_signal := flag_insert (flag_remove (kobj_signal b) c) s\<rparr>, e)"
  by (cases b) (simp add: signal_change_def Let_def)

lemma retain_callbacks_pred:
  "retain_callbacks run_pred s fs u = (filter (\<lambda>f. \<not> f s) fs, u)"
  by (induction fs) (simp_all add: run_pred_def)

lemma kchange_eq:
  "kchange c s b =
     (let n = flag_insert (flag_remove (kobj_signal b) c) s
      in if n = kobj_signal b then b
         else b\<lparr>kobj_signal := n, signal_callbacks := filter (\<lambda>f. \<not> f n) (signal_callbacks b)\<rparr>)"
  by (simp add: kchange_def signal_change_def Let_def retain_callbacks_pred)

lemma kset_eq_kchange: "kset s b = kchange 0 s b"
  by (simp add: kset_def kchange_def signal_set_def)

lemma kclear_eq_kchange: "kclear s b = kchange s 0 b"
  by (simp add: kclear_def kchange_def signal_clear_def)

lemma kchange_signal [simp]: "kobj_signal (kchange c s b) = flag_insert (flag_remove (kobj_signal b) c) s"
  by (simp add: kchange_def)

lemma kset_signal [simp]: "kobj_signal (kset s b) = flag_insert (kobj_signal b) s"
  by (simp add: kset_eq_kchange)

lemma kclear_signal [simp]: "kobj_signal (kclear s b) = flag_remove (kobj_signal b) s"
  by (simp add: kclear_eq_kchange)

lemma kobj_id_simps [simp]:
  "kobj_id (kchange c s b) = kobj_id b" "kobj_id (kset s b) = kobj_id b" "kobj_id (kclear s b) = kobj_id b"
  by (simp_all add: kset_eq_kchange kclear_eq_kchange) (simp_all add: kchange_def)

section \<open>The contract of the signal base\<close>

text \<open>
  What a client of the base relies on: a change clears then raises bits and keeps exactly the
  observers the new state does not complete; a new observer is refused when the current state
  completes it already. From these laws alone: no observer that stays registered is completed by
  the current state, and an observer that a change completes is gone after it.
\<close>

locale signal_bus =
  fixes level :: "'s \<Rightarrow> 'w::len word"
    and observers :: "'s \<Rightarrow> 'h list"
    and completes :: "'h \<Rightarrow> 'w word \<Rightarrow> bool"
    and change_levels :: "'w word \<Rightarrow> 'w word \<Rightarrow> 's \<Rightarrow> 's"
    and subscribe :: "'h \<Rightarrow> 's \<Rightarrow> 's"
  assumes level_change: "level (change_levels c r s) = (level s AND NOT c) OR r"
    and observers_change:
      "observers (change_levels c r s) =
         (if level (change_levels c r s) = level s then observers s
          else filter (\<lambda>h. \<not> completes h (level (change_levels c r s))) (observers s))"
    and level_subscribe: "level (subscribe h s) = level s"
    and observers_subscribe:
      "observers (subscribe h s) =
         (if completes h (level s) then observers s else observers s @ [h])"
begin

definition armed :: "'s \<Rightarrow> bool" where
  "armed s \<longleftrightarrow> (\<forall>h \<in> set (observers s). \<not> completes h (level s))"

lemma armed_change [intro]: "armed s \<Longrightarrow> armed (change_levels c r s)"
  by (auto simp: armed_def observers_change)

lemma armed_subscribe [intro]: "armed s \<Longrightarrow> armed (subscribe h s)"
  by (auto simp: armed_def observers_subscribe level_subscribe)

lemma completed_observer_gone:
  assumes "armed s" and "completes h (level (change_levels c r s))"
  shows "h \<notin> set (observers (change_levels c r s))"
  using armed_change [OF assms(1), of c r] assms(2) by (auto simp: armed_def)

lemma incomplete_observer_stays:
  assumes "h \<in> set (observers s)" and "\<not> completes h (level (change_levels c r s))"
  shows "h \<in> set (observers (change_levels c r s))"
  using assms by (simp add: observers_change)

lemma change_twice:
  "level (change_levels c r (change_levels c r s)) = level (change_levels c r s)"
  by (auto simp: level_change bit_eq_iff bit_and_iff bit_or_iff bit_not_iff)

end

interpretation kbus: signal_bus kobj_signal signal_callbacks "\<lambda>f s. f s" kchange kobserve
proof unfold_locales
  fix c r :: signal and h :: "signal \<Rightarrow> bool" and s :: kobj
  show "kobj_signal (kchange c r s) = (kobj_signal s AND NOT c) OR r"
    by (simp add: flag_insert_def flag_remove_def)
  show "signal_callbacks (kchange c r s) =
          (if kobj_signal (kchange c r s) = kobj_signal s then signal_callbacks s
           else filter (\<lambda>h. \<not> h (kobj_signal (kchange c r s))) (signal_callbacks s))"
    by (simp add: kchange_eq Let_def)
  show "kobj_signal (kobserve h s) = kobj_signal s"
    by (simp add: kobserve_def add_signal_callback_def run_pred_def)
  show "signal_callbacks (kobserve h s) =
          (if h (kobj_signal s) then signal_callbacks s else signal_callbacks s @ [h])"
    by (simp add: kobserve_def add_signal_callback_def run_pred_def)
qed

end
