(* ===== verification/Signal_Wait.thy ===== *)
theory Signal_Wait
  imports KObject
begin

text \<open>
  The futures of \<^verbatim>\<open>zircon-object/src/object/mod.rs\<close> that wait for signals: \<^verbatim>\<open>wait_signal\<close>, with each
  access to shared state a step of its own, and \<^verbatim>\<open>wait_signal_many\<close>. Shown: a pending
  \<^verbatim>\<open>wait_signal\<close> is never left asleep when its signal is raised, whatever other threads do in
  between; \<^verbatim>\<open>wait_signal_many\<close> registers its callbacks at the first poll only and does not rearm.
\<close>

section \<open>The futures\<close>

record signal_waiter =
  registered :: bool
  waker :: "nat option"

text \<open>
  \<open>waiters\<close> holds the live \<^verbatim>\<open>SignalWaiter\<close>s (a dropped one is \<open>None\<close>, its \<^verbatim>\<open>Weak\<close> no longer
  upgrades), \<open>wakes\<close> the tasks woken so far, in order.
\<close>

record wait_env =
  waiters :: "nat \<Rightarrow> signal_waiter option"
  wakes :: "nat list"

datatype wait_handler = SignalCb nat signal | ManyCb nat signal

fun run_wait :: "wait_handler \<Rightarrow> signal \<Rightarrow> wait_env \<Rightarrow> bool \<times> wait_env" where
  "run_wait (SignalCb w m) s env =
     (case waiters env w of
        None \<Rightarrow> (True, env)
      | Some wt \<Rightarrow>
          if \<not> intersects s m then (False, env)
          else (True, env\<lparr>waiters := (waiters env)(w \<mapsto> \<lparr>registered = False, waker = None\<rparr>),
                          wakes := wakes env @ (case waker wt of Some t \<Rightarrow> [t] | None \<Rightarrow> [])\<rparr>))"
| "run_wait (ManyCb t m) s env =
     (if \<not> intersects s m then (False, env) else (True, env\<lparr>wakes := wakes env @ [t]\<rparr>))"

subsection \<open>wait\_signal, one atomic access at a time\<close>

text \<open>
  A poll of \<^verbatim>\<open>SignalFuture\<close> makes four accesses to shared state, between which other threads may
  change the object's signals: it reads the signal, stores its waker, swaps \<open>registered\<close>, and
  calls \<^verbatim>\<open>add_signal_callback\<close>. The program counter says which comes next; \<open>wmark\<close> is the length of
  the wake log when the current poll began.
\<close>

datatype poll_pc =
    PIdle
  | PStoreWaker nat
  | PSwap nat
  | PAdd nat
  | PPending nat
  | PReady signal

record wait_state =
  wobj :: "wait_handler kobject_base"
  wenv :: wait_env
  wpc :: poll_pc
  wmark :: nat

definition wait_signal_future :: "nat \<Rightarrow> wait_handler kobject_base \<Rightarrow> wait_env \<Rightarrow> wait_state" where
  "wait_signal_future w b env =
     \<lparr>wobj = b,
      wenv = env\<lparr>waiters := (waiters env)(w \<mapsto> \<lparr>registered = False, waker = None\<rparr>)\<rparr>,
      wpc = PIdle, wmark = 0\<rparr>"

definition poll_begin :: "signal \<Rightarrow> nat \<Rightarrow> wait_state \<Rightarrow> wait_state" where
  "poll_begin m t st =
     (let current_signal = kobj_signal (wobj st)
      in st\<lparr>wpc := if intersects current_signal m then PReady current_signal else PStoreWaker t,
            wmark := length (wakes (wenv st))\<rparr>)"

definition poll_store_waker :: "nat \<Rightarrow> nat \<Rightarrow> wait_state \<Rightarrow> wait_state" where
  "poll_store_waker w t st =
     st\<lparr>wenv := (wenv st)\<lparr>waiters :=
          (waiters (wenv st))(w := map_option (\<lambda>wt. wt\<lparr>waker := Some t\<rparr>) (waiters (wenv st) w))\<rparr>,
        wpc := PSwap t\<rparr>"

definition poll_swap :: "nat \<Rightarrow> nat \<Rightarrow> wait_state \<Rightarrow> wait_state" where
  "poll_swap w t st =
     (case waiters (wenv st) w of
        None \<Rightarrow> st
      | Some wt \<Rightarrow>
          if registered wt then st\<lparr>wpc := PPending t\<rparr>
          else st\<lparr>wenv := (wenv st)\<lparr>waiters := (waiters (wenv st))(w \<mapsto> wt\<lparr>registered := True\<rparr>)\<rparr>,
                  wpc := PAdd t\<rparr>)"

definition poll_add :: "nat \<Rightarrow> signal \<Rightarrow> nat \<Rightarrow> wait_state \<Rightarrow> wait_state" where
  "poll_add w m t st =
     (let (b, env) = add_signal_callback run_wait (SignalCb w m) (wobj st) (wenv st)
      in st\<lparr>wobj := b, wenv := env, wpc := PPending t\<rparr>)"

definition env_change :: "signal \<Rightarrow> signal \<Rightarrow> wait_state \<Rightarrow> wait_state" where
  "env_change clear raise st =
     (let (b, env) = signal_change run_wait clear raise (wobj st) (wenv st)
      in st\<lparr>wobj := b, wenv := env\<rparr>)"

text \<open>One step of the future \<open>w\<close> waiting for \<open>m\<close>, or of any thread changing the signals.\<close>

inductive wait_step :: "nat \<Rightarrow> signal \<Rightarrow> wait_state \<Rightarrow> wait_state \<Rightarrow> bool" for w m where
  first_poll: "wpc st = PIdle \<Longrightarrow> wait_step w m st (poll_begin m t st)"
| poll_again: "wpc st = PPending t' \<Longrightarrow> wait_step w m st (poll_begin m t st)"
| store_waker: "wpc st = PStoreWaker t \<Longrightarrow> wait_step w m st (poll_store_waker w t st)"
| swap_registered: "wpc st = PSwap t \<Longrightarrow> wait_step w m st (poll_swap w t st)"
| add_callback: "wpc st = PAdd t \<Longrightarrow> wait_step w m st (poll_add w m t st)"
| change: "wait_step w m st (env_change clear raise st)"

subsection \<open>wait\_signal\_many\<close>

text \<open>
  The targets are indices into the list of objects; \<open>first\<close> is the future's field. The result is
  \<open>Some\<close> of the current signals (\<^verbatim>\<open>Poll::Ready\<close>) or \<open>None\<close> (\<^verbatim>\<open>Poll::Pending\<close>), with the new value
  of \<open>first\<close>.
\<close>

definition many_happened :: "(nat \<times> signal) list \<Rightarrow> signal list \<Rightarrow> bool" where
  "many_happened targets current = list_ex (\<lambda>((_, desired), c). intersects c desired) (zip targets current)"

fun many_register ::
  "nat \<Rightarrow> (nat \<times> signal) list \<Rightarrow> wait_handler kobject_base list \<Rightarrow> wait_env
     \<Rightarrow> wait_handler kobject_base list \<times> wait_env" where
  "many_register t [] objs env = (objs, env)"
| "many_register t ((i, m) # targets) objs env =
     (let (b, env1) = add_signal_callback run_wait (ManyCb t m) (objs ! i) env
      in many_register t targets (objs[i := b]) env1)"

definition many_poll ::
  "nat \<Rightarrow> (nat \<times> signal) list \<Rightarrow> bool \<Rightarrow> wait_handler kobject_base list \<Rightarrow> wait_env
     \<Rightarrow> signal list option \<times> bool \<times> wait_handler kobject_base list \<times> wait_env" where
  "many_poll t targets first objs env =
     (let current = map (\<lambda>(i, _). kobj_signal (objs ! i)) targets
      in if many_happened targets current then (Some current, first, objs, env)
         else if first then
           let (objs1, env1) = many_register t targets objs env in (None, False, objs1, env1)
         else (None, False, objs, env))"

section \<open>What a change of signals does to one waiter\<close>

lemma run_wait_log: "\<exists>ws. wakes (snd (run_wait h s env)) = wakes env @ ws"
  by (cases h) (auto split: option.splits)

lemma run_wait_other:
  "(\<And>m. h \<noteq> SignalCb w m) \<Longrightarrow> waiters (snd (run_wait h s env)) w = waiters env w"
  by (cases h) (auto split: option.splits)

lemma run_wait_sleeps:
  "waiters env w = Some wt \<Longrightarrow> \<not> intersects s m \<Longrightarrow> run_wait (SignalCb w m) s env = (False, env)"
  by simp

lemma retain_log: "\<exists>ws. wakes (snd (retain_callbacks run_wait s fs env)) = wakes env @ ws"
proof (induction fs arbitrary: env)
  case (Cons f fs)
  show ?case
    using run_wait_log [of f s env] Cons [of "snd (run_wait f s env)"]
    by (auto simp: Let_def case_prod_unfold simp del: run_wait.simps)
qed simp

lemma retain_absent:
  "(\<And>m. SignalCb w m \<notin> set fs) \<Longrightarrow>
     waiters (snd (retain_callbacks run_wait s fs env)) w = waiters env w"
proof (induction fs arbitrary: env)
  case (Cons f fs)
  have "waiters (snd (run_wait f s env)) w = waiters env w"
    using Cons.prems by (intro run_wait_other) auto
  with Cons show ?case
    by (auto simp: Let_def case_prod_unfold simp del: run_wait.simps)
qed simp

lemma retain_sleeping:
  assumes "waiters env w = Some wt" and "\<And>m'. m' \<noteq> m \<Longrightarrow> SignalCb w m' \<notin> set fs"
    and "\<not> intersects s m"
  shows "waiters (snd (retain_callbacks run_wait s fs env)) w = Some wt \<and>
    (SignalCb w m \<in> set (fst (retain_callbacks run_wait s fs env)) \<longleftrightarrow> SignalCb w m \<in> set fs)"
  using assms
proof (induction fs arbitrary: env)
  case (Cons f fs)
  have same: "waiters (snd (run_wait f s env)) w = Some wt"
  proof (cases "\<exists>m'. f = SignalCb w m'")
    case True
    with Cons.prems(2) have "f = SignalCb w m" by (metis list.set_intros(1))
    with Cons.prems(1,3) show ?thesis by simp
  next
    case False
    with Cons.prems(1) run_wait_other [of f w s env] show ?thesis by simp
  qed
  have kept: "f = SignalCb w m \<Longrightarrow> \<not> fst (run_wait f s env)"
    using Cons.prems by simp
  have tl: "\<And>m'. m' \<noteq> m \<Longrightarrow> SignalCb w m' \<notin> set fs"
    using Cons.prems(2) by simp
  from Cons.IH [OF same tl Cons.prems(3)] kept show ?case
    by (auto simp: Let_def case_prod_unfold simp del: run_wait.simps)
qed simp

lemma retain_fires:
  assumes "waiters env w = Some wt" and "\<And>m'. m' \<noteq> m \<Longrightarrow> SignalCb w m' \<notin> set fs"
    and "intersects s m" and "SignalCb w m \<in> set fs"
  shows "waiters (snd (retain_callbacks run_wait s fs env)) w = Some \<lparr>registered = False, waker = None\<rparr> \<and>
    SignalCb w m \<notin> set (fst (retain_callbacks run_wait s fs env)) \<and>
    (\<exists>ws. wakes (snd (retain_callbacks run_wait s fs env)) = wakes env @ ws \<and>
          set_option (waker wt) \<subseteq> set ws)"
  using assms
proof (induction fs arbitrary: env wt)
  case (Cons f fs)
  let ?env = "snd (run_wait f s env)"
  obtain ws where ws: "wakes ?env = wakes env @ ws"
    using run_wait_log by blast
  obtain vs where vs: "wakes (snd (retain_callbacks run_wait s fs ?env)) = wakes ?env @ vs"
    using retain_log by blast
  have tl: "\<And>m'. m' \<noteq> m \<Longrightarrow> SignalCb w m' \<notin> set fs"
    using Cons.prems(2) by simp
  show ?case
  proof (cases "f = SignalCb w m")
    case True
    then have f: "fst (run_wait f s env)" "waiters ?env w = Some \<lparr>registered = False, waker = None\<rparr>"
      "set_option (waker wt) \<subseteq> set ws"
      using Cons.prems ws by (auto split: option.splits)
    show ?thesis
    proof (cases "SignalCb w m \<in> set fs")
      case True
      from Cons.IH [OF f(2) tl Cons.prems(3) True] f ws show ?thesis
        by (auto simp: Let_def case_prod_unfold simp del: run_wait.simps)
    next
      case False
      with tl have "SignalCb w m' \<notin> set fs" for m' by metis
      then have "waiters (snd (retain_callbacks run_wait s fs ?env)) w = waiters ?env w"
        by (rule retain_absent)
      moreover have "SignalCb w m \<notin> set (fst (retain_callbacks run_wait s fs ?env))"
        using retain_callbacks_subset [of run_wait s fs ?env] False by blast
      ultimately show ?thesis
        using f ws vs by (auto simp: Let_def case_prod_unfold simp del: run_wait.simps)
    qed
  next
    case False
    then have "f \<noteq> SignalCb w m'" for m'
      using Cons.prems(2) by auto
    then have "waiters ?env w = Some wt"
      using Cons.prems(1) by (simp add: run_wait_other)
    from Cons.IH [OF this tl Cons.prems(3)] Cons.prems(4) False ws show ?thesis
      by (auto simp: Let_def case_prod_unfold simp del: run_wait.simps)
  qed
qed simp


lemma signal_change_waiter:
  assumes "waiters env w = Some wt" and only: "\<And>m'. m' \<noteq> m \<Longrightarrow> SignalCb w m' \<notin> set (signal_callbacks b)"
    and chg: "signal_change run_wait c r b env = (b', env')"
  shows "\<exists>ws. wakes env' = wakes env @ ws \<and>
    (if SignalCb w m \<in> set (signal_callbacks b) \<and> kobj_signal b' \<noteq> kobj_signal b \<and>
        intersects (kobj_signal b') m
     then waiters env' w = Some \<lparr>registered = False, waker = None\<rparr> \<and>
          SignalCb w m \<notin> set (signal_callbacks b') \<and> set_option (waker wt) \<subseteq> set ws
     else waiters env' w = Some wt \<and>
          (SignalCb w m \<in> set (signal_callbacks b') \<longleftrightarrow> SignalCb w m \<in> set (signal_callbacks b)))"
proof (cases "kobj_signal b' = kobj_signal b")
  case True
  have "flag_insert (flag_remove (kobj_signal b) c) r = kobj_signal b'"
    using signal_change_signal [of run_wait c r b env] by (simp add: chg)
  from this True have "flag_insert (flag_remove (kobj_signal b) c) r = kobj_signal b"
    by (rule trans)
  with chg have "b' = b" "env' = env"
    by (simp_all add: signal_change_def)
  with assms(1) show ?thesis
    by simp
next
  case False
  define n where "n = kobj_signal b'"
  define fs where "fs = rev (signal_callbacks b)"
  let ?r = "retain_callbacks run_wait n fs env"
  have n: "n = flag_insert (flag_remove (kobj_signal b) c) r"
    using signal_change_signal [of run_wait c r b env] by (simp add: chg n_def)
  have eff: "env' = snd ?r" "set (signal_callbacks b') = set (fst ?r)"
    using chg False unfolding n_def [symmetric] fs_def
    by (auto simp: signal_change_def Let_def case_prod_unfold n)
  have only': "\<And>m'. m' \<noteq> m \<Longrightarrow> SignalCb w m' \<notin> set fs"
    using only by (simp add: fs_def)
  consider (fire) "SignalCb w m \<in> set fs" "intersects n m" | (sleep) "\<not> intersects n m"
    | (absent) "SignalCb w m \<notin> set fs"
    by blast
  then show ?thesis
  proof cases
    case fire
    with retain_fires [OF assms(1) only' fire(2,1)] False show ?thesis
      by (auto simp: eff n_def fs_def)
  next
    case sleep
    with retain_sleeping [OF assms(1) only' sleep] retain_log [of n fs env] show ?thesis
      by (auto simp: eff n_def fs_def)
  next
    case absent
    then have "SignalCb w m' \<notin> set fs" for m' using only' by metis
    from retain_absent [OF this, of n env] retain_log [of n fs env]
      retain_callbacks_subset [of run_wait n fs env] absent assms(1)
    show ?thesis by (auto simp: eff n_def fs_def)
  qed
qed

section \<open>No lost wake-up\<close>

definition woken_since :: "nat \<Rightarrow> nat \<Rightarrow> wait_env \<Rightarrow> bool" where
  "woken_since k t env \<longleftrightarrow> t \<in> set (drop k (wakes env))"

fun pc_inv :: "poll_pc \<Rightarrow> signal_waiter \<Rightarrow> nat \<Rightarrow> wait_env \<Rightarrow> bool" where
  "pc_inv (PSwap t) wt k env = (waker wt = Some t \<or> woken_since k t env)"
| "pc_inv (PAdd t) wt k env = (registered wt \<and> (waker wt = Some t \<or> woken_since k t env))"
| "pc_inv (PPending t) wt k env = (registered wt \<and> waker wt = Some t \<or> woken_since k t env)"
| "pc_inv _ wt k env = True"

text \<open>
  The waiter is alive; its callback is on the object exactly while \<open>registered\<close> is set (or the poll
  is between the swap and the call), the callback on the object is not satisfied by the current
  signal, and a task that is pending either has its waker stored or was woken since its poll began.
\<close>

definition wait_inv :: "nat \<Rightarrow> signal \<Rightarrow> wait_state \<Rightarrow> bool" where
  "wait_inv w m st \<longleftrightarrow>
     (\<exists>wt. waiters (wenv st) w = Some wt \<and>
       wmark st \<le> length (wakes (wenv st)) \<and>
       (\<forall>m'. m' \<noteq> m \<longrightarrow> SignalCb w m' \<notin> set (signal_callbacks (wobj st))) \<and>
       (SignalCb w m \<in> set (signal_callbacks (wobj st)) \<longrightarrow>
          registered wt \<and> \<not> intersects (kobj_signal (wobj st)) m \<and> (\<forall>t. wpc st \<noteq> PAdd t)) \<and>
       (registered wt \<longrightarrow> (\<exists>t. wpc st = PAdd t) \<or> SignalCb w m \<in> set (signal_callbacks (wobj st))) \<and>
       pc_inv (wpc st) wt (wmark st) (wenv st))"

lemma woken_since_append:
  "wakes env' = wakes env @ ws \<Longrightarrow> k \<le> length (wakes env) \<Longrightarrow>
     woken_since k t env' \<longleftrightarrow> woken_since k t env \<or> t \<in> set ws"
  by (simp add: woken_since_def)

lemma wait_inv_begin: "wait_inv w m st \<Longrightarrow> \<forall>t. wpc st \<noteq> PAdd t \<Longrightarrow> wait_inv w m (poll_begin m t st)"
  by (auto simp: wait_inv_def poll_begin_def Let_def)

lemma wait_inv_store:
  "wait_inv w m st \<Longrightarrow> wpc st = PStoreWaker t \<Longrightarrow> wait_inv w m (poll_store_waker w t st)"
  by (auto simp: wait_inv_def poll_store_waker_def)

lemma wait_inv_swap: "wait_inv w m st \<Longrightarrow> wpc st = PSwap t \<Longrightarrow> wait_inv w m (poll_swap w t st)"
  by (auto simp: wait_inv_def poll_swap_def woken_since_def)

lemma wait_inv_add:
  assumes "wait_inv w m st" and "wpc st = PAdd t"
  shows "wait_inv w m (poll_add w m t st)"
  using assms
  by (auto simp: wait_inv_def poll_add_def add_signal_callback_def Let_def woken_since_def
      split: option.splits)

lemma wait_inv_change:
  assumes "wait_inv w m st"
  shows "wait_inv w m (env_change c r st)"
proof -
  obtain b' env' where chg: "signal_change run_wait c r (wobj st) (wenv st) = (b', env')"
    by fastforce
  obtain wt where wt: "waiters (wenv st) w = Some wt"
    and only: "\<And>m'. m' \<noteq> m \<Longrightarrow> SignalCb w m' \<notin> set (signal_callbacks (wobj st))"
    using assms by (auto simp: wait_inv_def)
  have only': "\<And>m'. m' \<noteq> m \<Longrightarrow> SignalCb w m' \<notin> set (signal_callbacks b')"
    using only signal_change_callbacks_subset [of run_wait c r "wobj st" "wenv st"] chg by auto
  from signal_change_waiter [OF wt only chg] obtain ws
    where ws: "wakes env' = wakes (wenv st) @ ws" and eff:
      "if SignalCb w m \<in> set (signal_callbacks (wobj st)) \<and> kobj_signal b' \<noteq> kobj_signal (wobj st) \<and>
          intersects (kobj_signal b') m
       then waiters env' w = Some \<lparr>registered = False, waker = None\<rparr> \<and>
            SignalCb w m \<notin> set (signal_callbacks b') \<and> set_option (waker wt) \<subseteq> set ws
       else waiters env' w = Some wt \<and>
            (SignalCb w m \<in> set (signal_callbacks b') \<longleftrightarrow>
             SignalCb w m \<in> set (signal_callbacks (wobj st)))"
    by blast
  note log = woken_since_append [OF ws, of "wmark st"]
  have inv: "wmark st \<le> length (wakes (wenv st))" "pc_inv (wpc st) wt (wmark st) (wenv st)"
    "SignalCb w m \<in> set (signal_callbacks (wobj st)) \<Longrightarrow>
       registered wt \<and> \<not> intersects (kobj_signal (wobj st)) m \<and> (\<forall>t. wpc st \<noteq> PAdd t)"
    "registered wt \<Longrightarrow> (\<exists>t. wpc st = PAdd t) \<or> SignalCb w m \<in> set (signal_callbacks (wobj st))"
    using assms wt by (auto simp: wait_inv_def)
  show ?thesis
  proof (cases "SignalCb w m \<in> set (signal_callbacks (wobj st)) \<and>
      kobj_signal b' \<noteq> kobj_signal (wobj st) \<and> intersects (kobj_signal b') m")
    case True
    with eff have fired: "waiters env' w = Some \<lparr>registered = False, waker = None\<rparr>"
      "SignalCb w m \<notin> set (signal_callbacks b')" "set_option (waker wt) \<subseteq> set ws"
      by simp_all
    have "pc_inv (wpc st) \<lparr>registered = False, waker = None\<rparr> (wmark st) env'"
      using inv(2) inv(3) True fired(3) log [OF inv(1)] by (cases "wpc st") auto
    with fired only' inv(1) ws show ?thesis
      by (simp add: wait_inv_def env_change_def chg)
  next
    case False
    with eff have same: "waiters env' w = Some wt"
      "SignalCb w m \<in> set (signal_callbacks b') \<longleftrightarrow> SignalCb w m \<in> set (signal_callbacks (wobj st))"
      by (simp_all only: if_False)
    have "pc_inv (wpc st) wt (wmark st) env'"
      using inv(2) log [OF inv(1)] by (cases "wpc st") auto
    moreover have "SignalCb w m \<in> set (signal_callbacks (wobj st)) \<Longrightarrow> \<not> intersects (kobj_signal b') m"
      using False inv(3) by metis
    ultimately show ?thesis
      using same only' inv ws by (auto simp: wait_inv_def env_change_def chg)
  qed
qed

definition wait_init :: "nat \<Rightarrow> wait_state \<Rightarrow> bool" where
  "wait_init w st \<longleftrightarrow>
     (\<exists>b env. st = wait_signal_future w b env \<and> (\<forall>m. SignalCb w m \<notin> set (signal_callbacks b)))"

inductive_cases wait_stepE: "wait_step w m st st'"

lemma wait_inv_step: "wait_inv w m st \<Longrightarrow> wait_step w m st st' \<Longrightarrow> wait_inv w m st'"
  by (erule wait_stepE)
    (auto intro: wait_inv_begin wait_inv_store wait_inv_swap wait_inv_add wait_inv_change)

interpretation wait: step_invariant "wait_init w" "wait_step w m" "wait_inv w m" for w m
proof unfold_locales
  show "wait_inv w m s" if "wait_init w s" for s
    using that by (auto simp: wait_init_def wait_signal_future_def wait_inv_def)
qed (rule wait_inv_step)


definition demo_object :: "wait_handler kobject_base" where
  "demo_object = \<lparr>kobj_id = 1024, kobj_name = [], kobj_signal = 0, signal_callbacks = []\<rparr>"

definition demo_env :: wait_env where
  "demo_env = \<lparr>waiters = (\<lambda>_. None), wakes = []\<rparr>"

definition demo_future :: wait_state where
  "demo_future = wait_signal_future 0 demo_object demo_env"

definition demo_pending :: wait_state where
  "demo_pending = poll_add 0 1 7 (poll_swap 0 7 (poll_store_waker 0 7 (poll_begin 1 7 demo_future)))"

lemmas demo_simps = demo_pending_def demo_future_def demo_object_def demo_env_def
  wait_signal_future_def poll_begin_def poll_store_waker_def poll_swap_def poll_add_def
  add_signal_callback_def intersects_def env_change_def signal_change_def flag_insert_def flag_remove_def

lemma demo_pending_reachable: "(wait_step 0 1)\<^sup>*\<^sup>* demo_future demo_pending"
proof -
  let ?s1 = "poll_begin 1 7 demo_future"
  let ?s2 = "poll_store_waker 0 7 ?s1"
  let ?s3 = "poll_swap 0 7 ?s2"
  have "wait_step 0 1 demo_future ?s1" by (rule first_poll) (simp add: demo_simps)
  moreover have "wait_step 0 1 ?s1 ?s2" by (rule store_waker) (simp add: demo_simps)
  moreover have "wait_step 0 1 ?s2 ?s3" by (rule swap_registered) (simp add: demo_simps)
  moreover have "wait_step 0 1 ?s3 demo_pending"
    unfolding demo_pending_def by (rule add_callback) (simp add: demo_simps)
  ultimately show ?thesis by (meson converse_rtranclp_into_rtranclp rtranclp.rtrancl_refl)
qed


section \<open>wait\_signal\_many does not rearm\<close>

text \<open>
  The scenario of a competing consumer: poll, the signal is raised, consumed before the next poll,
  poll again, raised again. The results are the two polls and the wake logs after either raise, and
  the object at the end.
\<close>

definition many_rearm_run ::
  "nat \<Rightarrow> signal \<Rightarrow> wait_handler kobject_base \<Rightarrow> wait_env
     \<Rightarrow> signal list option \<times> nat list \<times> signal list option \<times> nat list \<times> wait_handler kobject_base" where
  "many_rearm_run t m b env =
     (let (r1, f1, o1, e1) = many_poll t [(0, m)] True [b] env;
          (b2, e2) = signal_set run_wait m (o1 ! 0) e1;
          (b3, e3) = signal_clear run_wait m b2 e2;
          (r4, f4, o4, e4) = many_poll t [(0, m)] f1 [b3] e3;
          (b5, e5) = signal_set run_wait m (o4 ! 0) e4
      in (r1, wakes e2, r4, wakes e5, b5))"

text \<open>
  C30. \<^verbatim>\<open>wait_signal_many\<close> loses a wake-up that \<^verbatim>\<open>wait_signal\<close> does not. After its first poll the future is
  woken once; if the signal is consumed before the next poll, that poll is pending again but
  registers nothing, and the next time the awaited signal is raised nobody is woken.
\<close>

theorem wait_signal_many_loses_wakeup:
  assumes "\<not> intersects (kobj_signal b) m" and "m \<noteq> 0" and "signal_callbacks b = []"
  shows "\<exists>b'. many_rearm_run t m b env = (None, wakes env @ [t], None, wakes env @ [t], b') \<and>
    intersects (kobj_signal b') m"
proof -
  have m: "intersects (flag_insert s m) m" "\<not> intersects (flag_remove s m) m"
    "flag_insert (kobj_signal b) m \<noteq> kobj_signal b" for s
    using assms(1,2) by (auto simp: intersects_def flag_insert_def flag_remove_def bit_eq_iff
        bit_and_iff bit_or_iff bit_not_iff)
  let ?b1 = "b\<lparr>signal_callbacks := [ManyCb t m]\<rparr>"
  let ?b2 = "b\<lparr>kobj_signal := flag_insert (kobj_signal b) m, signal_callbacks := []\<rparr>"
  let ?e2 = "env\<lparr>wakes := wakes env @ [t]\<rparr>"
  obtain b3 where b3: "signal_clear run_wait m ?b2 ?e2 = (b3, ?e2)" "signal_callbacks b3 = []"
    "kobj_signal b3 = flag_remove (flag_insert (kobj_signal b) m) m"
    by (simp add: signal_clear_def signal_change_unobserved)
  obtain b5 where b5: "signal_set run_wait m b3 ?e2 = (b5, ?e2)"
    "kobj_signal b5 = flag_insert (kobj_signal b3) m"
    using b3(2) by (simp add: signal_set_def signal_change_unobserved)
  have "many_poll t [(0, m)] True [b] env = (None, False, [?b1], env)"
    using assms(1,3) by (simp add: many_poll_def many_happened_def add_signal_callback_def)
  moreover have "signal_set run_wait m ?b1 env = (?b2, ?e2)"
    using m by (simp add: signal_set_def signal_change_def Let_def)
  moreover have "many_poll t [(0, m)] False [b3] ?e2 = (None, False, [b3], ?e2)"
    using b3 m by (simp add: many_poll_def many_happened_def)
  ultimately show ?thesis
    using b3 b5 m by (simp add: many_rearm_run_def)
qed

theorem wait_signal_many_loses_wakeup_witness:
  "\<exists>b'. many_rearm_run 7 1 demo_object demo_env = (None, [7], None, [7], b') \<and>
    intersects (kobj_signal b') 1"
  using wait_signal_many_loses_wakeup [of demo_object 1 7 demo_env]
  by (simp add: demo_object_def demo_env_def intersects_def)

end
