(* ===== verification/Bytes.thy ===== *)
theory Bytes
  imports Prelude
begin

text \<open>
  Little-endian byte encodings (Rust's \<^verbatim>\<open>to_ne_bytes\<close>/\<^verbatim>\<open>from_ne_bytes\<close> on the repository's targets, and
  the layout of \<^verbatim>\<open>repr(C)\<close> integers), and runs of operations on a transport: what goes in comes out,
  once and in order.
\<close>

section \<open>Little-endian words\<close>

definition le_bytes :: "nat \<Rightarrow> 'a::len word \<Rightarrow> u8 list" where
  "le_bytes n w = map (\<lambda>i. ucast (drop_bit (8 * i) w)) [0..<n]"

fun le_word :: "u8 list \<Rightarrow> 'a::len word" where
  "le_word [] = 0"
| "le_word (b # bs) = ucast b OR push_bit 8 (le_word bs)"

lemma length_le_bytes [simp]: "length (le_bytes n w) = n"
  by (simp add: le_bytes_def)

lemma bit_le_word:
  "bit (le_word bs :: 'a::len word) i \<longleftrightarrow>
     i < LENGTH('a) \<and> i div 8 < length bs \<and> bit (bs ! (i div 8)) (i mod 8)"
proof (induction bs arbitrary: i)
  case (Cons b bs)
  show ?case
  proof (cases "i < 8")
    case True
    then show ?thesis
      by (auto simp: bit_or_iff bit_push_bit_iff bit_ucast_iff dest: bit_imp_le_length)
  next
    case False
    then have "\<not> bit b i" using bit_imp_le_length [of b i] by auto
    moreover have "i div 8 = Suc ((i - 8) div 8)" "i mod 8 = (i - 8) mod 8"
      using False by (simp_all add: le_div_geq le_mod_geq)
    ultimately show ?thesis
      using False Cons.IH [of "i - 8"]
      by (auto simp: bit_or_iff bit_push_bit_iff bit_ucast_iff dest: bit_imp_le_length)
  qed
qed simp

lemma le_word_le_bytes:
  fixes w :: "'a::len word"
  assumes "LENGTH('a) \<le> 8 * n"
  shows "le_word (le_bytes n w) = w"
proof (rule bit_word_eqI)
  fix i assume "i < LENGTH('a)"
  moreover from this have "i div 8 < n" using assms by (simp add: less_mult_imp_div_less mult.commute)
  moreover have "8 * (i div 8) + i mod 8 = i" by simp
  ultimately show "bit (le_word (le_bytes n w) :: 'a word) i = bit w i"
    by (simp add: bit_le_word le_bytes_def bit_ucast_iff bit_drop_bit_eq)
qed

lemma le_bytes_le_word:
  assumes "8 * length bs \<le> LENGTH('a::len)"
  shows "le_bytes (length bs) (le_word bs :: 'a word) = bs"
proof (rule nth_equalityI)
  fix i assume "i < length (le_bytes (length bs) (le_word bs :: 'a word))"
  then have i: "i < length bs" by simp
  have "ucast (drop_bit (8 * i) (le_word bs :: 'a word)) = bs ! i"
  proof (rule bit_word_eqI)
    fix k assume "k < LENGTH(8)"
    then have k: "k < 8" by simp
    have "8 * i + k < 8 * length bs" using i k by simp
    then show "bit (ucast (drop_bit (8 * i) (le_word bs :: 'a word)) :: u8) k = bit (bs ! i) k"
      using assms i k by (simp add: bit_ucast_iff bit_drop_bit_eq bit_le_word)
  qed
  with i show "le_bytes (length bs) (le_word bs :: 'a word) ! i = bs ! i"
    by (simp add: le_bytes_def)
qed simp

section \<open>Transports\<close>

text \<open>
  A run executes operations from left to right; \<open>collect\<close> gathers what each operation yields in the
  state it meets.
\<close>

primrec run_ops :: "('op \<Rightarrow> 's \<Rightarrow> 's) \<Rightarrow> 'op list \<Rightarrow> 's \<Rightarrow> 's" where
  "run_ops exec [] s = s"
| "run_ops exec (x # xs) s = run_ops exec xs (exec x s)"

primrec collect :: "('op \<Rightarrow> 's \<Rightarrow> 's) \<Rightarrow> ('op \<Rightarrow> 's \<Rightarrow> 'm list) \<Rightarrow> 'op list \<Rightarrow> 's \<Rightarrow> 'm list" where
  "collect exec out [] s = []"
| "collect exec out (x # xs) s = out x s @ collect exec out xs (exec x s)"

lemma run_ops_append [simp]: "run_ops exec (xs @ ys) s = run_ops exec ys (run_ops exec xs s)"
  by (induction xs arbitrary: s) simp_all

text \<open>
  The contract of an ordered, lossless transport: under the transport's invariant, every legal
  operation delivers a prefix of what is queued and appends what it accepts.
\<close>

locale transport =
  fixes exec :: "'op \<Rightarrow> 's \<Rightarrow> 's"
    and legal :: "'op \<Rightarrow> bool"
    and inv :: "'s \<Rightarrow> bool"
    and queued :: "'s \<Rightarrow> 'm list"
    and accepted :: "'op \<Rightarrow> 's \<Rightarrow> 'm list"
    and delivered :: "'op \<Rightarrow> 's \<Rightarrow> 'm list"
  assumes inv_exec: "inv s \<Longrightarrow> legal x \<Longrightarrow> inv (exec x s)"
    and conserve: "inv s \<Longrightarrow> legal x \<Longrightarrow> delivered x s @ queued (exec x s) = queued s @ accepted x s"
begin

lemma inv_run: "inv s \<Longrightarrow> list_all legal xs \<Longrightarrow> inv (run_ops exec xs s)"
  by (induction xs arbitrary: s) (auto intro: inv_exec)

lemma run_conserves:
  "inv s \<Longrightarrow> list_all legal xs \<Longrightarrow>
     collect exec delivered xs s @ queued (run_ops exec xs s) = queued s @ collect exec accepted xs s"
proof (induction xs arbitrary: s)
  case (Cons x xs)
  have "collect exec delivered (x # xs) s @ queued (run_ops exec (x # xs) s) =
    delivered x s @ queued (exec x s) @ collect exec accepted xs (exec x s)"
    using Cons.IH [of "exec x s"] inv_exec [of s x] Cons.prems by simp
  also have "\<dots> = queued s @ collect exec accepted (x # xs) s"
    using conserve [of s x] Cons.prems by simp
  finally show ?case .
qed simp

end

end
