(* ===== verification/Channel.thy ===== *)
theory Channel
  imports KObject Bytes
begin

text \<open>
  Channels, \<^verbatim>\<open>zircon-object/src/ipc/channel.rs\<close>: a pair of endpoints, each with a queue of messages, a
  table of pending calls by transaction id, and a counter of transaction ids.

  A method takes its endpoint and, where it looks at it, the peer (\<open>None\<close> when the \<^verbatim>\<open>Weak\<close> no longer
  upgrades), and returns the changed endpoints and the replies sent to awaiting callers. The system
  \<open>chan_sys\<close> holds both ends and the log of replies; \<open>chan_exec\<close> runs one call on it. Handles carried
  by a message are of a type \<open>'hd\<close> that the channel never inspects.
\<close>

section \<open>Messages\<close>

record 'hd message_packet =
  msg_data :: "u8 list"
  msg_handles :: "'hd list"

type_synonym txid = u32

definition set_txid :: "txid \<Rightarrow> 'hd message_packet \<Rightarrow> 'hd message_packet" where
  "set_txid t msg =
     (if length (msg_data msg) \<ge> 4 then msg\<lparr>msg_data := le_bytes 4 t @ drop 4 (msg_data msg)\<rparr> else msg)"

definition get_txid :: "'hd message_packet \<Rightarrow> txid" where
  "get_txid msg = (if length (msg_data msg) \<ge> 4 then le_word (take 4 (msg_data msg)) else 0)"

section \<open>Endpoints\<close>

text \<open>
  \<open>call_reply\<close> maps a transaction id to the oneshot sender of the call that awaits it; a sender is
  named by the number of its receiver.
\<close>

record 'hd channel =
  ch_base :: kobj
  recv_queue :: "'hd message_packet list"
  call_reply :: "(txid \<times> nat) list"
  next_txid :: txid

type_synonym 'hd reply = "nat \<times> 'hd message_packet zx_result"

definition channel_create :: "u64 \<Rightarrow> 'hd channel \<times> 'hd channel \<times> u64" where
  "channel_create koid =
     (let (b0, koid1) = kobject_with_signal SIG_WRITABLE koid;
          (b1, koid2) = kobject_with_signal SIG_WRITABLE koid1;
          mk = (\<lambda>b. \<lparr>ch_base = b, recv_queue = [], call_reply = [], next_txid = 0x80000000\<rparr>)
      in (mk b0, mk b1, koid2))"

definition check_and_read ::
  "('hd message_packet \<Rightarrow> unit zx_result) \<Rightarrow> bool \<Rightarrow> 'hd channel
     \<Rightarrow> 'hd message_packet zx_result \<times> 'hd channel" where
  "check_and_read checker peer_closed c =
     (case recv_queue c of
        msg # rest \<Rightarrow>
          (case checker msg of
             Err e \<Rightarrow> (Err e, c)
           | Panic \<Rightarrow> (Panic, c)
           | Ok _ \<Rightarrow>
               (Ok msg, c\<lparr>recv_queue := rest,
                          ch_base := if rest = [] then kclear SIG_READABLE (ch_base c) else ch_base c\<rparr>))
      | [] \<Rightarrow> (if peer_closed then Err PEER_CLOSED else Err SHOULD_WAIT, c))"

definition channel_read :: "bool \<Rightarrow> 'hd channel \<Rightarrow> 'hd message_packet zx_result \<times> 'hd channel" where
  "channel_read = check_and_read (\<lambda>_. Ok ())"

definition push_general :: "'hd message_packet \<Rightarrow> 'hd channel \<Rightarrow> 'hd channel" where
  "push_general msg c =
     (let q = recv_queue c @ [msg]
      in c\<lparr>recv_queue := q,
           ch_base := if length q = 1 then kset SIG_READABLE (ch_base c) else ch_base c\<rparr>)"

definition channel_write ::
  "'hd message_packet \<Rightarrow> 'hd channel option \<Rightarrow> unit zx_result \<times> 'hd channel option \<times> 'hd reply list" where
  "channel_write msg peer =
     (case peer of
        None \<Rightarrow> (Err PEER_CLOSED, None, [])
      | Some p \<Rightarrow>
          (let t = get_txid msg
           in case (if t \<noteq> 0 then map_of (call_reply p) t else None) of
                Some k \<Rightarrow> (Ok (), Some (p\<lparr>call_reply := filter (\<lambda>(t', _). t' \<noteq> t) (call_reply p)\<rparr>), [(k, Ok msg)])
              | None \<Rightarrow> (Ok (), Some (push_general msg p), [])))"

definition new_txid :: "'hd channel \<Rightarrow> txid \<times> 'hd channel" where
  "new_txid c = (next_txid c, c\<lparr>next_txid := next_txid c + 1\<rparr>)"

text \<open>
  \<^verbatim>\<open>call\<close> up to its await, with \<open>k\<close> the receiver it will await: \<open>Ok k\<close> means the caller now waits.
  Inserting under a transaction id that is still pending drops the older sender.
\<close>

definition channel_call ::
  "'hd message_packet \<Rightarrow> nat \<Rightarrow> 'hd channel \<Rightarrow> 'hd channel option
     \<Rightarrow> nat zx_result \<times> 'hd channel \<times> 'hd channel option" where
  "channel_call msg k c peer =
     (if length (msg_data msg) < 4 then (Panic, c, peer)
      else case peer of
        None \<Rightarrow> (Err PEER_CLOSED, c, None)
      | Some p \<Rightarrow>
          (let (t, c1) = new_txid c;
               c2 = c1\<lparr>call_reply := (t, k) # filter (\<lambda>(t', _). t' \<noteq> t) (call_reply c1)\<rparr>
           in (Ok k, c2, Some (push_general (set_txid t msg) p))))"

text \<open>Dropping an endpoint: what it does to its peer, and the replies it sends.\<close>

definition channel_drop :: "'hd channel option \<Rightarrow> 'hd channel option \<times> 'hd reply list" where
  "channel_drop peer =
     (case peer of
        None \<Rightarrow> (None, [])
      | Some p \<Rightarrow>
          (Some (p\<lparr>ch_base := kchange SIG_WRITABLE SIG_PEER_CLOSED (ch_base p), call_reply := []\<rparr>),
           map (\<lambda>(_, k). (k, Err PEER_CLOSED)) (call_reply p)))"

section \<open>The pair as a system\<close>

text \<open>
  \<open>chan\<close> maps a side to its endpoint while it is alive; \<open>replies\<close> is the log of what was sent to
  awaiting callers; \<open>calls\<close> lists the calls made so far by the side that made them, a call's position
  being the number of its receiver.
\<close>

record 'hd chan_sys =
  chan :: "bool \<Rightarrow> 'hd channel option"
  replies :: "'hd reply list"
  calls :: "bool list"

datatype 'hd chan_op =
    ChWrite bool "'hd message_packet"
  | ChRead bool "'hd message_packet \<Rightarrow> unit zx_result"
  | ChCall bool "'hd message_packet"
  | ChDrop bool
  | ChSignal bool signal signal

definition chan_init :: "u64 \<Rightarrow> 'hd chan_sys" where
  "chan_init koid =
     (let (c0, c1, _) = channel_create koid
      in \<lparr>chan = (\<lambda>s. Some (if s then c1 else c0)), replies = [], calls = []\<rparr>)"

text \<open>
  An operation names a live endpoint (a dropped one has no methods to call). \<open>ChSignal\<close> is what user
  code may do to the signals: \<^verbatim>\<open>zx_object_signal\<close> and \<^verbatim>\<open>zx_object_signal_peer\<close> check both masks against
  the object's allowed signals, \<open>SIG_USER_ALL\<close> for a channel.
\<close>

definition chan_exec :: "'hd chan_op \<Rightarrow> 'hd chan_sys \<Rightarrow> 'hd chan_sys" where
  "chan_exec x st =
     (case x of
        ChWrite s msg \<Rightarrow>
          (case chan st s of
             None \<Rightarrow> st
           | Some c \<Rightarrow>
               (let (_, p, rs) = channel_write msg (chan st (\<not> s))
                in st\<lparr>chan := (chan st)(\<not> s := p), replies := replies st @ rs\<rparr>))
      | ChRead s checker \<Rightarrow>
          (case chan st s of
             None \<Rightarrow> st
           | Some c \<Rightarrow>
               st\<lparr>chan := (chan st)(s \<mapsto> snd (check_and_read checker (chan st (\<not> s) = None) c))\<rparr>)
      | ChCall s msg \<Rightarrow>
          (case chan st s of
             None \<Rightarrow> st
           | Some c \<Rightarrow>
               (case channel_call msg (length (calls st)) c (chan st (\<not> s)) of
                  (Ok k, c', p') \<Rightarrow> st\<lparr>chan := (chan st)(s \<mapsto> c', \<not> s := p'), calls := calls st @ [s]\<rparr>
                | _ \<Rightarrow> st))
      | ChDrop s \<Rightarrow>
          (case chan st s of
             None \<Rightarrow> st
           | Some c \<Rightarrow>
               (let (p, rs) = channel_drop (chan st (\<not> s))
                in st\<lparr>chan := (chan st)(s := None, \<not> s := p), replies := replies st @ rs\<rparr>))
      | ChSignal s clear raise \<Rightarrow>
          (case (chan st s, verify_user_signal SIG_USER_ALL clear, verify_user_signal SIG_USER_ALL raise) of
             (Some c, Ok cl, Ok ra) \<Rightarrow> st\<lparr>chan := (chan st)(s \<mapsto> c\<lparr>ch_base := kchange cl ra (ch_base c)\<rparr>)\<rparr>
           | _ \<Rightarrow> st))"

text \<open>What an operation puts into, or takes out of, the queue that side \<open>s\<close> reads.\<close>

definition chan_queued :: "bool \<Rightarrow> 'hd chan_sys \<Rightarrow> 'hd message_packet list" where
  "chan_queued s st = (case chan st s of None \<Rightarrow> [] | Some c \<Rightarrow> recv_queue c)"

definition chan_accepted :: "bool \<Rightarrow> 'hd chan_op \<Rightarrow> 'hd chan_sys \<Rightarrow> 'hd message_packet list" where
  "chan_accepted s x st =
     (case (chan st s, chan st (\<not> s)) of
        (Some c, Some p) \<Rightarrow>
          (case x of
             ChWrite s' msg \<Rightarrow>
               if s' = (\<not> s) \<and> (get_txid msg = 0 \<or> map_of (call_reply c) (get_txid msg) = None) then [msg] else []
           | ChCall s' msg \<Rightarrow>
               if s' = (\<not> s) \<and> 4 \<le> length (msg_data msg) then [set_txid (next_txid p) msg] else []
           | _ \<Rightarrow> [])
      | _ \<Rightarrow> [])"

definition chan_delivered :: "bool \<Rightarrow> 'hd chan_op \<Rightarrow> 'hd chan_sys \<Rightarrow> 'hd message_packet list" where
  "chan_delivered s x st =
     (case (x, chan st s) of
        (ChRead s' checker, Some c) \<Rightarrow>
          if s' = s then
            (case fst (check_and_read checker (chan st (\<not> s) = None) c) of Ok msg \<Rightarrow> [msg] | _ \<Rightarrow> [])
          else []
      | _ \<Rightarrow> [])"

section \<open>Signals agree with the state\<close>

definition chan_end_inv :: "bool \<Rightarrow> 'hd channel \<Rightarrow> bool" where
  "chan_end_inv peer_alive c \<longleftrightarrow>
     (contains (kobj_signal (ch_base c)) SIG_READABLE \<longleftrightarrow> recv_queue c \<noteq> []) \<and>
     (contains (kobj_signal (ch_base c)) SIG_PEER_CLOSED \<longleftrightarrow> \<not> peer_alive) \<and>
     (contains (kobj_signal (ch_base c)) SIG_WRITABLE \<longleftrightarrow> peer_alive)"

definition chan_inv :: "'hd chan_sys \<Rightarrow> bool" where
  "chan_inv st \<longleftrightarrow> (\<forall>s c. chan st s = Some c \<longrightarrow> chan_end_inv (chan st (\<not> s) \<noteq> None) c)"

lemma chan_init_simps [simp]:
  "chan (chan_init koid) s =
     Some \<lparr>ch_base = \<lparr>kobj_id = koid + (if s then 1 else 0), kobj_name = [], kobj_signal = SIG_WRITABLE,
             signal_callbacks = []\<rparr>,
           recv_queue = [], call_reply = [], next_txid = 0x80000000\<rparr>"
  "replies (chan_init koid) = []" "calls (chan_init koid) = []"
  by (simp_all add: chan_init_def channel_create_def kobject_with_signal_def kobject_with_def new_koid_def)

lemma chan_inv_init: "chan_inv (chan_init koid)"
  by (simp add: chan_inv_def chan_end_inv_def flag_simps)

lemma push_general_inv [kernel_inv]: "chan_end_inv a c \<Longrightarrow> chan_end_inv a (push_general msg c)"
  by (auto simp: push_general_def chan_end_inv_def Let_def flag_simps)

lemma push_general_simps [simp]:
  "recv_queue (push_general msg c) = recv_queue c @ [msg]"
  "call_reply (push_general msg c) = call_reply c"
  "next_txid (push_general msg c) = next_txid c"
  by (simp_all add: push_general_def Let_def)

lemma check_and_read_inv [kernel_inv]:
  "chan_end_inv a c \<Longrightarrow> chan_end_inv a (snd (check_and_read checker pc c))"
  by (auto simp: check_and_read_def chan_end_inv_def flag_simps split: list.splits result.splits)

lemma channel_drop_inv [kernel_inv]:
  "chan_end_inv a c \<Longrightarrow> channel_drop (Some c) = (Some c', rs) \<Longrightarrow> chan_end_inv False c'"
  by (auto simp: channel_drop_def chan_end_inv_def flag_simps)

lemma chan_end_inv_calls [simp]:
  "chan_end_inv a (c\<lparr>call_reply := r\<rparr>) = chan_end_inv a c"
  "chan_end_inv a (c\<lparr>next_txid := n\<rparr>) = chan_end_inv a c"
  by (simp_all add: chan_end_inv_def)

lemma user_signal_inv [kernel_inv]:
  assumes "chan_end_inv a c" and "contains SIG_USER_ALL cl" and "contains SIG_USER_ALL ra"
  shows "chan_end_inv a (c\<lparr>ch_base := kchange cl ra (ch_base c)\<rparr>)"
  using assms user_signals_low [of cl] user_signals_low [of ra]
  by (simp add: chan_end_inv_def flag_simps)

lemma channel_write_None [simp]: "channel_write msg None = (Err PEER_CLOSED, None, [])"
  by (simp add: channel_write_def)

lemma channel_write_Some_inv [kernel_inv]:
  "chan_end_inv a p \<Longrightarrow> channel_write msg (Some p) = (r, p', rs) \<Longrightarrow>
     \<exists>p''. p' = Some p'' \<and> chan_end_inv a p''"
  by (auto simp: channel_write_def Let_def intro: push_general_inv split: option.splits)

lemma chan_inv_exec:
  assumes "chan_inv st"
  shows "chan_inv (chan_exec x st)"
proof (cases x)
  case (ChWrite s msg)
  show ?thesis
  proof (cases "chan st (\<not> s)")
    case None
    with assms ChWrite show ?thesis
      by (auto simp: chan_inv_def all_sides [of _ s] chan_exec_def split: option.splits)
  next
    case (Some q)
    obtain r p rs where w: "channel_write msg (Some q) = (r, p, rs)" by (metis prod_cases3)
    then obtain p' where "p = Some p'" "chan_end_inv (chan st s \<noteq> None) p'"
      using assms Some channel_write_Some_inv [OF _ w] unfolding chan_inv_def by fastforce
    with assms Some w ChWrite show ?thesis
      by (auto simp: chan_inv_def all_sides [of _ s] chan_exec_def split: option.splits)
  qed
next
  case (ChRead s checker)
  with assms show ?thesis
    by (auto simp: chan_inv_def all_sides [of _ s] chan_exec_def intro: check_and_read_inv split: option.splits)
next
  case (ChCall s msg)
  with assms show ?thesis
    by (auto simp: chan_inv_def all_sides [of _ s] chan_exec_def channel_call_def new_txid_def Let_def
        intro: push_general_inv split: option.splits)
next
  case (ChDrop s)
  with assms show ?thesis
    by (auto simp: chan_inv_def all_sides [of _ s] chan_exec_def channel_drop_def chan_end_inv_def flag_simps
        split: option.splits)
next
  case (ChSignal s cl ra)
  with assms show ?thesis
    by (auto simp: chan_inv_def all_sides [of _ s] chan_exec_def verify_user_signal_Ok_iff
        intro: user_signal_inv split: option.splits result.splits)
qed

section \<open>Messages are neither lost, duplicated nor reordered\<close>

fun chan_keeps :: "bool \<Rightarrow> 'hd chan_op \<Rightarrow> bool" where
  "chan_keeps s (ChDrop s') = (s' \<noteq> s)"
| "chan_keeps s _ = True"

lemma chan_exec_conserves:
  assumes "chan_keeps s x"
  shows "chan_delivered s x st @ chan_queued s (chan_exec x st) = chan_queued s st @ chan_accepted s x st"
proof (cases x)
  case (ChWrite s' msg)
  then show ?thesis
    by (auto simp: chan_delivered_def chan_queued_def chan_accepted_def chan_exec_def
        channel_write_def Let_def split: option.splits if_splits)
next
  case (ChRead s' checker)
  then show ?thesis
    by (auto simp: chan_delivered_def chan_queued_def chan_accepted_def chan_exec_def
        check_and_read_def split: option.splits list.splits result.splits)
next
  case (ChCall s' msg)
  then show ?thesis
    by (cases "chan st s'"; cases "chan st (\<not> s')"; cases "s' = s")
      (auto simp: chan_delivered_def chan_queued_def chan_accepted_def chan_exec_def
        channel_call_def new_txid_def Let_def)
next
  case (ChDrop s')
  with assms show ?thesis
    by (auto simp: chan_delivered_def chan_queued_def chan_accepted_def chan_exec_def
        channel_drop_def split: option.splits)
next
  case (ChSignal s' cl ra)
  then show ?thesis
    by (auto simp: chan_delivered_def chan_queued_def chan_accepted_def chan_exec_def
        split: option.splits result.splits)
qed

interpretation chan_transport:
  transport chan_exec "chan_keeps s" chan_inv "chan_queued s" "chan_accepted s" "chan_delivered s" for s
  by unfold_locales (auto intro: chan_inv_exec chan_exec_conserves)

lemma chan_inv_run: "chan_inv st \<Longrightarrow> chan_inv (run_ops chan_exec xs st)"
  by (induction xs arbitrary: st) (auto intro: chan_inv_exec)

text \<open>
  C20. After any sequence of writes, reads, calls, closes and user signals on a new channel, a live
  endpoint shows \<open>READABLE\<close> exactly when its queue is not empty, \<open>PEER_CLOSED\<close> exactly when its peer
  is gone, and \<open>WRITABLE\<close> exactly when it is not.
\<close>

theorem channel_signals_agree:
  assumes "chan (run_ops chan_exec xs (chan_init koid)) s = Some c"
  shows "(contains (kobj_signal (ch_base c)) SIG_READABLE \<longleftrightarrow> recv_queue c \<noteq> []) \<and>
    (contains (kobj_signal (ch_base c)) SIG_PEER_CLOSED \<longleftrightarrow>
       chan (run_ops chan_exec xs (chan_init koid)) (\<not> s) = None) \<and>
    (contains (kobj_signal (ch_base c)) SIG_WRITABLE \<longleftrightarrow>
       chan (run_ops chan_exec xs (chan_init koid)) (\<not> s) \<noteq> None)"
  using chan_inv_run [OF chan_inv_init, of xs koid] assms
  unfolding chan_inv_def chan_end_inv_def by blast

theorem channel_signals_agree_witness:
  "contains (kobj_signal (ch_base (the (chan (run_ops chan_exec
      [ChWrite True \<lparr>msg_data = [1, 2], msg_handles = [] :: nat list\<rparr>, ChDrop True] (chan_init 1024)) False))))
     SIG_PEER_CLOSED"
proof -
  let ?xs = "[ChWrite True \<lparr>msg_data = [1, 2], msg_handles = [] :: nat list\<rparr>, ChDrop True]"
  obtain c where c: "chan (run_ops chan_exec ?xs (chan_init 1024)) False = Some c"
    by (auto simp: chan_exec_def channel_write_def get_txid_def channel_drop_def)
  moreover have "chan (run_ops chan_exec ?xs (chan_init 1024)) True = None"
    by (simp add: chan_exec_def channel_write_def get_txid_def channel_drop_def)
  ultimately show ?thesis
    using channel_signals_agree [OF c] by simp
qed

text \<open>
  C19. Lossless and in order: on a new channel, as long as side \<open>s\<close> is not closed, the messages its
  reads returned followed by those still queued are exactly the messages its peer wrote or called
  with, in order, apart from those that answered a pending call.
\<close>

theorem channel_delivers_in_order:
  assumes "list_all (chan_keeps s) xs"
  shows "collect chan_exec (chan_delivered s) xs (chan_init koid) @
      chan_queued s (run_ops chan_exec xs (chan_init koid)) =
    collect chan_exec (chan_accepted s) xs (chan_init koid)"
  using chan_transport.run_conserves [OF chan_inv_init assms, of koid]
  by (simp add: chan_queued_def)

theorem channel_delivers_in_order_witness:
  "collect chan_exec (chan_delivered False)
      [ChWrite True \<lparr>msg_data = [1], msg_handles = [] :: nat list\<rparr>,
       ChWrite True \<lparr>msg_data = [2], msg_handles = []\<rparr>, ChRead False (\<lambda>_. Ok ()), ChDrop True]
      (chan_init 1024) @ [\<lparr>msg_data = [2], msg_handles = []\<rparr>] =
   [\<lparr>msg_data = [1], msg_handles = []\<rparr>, \<lparr>msg_data = [2], msg_handles = []\<rparr>]"
  using channel_delivers_in_order [of False
      "[ChWrite True \<lparr>msg_data = [1], msg_handles = [] :: nat list\<rparr>,
        ChWrite True \<lparr>msg_data = [2], msg_handles = []\<rparr>, ChRead False (\<lambda>_. Ok ()), ChDrop True]" 1024]
  by (simp add: chan_exec_def channel_write_def get_txid_def channel_drop_def chan_delivered_def
      chan_accepted_def chan_queued_def check_and_read_def push_general_def)

section \<open>Every call is answered at most once, and by the time the peer is gone\<close>

definition call_end_inv :: "bool \<Rightarrow> bool list \<Rightarrow> nat set \<Rightarrow> bool \<Rightarrow> 'hd channel \<Rightarrow> bool" where
  "call_end_inv peer_alive cs ans s c \<longleftrightarrow>
     next_txid c = 0x80000000 + of_nat (count_list cs s) \<and>
     distinct (map fst (call_reply c)) \<and> distinct (map snd (call_reply c)) \<and>
     (\<forall>t k. (t, k) \<in> set (call_reply c) \<longrightarrow>
        k < length cs \<and> cs ! k = s \<and> k \<notin> ans \<and> (\<exists>j < count_list cs s. t = 0x80000000 + of_nat j)) \<and>
     (\<forall>k < length cs. cs ! k = s \<longrightarrow> k \<in> ans \<or> k \<in> snd ` set (call_reply c)) \<and>
     (\<not> peer_alive \<longrightarrow> call_reply c = [])"

definition calls_inv :: "'hd chan_sys \<Rightarrow> bool" where
  "calls_inv st \<longleftrightarrow>
     distinct (map fst (replies st)) \<and> fst ` set (replies st) \<subseteq> {..<length (calls st)} \<and>
     (\<forall>s c. chan st s = Some c \<longrightarrow>
        call_end_inv (chan st (\<not> s) \<noteq> None) (calls st) (fst ` set (replies st)) s c)"

lemma call_end_inv_pending:
  "call_end_inv a cs ans s c \<Longrightarrow> (t, k) \<in> set (call_reply c) \<Longrightarrow> k < length cs \<and> cs ! k = s \<and> k \<notin> ans"
  by (auto simp: call_end_inv_def)

lemma call_end_inv_cong:
  "call_reply c' = call_reply c \<Longrightarrow> next_txid c' = next_txid c \<Longrightarrow>
     call_end_inv a cs ans s c' = call_end_inv a cs ans s c"
  by (simp add: call_end_inv_def)

lemma call_end_inv_alive: "call_end_inv a cs ans s c \<Longrightarrow> call_end_inv True cs ans s c"
  by (simp add: call_end_inv_def)

lemma call_end_inv_other_answer:
  "call_end_inv a cs ans s c \<Longrightarrow> cs ! k \<noteq> s \<Longrightarrow> call_end_inv a cs (insert k ans) s c"
  by (auto simp: call_end_inv_def)

lemma call_end_inv_other_call:
  "call_end_inv a cs ans s c \<Longrightarrow> s' \<noteq> s \<Longrightarrow> call_end_inv a (cs @ [s']) ans s c"
  by (auto simp: call_end_inv_def nth_append less_Suc_eq)

lemma call_end_inv_answer:
  assumes "call_end_inv a cs ans s c" and "map_of (call_reply c) t = Some k"
  shows "call_end_inv a cs (insert k ans) s (c\<lparr>call_reply := filter (\<lambda>(t', _). t' \<noteq> t) (call_reply c)\<rparr>)"
proof -
  let ?r = "call_reply c" and ?f = "filter (\<lambda>(t', _). t' \<noteq> t) (call_reply c)"
  have d: "distinct (map fst ?r)" "distinct (map snd ?r)"
    using assms(1) by (simp_all add: call_end_inv_def)
  have tk: "(t, k) \<in> set ?r"
    using assms(2) by (rule map_of_SomeD)
  have "k' \<noteq> k" if "(t', k') \<in> set ?f" for t' k'
  proof
    assume "k' = k"
    with that tk have "(t', k) = (t, k)"
      using inj_onD [OF distinct_map [THEN iffD1, OF d(2), THEN conjunct2], of "(t', k)" "(t, k)"] by auto
    with that show False by simp
  qed
  moreover have "k' = k" if "(t, k') \<in> set ?r" for k'
    using map_of_is_SomeI [OF d(1) that] assms(2) by simp
  moreover have "distinct (map fst ?f)" "distinct (map snd ?f)"
    using d by (auto simp: distinct_map intro: inj_on_subset)
  ultimately show ?thesis
    using assms(1) by (fastforce simp: call_end_inv_def image_iff)
qed

lemma txid_fresh:
  assumes "j < n" and "n < 2 ^ 32"
  shows "0x80000000 + of_nat j \<noteq> (0x80000000 + of_nat n :: u32)"
proof
  assume "0x80000000 + of_nat j = (0x80000000 + of_nat n :: u32)"
  then have "(of_nat j :: u32) = of_nat n" by simp
  then have "unat (of_nat j :: u32) = unat (of_nat n :: u32)" by simp
  with assms show False by (simp add: unat_of_nat take_bit_nat_eq_self)
qed

lemma call_end_inv_call:
  assumes inv: "call_end_inv True cs ans s c" and "count_list cs s < 2 ^ 32" and "ans \<subseteq> {..<length cs}"
  shows "call_end_inv True (cs @ [s]) ans s
    (c\<lparr>next_txid := next_txid c + 1,
       call_reply := (next_txid c, length cs) # filter (\<lambda>(t', _). t' \<noteq> next_txid c) (call_reply c)\<rparr>)"
proof -
  have fresh: "t \<noteq> next_txid c" if tk: "(t, k) \<in> set (call_reply c)" for t k
  proof -
    obtain j where "j < count_list cs s" "t = 0x80000000 + of_nat j"
      using inv tk unfolding call_end_inv_def by blast
    moreover have "next_txid c = 0x80000000 + of_nat (count_list cs s)"
      using inv by (simp add: call_end_inv_def)
    ultimately show ?thesis
      using txid_fresh [OF _ assms(2), of j] by simp
  qed
  then have f: "filter (\<lambda>(t', _). t' \<noteq> next_txid c) (call_reply c) = call_reply c"
    by (auto simp: filter_id_conv)
  have old: "k < length cs" "cs ! k = s" "k \<notin> ans" "\<exists>j < count_list cs s. t = 0x80000000 + of_nat j"
    if "(t, k) \<in> set (call_reply c)" for t k
    using inv that by (auto simp: call_end_inv_def)
  let ?n = "count_list cs s"
  have txid: "next_txid c = 0x80000000 + of_nat ?n"
    using inv by (simp add: call_end_inv_def)
  have "next_txid c \<notin> fst ` set (call_reply c)" "length cs \<notin> snd ` set (call_reply c)"
    using fresh old(1) by force+
  then have dist: "distinct (map fst ((next_txid c, length cs) # call_reply c))"
    "distinct (map snd ((next_txid c, length cs) # call_reply c))"
    using inv by (simp_all add: call_end_inv_def)
  have entries: "k < Suc (length cs) \<and> (cs @ [s]) ! k = s \<and> k \<notin> ans \<and> (\<exists>j < Suc ?n. t = 0x80000000 + of_nat j)"
    if "(t, k) \<in> set ((next_txid c, length cs) # call_reply c)" for t k
  proof (cases "(t, k) = (next_txid c, length cs)")
    case True
    with assms(3) txid show ?thesis by auto
  next
    case False
    with that have "(t, k) \<in> set (call_reply c)" by auto
    from old [OF this] show ?thesis by (auto simp: nth_append less_Suc_eq)
  qed
  have cover: "k \<in> ans \<or> k \<in> snd ` set ((next_txid c, length cs) # call_reply c)"
    if "k < Suc (length cs)" "(cs @ [s]) ! k = s" for k
    using that inv by (cases "k = length cs") (auto simp: call_end_inv_def nth_append less_Suc_eq)
  from txid dist entries cover show ?thesis
    unfolding call_end_inv_def f by simp
qed

lemma calls_inv_init: "calls_inv (chan_init koid)"
  by (simp add: calls_inv_def call_end_inv_def)

lemma calls_inv_write:
  assumes "calls_inv st"
  shows "calls_inv (chan_exec (ChWrite s msg) st)"
proof (cases "chan st s \<noteq> None \<and> chan st (\<not> s) \<noteq> None")
  case True
  then obtain c p where cp: "chan st s = Some c" "chan st (\<not> s) = Some p" by auto
  let ?ans = "fst ` set (replies st)"
  have ends: "call_end_inv True (calls st) ?ans s c" "call_end_inv True (calls st) ?ans (\<not> s) p"
    using assms cp unfolding calls_inv_def by fastforce+
  show ?thesis
  proof (cases "get_txid msg \<noteq> 0 \<and> map_of (call_reply p) (get_txid msg) \<noteq> None")
    case True
    then obtain k where k: "map_of (call_reply p) (get_txid msg) = Some k" by auto
    have "(get_txid msg, k) \<in> set (call_reply p)" using k by (rule map_of_SomeD)
    then have "k < length (calls st)" "calls st ! k = (\<not> s)" "k \<notin> ?ans"
      using ends(2) unfolding call_end_inv_def by blast+
    with assms True k cp call_end_inv_answer [OF ends(2) k] call_end_inv_other_answer [OF ends(1), of k]
    show ?thesis
      by (auto simp: calls_inv_def all_sides [of _ s] chan_exec_def channel_write_def Let_def)
  next
    case False
    then have "(if get_txid msg \<noteq> 0 then map_of (call_reply p) (get_txid msg) else None) = None"
      by auto
    with assms cp ends show ?thesis
      by (simp add: calls_inv_def all_sides [of _ s] chan_exec_def channel_write_def Let_def
          call_end_inv_cong [of "push_general msg p" p])
  qed
next
  case False
  then have "chan_exec (ChWrite s msg) st = st"
    by (auto simp: chan_exec_def fun_upd_idem split: option.splits)
  with assms show ?thesis by simp
qed

lemma calls_inv_call:
  assumes "calls_inv st" and "length (calls st) < 2 ^ 32"
  shows "calls_inv (chan_exec (ChCall s msg) st)"
proof (cases "chan st s \<noteq> None \<and> chan st (\<not> s) \<noteq> None \<and> 4 \<le> length (msg_data msg)")
  case True
  then obtain c p where cp: "chan st s = Some c" "chan st (\<not> s) = Some p" by auto
  let ?ans = "fst ` set (replies st)"
  have ends: "call_end_inv True (calls st) ?ans s c" "call_end_inv True (calls st) ?ans (\<not> s) p"
    using assms(1) cp unfolding calls_inv_def by fastforce+
  have "count_list (calls st) s < 2 ^ 32"
    using count_le_length [of "calls st" s] assms(2) by linarith
  moreover have "?ans \<subseteq> {..<length (calls st)}"
    using assms(1) by (simp add: calls_inv_def)
  ultimately have new: "call_end_inv True (calls st @ [s]) ?ans s
    (c\<lparr>next_txid := next_txid c + 1, call_reply := (next_txid c, length (calls st)) #
         filter (\<lambda>(t', _). t' \<noteq> next_txid c) (call_reply c)\<rparr>)"
    by (rule call_end_inv_call [OF ends(1)])
  have "call_end_inv True (calls st @ [s]) ?ans (\<not> s) p"
    using ends(2) by (rule call_end_inv_other_call) simp
  with new True cp assms(1) show ?thesis
    by (auto simp: calls_inv_def all_sides [of _ s] chan_exec_def channel_call_def new_txid_def Let_def
        call_end_inv_cong [of "push_general (set_txid (next_txid c) msg) p" p])
next
  case False
  then have "chan_exec (ChCall s msg) st = st"
    by (auto simp: chan_exec_def channel_call_def split: option.splits)
  with assms show ?thesis by simp
qed

lemma call_end_inv_drop:
  "call_end_inv True cs ans s c \<Longrightarrow>
     call_end_inv False cs (ans \<union> snd ` set (call_reply c)) s (c\<lparr>ch_base := b, call_reply := []\<rparr>)"
  by (auto simp: call_end_inv_def)

lemma calls_inv_drop:
  assumes "calls_inv st"
  shows "calls_inv (chan_exec (ChDrop s) st)"
proof (cases "chan st s \<noteq> None \<and> chan st (\<not> s) \<noteq> None")
  case True
  then obtain c p where cp: "chan st s = Some c" "chan st (\<not> s) = Some p" by auto
  define rs where "rs = map (\<lambda>(_, k). (k, Err PEER_CLOSED) :: 'a reply) (call_reply p)"
  have inv: "call_end_inv True (calls st) (fst ` set (replies st)) (\<not> s) p"
    using assms cp unfolding calls_inv_def by fastforce
  have rs: "map fst rs = map snd (call_reply p)"
    by (auto simp: rs_def)
  then have "fst ` set rs = snd ` set (call_reply p)"
    by (metis list.set_map)
  moreover have "distinct (map snd (call_reply p))"
    using inv by (simp add: call_end_inv_def)
  moreover have "k \<in> {..<length (calls st)} - fst ` set (replies st)" if "k \<in> snd ` set (call_reply p)" for k
  proof -
    from that obtain t where "(t, k) \<in> set (call_reply p)" by auto
    from call_end_inv_pending [OF inv this] show ?thesis by simp
  qed
  then have "snd ` set (call_reply p) \<subseteq> {..<length (calls st)} - fst ` set (replies st)"
    by blast
  moreover have "distinct (map fst (replies st))" "fst ` set (replies st) \<subseteq> {..<length (calls st)}"
    using assms by (simp_all add: calls_inv_def)
  ultimately have "distinct (map fst (replies st @ rs))"
    "fst ` set (replies st @ rs) \<subseteq> {..<length (calls st)}"
    using rs by (simp_all only: map_append distinct_append set_map set_append image_Un) auto
  moreover have "chan_exec (ChDrop s) st =
    st\<lparr>chan := (chan st)(s := None, \<not> s \<mapsto>
          p\<lparr>ch_base := kchange SIG_WRITABLE SIG_PEER_CLOSED (ch_base p), call_reply := []\<rparr>),
       replies := replies st @ rs\<rparr>"
    using cp by (simp add: chan_exec_def channel_drop_def rs_def)
  ultimately show ?thesis
    using call_end_inv_drop [OF inv] \<open>fst ` set rs = snd ` set (call_reply p)\<close>
    by (simp add: calls_inv_def all_sides [of _ s] image_Un)
next
  case False
  with assms show ?thesis
    by (auto simp: calls_inv_def all_sides [of _ s] chan_exec_def channel_drop_def
        split: option.splits)
qed

lemma calls_inv_quiet:
  assumes "calls_inv st" and "calls st' = calls st" and "replies st' = replies st"
    and "\<And>s. map_option (\<lambda>c. (call_reply c, next_txid c)) (chan st' s) =
           map_option (\<lambda>c. (call_reply c, next_txid c)) (chan st s)"
  shows "calls_inv st'"
  unfolding calls_inv_def
proof (intro conjI allI impI)
  fix s c' assume c': "chan st' s = Some c'"
  with assms(4) [of s] obtain c where c: "chan st s = Some c" "call_reply c' = call_reply c"
    "next_txid c' = next_txid c" by (cases "chan st s") auto
  moreover have "chan st' (\<not> s) = None \<longleftrightarrow> chan st (\<not> s) = None"
    using assms(4) [of "\<not> s"] by (cases "chan st (\<not> s)"; cases "chan st' (\<not> s)") simp_all
  moreover have "call_end_inv (chan st (\<not> s) \<noteq> None) (calls st) (fst ` set (replies st)) s c"
    using assms(1) c(1) unfolding calls_inv_def by blast
  ultimately show "call_end_inv (chan st' (\<not> s) \<noteq> None) (calls st') (fst ` set (replies st')) s c'"
    using assms(2,3) call_end_inv_cong [of c' c] by simp
qed (use assms(1-3) in \<open>simp_all add: calls_inv_def\<close>)

lemma calls_inv_exec:
  assumes "calls_inv st" and "length (calls st) < 2 ^ 32"
  shows "calls_inv (chan_exec x st)"
proof (cases x)
  case (ChRead s checker)
  with assms(1) show ?thesis
    by (intro calls_inv_quiet [OF assms(1)])
      (auto simp: chan_exec_def check_and_read_def split: option.splits list.splits result.splits)
next
  case (ChSignal s cl ra)
  with assms(1) show ?thesis
    by (intro calls_inv_quiet [OF assms(1)])
      (auto simp: chan_exec_def split: option.splits result.splits)
qed (use assms calls_inv_write calls_inv_call calls_inv_drop in auto)

lemma chan_exec_calls_length: "length (calls (chan_exec x st)) \<le> Suc (length (calls st))"
  by (cases x) (auto simp: chan_exec_def Let_def case_prod_unfold split: option.splits result.splits)

lemma calls_inv_run:
  "calls_inv st \<Longrightarrow> length (calls st) + length xs \<le> 2 ^ 32 \<Longrightarrow> calls_inv (run_ops chan_exec xs st)"
proof (induction xs arbitrary: st)
  case (Cons x xs)
  then show ?case
    using chan_exec_calls_length [of x st] calls_inv_exec [of st x] by simp
qed simp

text \<open>
  C21. In a run of up to \<open>2 ^ 32\<close> operations on a new channel every call is answered at most once, its
  sender is never dropped unanswered while the calling end is alive, and once the peer is closed
  every call has been answered. So the \<^verbatim>\<open>unwrap\<close> of the awaited receiver in \<^verbatim>\<open>call\<close> does not panic.
\<close>

theorem channel_calls_answered:
  assumes "length xs \<le> 2 ^ 32" and "st = run_ops chan_exec xs (chan_init koid)"
    and "chan st s = Some c" and "k < length (calls st)" and "calls st ! k = s"
  shows "distinct (map fst (replies st)) \<and>
    (k \<in> fst ` set (replies st)) \<noteq> (k \<in> snd ` set (call_reply c)) \<and>
    (chan st (\<not> s) = None \<longrightarrow> k \<in> fst ` set (replies st))"
proof -
  have "calls_inv st"
    unfolding assms(2) using assms(1) by (intro calls_inv_run calls_inv_init) simp
  then have "distinct (map fst (replies st))"
    and inv: "call_end_inv (chan st (\<not> s) \<noteq> None) (calls st) (fst ` set (replies st)) s c"
    using assms(3) by (auto simp: calls_inv_def)
  moreover have "k \<in> fst ` set (replies st) \<or> k \<in> snd ` set (call_reply c)"
    using inv assms(4,5) unfolding call_end_inv_def by blast
  moreover have "k \<notin> fst ` set (replies st)" if "k \<in> snd ` set (call_reply c)"
  proof -
    from that obtain t where "(t, k) \<in> set (call_reply c)" by auto
    from call_end_inv_pending [OF inv this] show ?thesis by simp
  qed
  moreover have "call_reply c = []" if "chan st (\<not> s) = None"
    using that inv by (simp add: call_end_inv_def)
  ultimately show ?thesis by auto
qed

lemmas chan_exec_simps = chan_exec_def channel_write_def channel_call_def new_txid_def channel_drop_def
  get_txid_def set_txid_def Let_def

theorem channel_calls_answered_witness:
  "0 \<in> fst ` set (replies (run_ops chan_exec
     [ChCall False \<lparr>msg_data = [0, 0, 0, 0, 7], msg_handles = [] :: nat list\<rparr>, ChDrop True] (chan_init 1024)))"
proof -
  let ?xs = "[ChCall False \<lparr>msg_data = [0, 0, 0, 0, 7], msg_handles = [] :: nat list\<rparr>, ChDrop True]"
  let ?st = "run_ops chan_exec ?xs (chan_init 1024)"
  obtain c where c: "chan ?st False = Some c"
    by (simp add: chan_exec_simps)
  have st: "calls ?st = [False]" "chan ?st (\<not> False) = None"
    by (simp_all add: chan_exec_simps)
  show ?thesis
    by (rule channel_calls_answered [OF _ refl c, of 0, THEN conjunct2, THEN conjunct2, THEN mp])
      (simp_all only: st, simp_all)
qed

section \<open>Calls end to end\<close>

lemma get_set_txid: "4 \<le> length (msg_data msg) \<Longrightarrow> get_txid (set_txid t msg) = t"
  by (simp add: get_txid_def set_txid_def le_word_le_bytes)

text \<open>
  C22. A call end to end. With both ends alive, a call whose transaction id is not zero queues at the
  peer the message with its first four bytes replaced by that id and everything else unchanged; and
  when the peer answers with any message that carries the id, exactly that message goes to exactly
  this caller, and the caller's queue of ordinary messages is untouched.
\<close>

theorem channel_call_round_trip:
  assumes "chan st s = Some c" and "chan st (\<not> s) = Some p" and "4 \<le> length (msg_data msg)"
    and "next_txid c \<noteq> 0" and "st1 = chan_exec (ChCall s msg) st"
    and "get_txid reply = next_txid c"
  shows "\<exists>m. chan_queued (\<not> s) st1 = chan_queued (\<not> s) st @ [m] \<and> get_txid m = next_txid c \<and>
      drop 4 (msg_data m) = drop 4 (msg_data msg) \<and> msg_handles m = msg_handles msg \<and>
    replies (chan_exec (ChWrite (\<not> s) reply) st1) = replies st @ [(length (calls st), Ok reply)] \<and>
    chan_queued s (chan_exec (ChWrite (\<not> s) reply) st1) = chan_queued s st"
proof -
  let ?m = "set_txid (next_txid c) msg"
  have "chan_queued (\<not> s) st1 = chan_queued (\<not> s) st @ [?m]"
    "replies (chan_exec (ChWrite (\<not> s) reply) st1) = replies st @ [(length (calls st), Ok reply)]"
    "chan_queued s (chan_exec (ChWrite (\<not> s) reply) st1) = chan_queued s st"
    using assms by (simp_all add: chan_exec_def channel_call_def channel_write_def new_txid_def chan_queued_def Let_def)
  moreover have "get_txid ?m = next_txid c"
    using assms(3) by (rule get_set_txid)
  moreover have "drop 4 (msg_data ?m) = drop 4 (msg_data msg)" "msg_handles ?m = msg_handles msg"
    using assms(3) by (simp_all add: set_txid_def)
  ultimately show ?thesis by blast
qed

theorem channel_call_round_trip_witness:
  "replies (run_ops chan_exec
     [ChCall False \<lparr>msg_data = [0, 0, 0, 0, 7], msg_handles = [] :: nat list\<rparr>,
      ChWrite True \<lparr>msg_data = [0, 0, 0, 0x80, 9], msg_handles = []\<rparr>] (chan_init 1024)) =
   [(0, Ok \<lparr>msg_data = [0, 0, 0, 0x80, 9], msg_handles = []\<rparr>)]"
  using channel_call_round_trip [where st = "chan_init 1024" and s = False
      and msg = "\<lparr>msg_data = [0, 0, 0, 0, 7], msg_handles = [] :: nat list\<rparr>"
      and reply = "\<lparr>msg_data = [0, 0, 0, 0x80, 9], msg_handles = []\<rparr>",
      OF chan_init_simps(1) chan_init_simps(1) _ _ refl]
  by (auto simp: get_txid_def take_Cons')

lemma many_calls:
  assumes "4 \<le> length (msg_data msg)"
  shows "\<exists>c p. chan (run_ops chan_exec (replicate n (ChCall s msg)) (chan_init koid)) s = Some c \<and>
    chan (run_ops chan_exec (replicate n (ChCall s msg)) (chan_init koid)) (\<not> s) = Some p \<and>
    next_txid c = 0x80000000 + of_nat n"
proof (induction n)
  case (Suc n)
  define st where "st = run_ops chan_exec (replicate n (ChCall s msg)) (chan_init koid)"
  from Suc obtain c p where c: "chan st s = Some c" "chan st (\<not> s) = Some p"
    "next_txid c = 0x80000000 + of_nat n"
    unfolding st_def [symmetric] by blast
  have step: "run_ops chan_exec (replicate (Suc n) (ChCall s msg)) (chan_init koid) =
    chan_exec (ChCall s msg) st"
    unfolding st_def replicate_Suc replicate_append_same [symmetric] run_ops_append by simp
  show ?case
    unfolding step using assms c by (simp add: chan_exec_def channel_call_def new_txid_def)
qed simp

text \<open>
  The transaction-id counter runs into zero. After \<open>2 ^ 31\<close> calls on an endpoint the next call is
  given the id 0, which \<^verbatim>\<open>write\<close> takes to mean "not a reply": the answer is queued as an ordinary
  message and the caller is not answered.
\<close>

theorem channel_txid_wraps_to_zero:
  assumes "4 \<le> length (msg_data msg)" and "get_txid reply = 0" and "n = 2 ^ 31"
    and "st = run_ops chan_exec (replicate n (ChCall s msg)) (chan_init koid)"
    and "st1 = chan_exec (ChCall s msg) st"
  shows "\<exists>m. chan_queued (\<not> s) st1 = chan_queued (\<not> s) st @ [m] \<and> get_txid m = 0 \<and>
    length (calls st1) = Suc (length (calls st)) \<and>
    replies (chan_exec (ChWrite (\<not> s) reply) st1) = replies st \<and>
    chan_queued s (chan_exec (ChWrite (\<not> s) reply) st1) = chan_queued s st @ [reply]"
proof -
  obtain c p where cp: "chan st s = Some c" "chan st (\<not> s) = Some p"
    and txid: "next_txid c = 0x80000000 + of_nat n"
    using many_calls [OF assms(1), of n s koid] unfolding assms(4) [symmetric] by blast
  have "next_txid c = 0"
    unfolding txid assms(3) by simp
  then have "get_txid (set_txid (next_txid c) msg) = 0"
    using get_set_txid [OF assms(1)] by simp
  with cp assms(1,2,5) show ?thesis
    by (simp add: chan_exec_def channel_call_def channel_write_def new_txid_def chan_queued_def Let_def)
qed

theorem channel_txid_wraps_to_zero_witness:
  "\<exists>m. chan_queued (\<not> False) (chan_exec (ChCall False \<lparr>msg_data = [1, 2, 3, 4], msg_handles = [] :: nat list\<rparr>)
      (run_ops chan_exec (replicate (2 ^ 31) (ChCall False \<lparr>msg_data = [1, 2, 3, 4], msg_handles = []\<rparr>))
        (chan_init 1024))) =
    chan_queued (\<not> False)
      (run_ops chan_exec (replicate (2 ^ 31) (ChCall False \<lparr>msg_data = [1, 2, 3, 4], msg_handles = []\<rparr>))
        (chan_init 1024)) @ [m] \<and> get_txid m = 0"
proof -
  have msg: "4 \<le> length (msg_data \<lparr>msg_data = [1, 2, 3, 4 :: u8], msg_handles = [] :: nat list\<rparr>)"
    by simp
  have reply: "get_txid \<lparr>msg_data = [], msg_handles = [] :: nat list\<rparr> = 0"
    by (simp add: get_txid_def)
  show ?thesis
    using channel_txid_wraps_to_zero [OF msg reply refl refl refl, of False 1024] by blast
qed

end
