(* ===== verification/Fifo.thy ===== *)
theory Fifo
  imports KObject Bytes
begin

text \<open>
  FIFOs, \<^verbatim>\<open>zircon-object/src/ipc/fifo.rs\<close>, with the argument checks of the system calls in
  \<^verbatim>\<open>zircon-syscall/src/fifo.rs\<close>. A FIFO is a pair of endpoints, each with a bounded byte queue that
  the other end writes; sizes are machine words and their products wrap, queue lengths are naturals.
  A read returns the number of elements and the bytes copied to the front of the caller's buffer.
\<close>

record fifo =
  ff_base :: kobj
  elem_count :: usize
  elem_size :: usize
  ff_queue :: "u8 list"

definition fifo_create :: "usize \<Rightarrow> usize \<Rightarrow> u64 \<Rightarrow> fifo \<times> fifo \<times> u64" where
  "fifo_create n es koid =
     (let (b0, koid1) = kobject_with_signal SIG_WRITABLE koid;
          (b1, koid2) = kobject_with_signal SIG_WRITABLE koid1
      in (\<lparr>ff_base = b0, elem_count = n, elem_size = es, ff_queue = []\<rparr>,
          \<lparr>ff_base = b1, elem_count = n, elem_size = es, ff_queue = []\<rparr>, koid2))"

definition capacity :: "fifo \<Rightarrow> nat" where
  "capacity f = unat (elem_size f * elem_count f)"

text \<open>
  The asserted buffer length and the subtraction \<^verbatim>\<open>capacity - len\<close>, which panics (or wraps, without
  overflow checks) when the queue is over-full, are branches of the model.
\<close>

definition fifo_write ::
  "usize \<Rightarrow> u8 list \<Rightarrow> usize \<Rightarrow> fifo \<Rightarrow> fifo option \<Rightarrow> nat zx_result \<times> fifo \<times> fifo option" where
  "fifo_write es data count f peer =
     (if es \<noteq> elem_size f \<or> count = 0 then (Err OUT_OF_RANGE, f, peer)
      else let count_size = unat (count * es)
      in if length data \<noteq> count_size then (Panic, f, peer)
      else case peer of
        None \<Rightarrow> (Err PEER_CLOSED, f, None)
      | Some p \<Rightarrow>
          if capacity f < length (ff_queue p) then (Panic, f, peer)
          else let rest_capacity = capacity f - length (ff_queue p)
          in if rest_capacity = 0 then (Err SHOULD_WAIT, f, peer)
          else let pb = (if ff_queue p = [] then kset SIG_READABLE (ff_base p) else ff_base p);
                   write_len = min count_size rest_capacity;
                   q = ff_queue p @ take write_len data;
                   fb = (if length q = capacity f then kclear SIG_WRITABLE (ff_base f) else ff_base f)
          in if es = 0 then (Panic, f, peer)
             else (Ok (write_len div unat es), f\<lparr>ff_base := fb\<rparr>, Some (p\<lparr>ff_base := pb, ff_queue := q\<rparr>)))"

definition fifo_read ::
  "usize \<Rightarrow> nat \<Rightarrow> usize \<Rightarrow> fifo \<Rightarrow> fifo option \<Rightarrow> (nat \<times> u8 list) zx_result \<times> fifo \<times> fifo option" where
  "fifo_read es buf_len count f peer =
     (if es \<noteq> elem_size f \<or> count = 0 then (Err OUT_OF_RANGE, f, peer)
      else let count_size = unat (count * es)
      in if buf_len \<noteq> count_size then (Panic, f, peer)
      else if ff_queue f = [] then
        ((if peer = None then Err PEER_CLOSED else Err SHOULD_WAIT), f, peer)
      else let read_size = min count_size (length (ff_queue f));
               peer' = (if length (ff_queue f) = capacity f
                        then map_option (\<lambda>p. p\<lparr>ff_base := kset SIG_WRITABLE (ff_base p)\<rparr>) peer else peer);
               q = drop read_size (ff_queue f);
               fb = (if q = [] then kclear SIG_READABLE (ff_base f) else ff_base f)
           in if es = 0 then (Panic, f, peer)
              else (Ok (read_size div unat es, take read_size (ff_queue f)),
                    f\<lparr>ff_base := fb, ff_queue := q\<rparr>, peer'))"

definition fifo_drop :: "fifo option \<Rightarrow> fifo option" where
  "fifo_drop peer =
     map_option (\<lambda>p. p\<lparr>ff_base := kchange SIG_WRITABLE SIG_PEER_CLOSED (ff_base p)\<rparr>) peer"

section \<open>System calls\<close>

definition sys_fifo_create :: "usize \<Rightarrow> usize \<Rightarrow> u32 \<Rightarrow> u64 \<Rightarrow> (fifo \<times> fifo \<times> u64) zx_result" where
  "sys_fifo_create n es options koid =
     (if options \<noteq> 0 then Err INVALID_ARGS
      else if n = 0 \<or> es = 0 \<or> (case checked_mul n es of None \<Rightarrow> True | Some sz \<Rightarrow> 4096 < sz)
      then Err OUT_OF_RANGE
      else Ok (fifo_create n es koid))"

definition sys_fifo_bytes :: "usize \<Rightarrow> usize \<Rightarrow> usize zx_result" where
  "sys_fifo_bytes count es =
     (if count = 0 then Err OUT_OF_RANGE else ok_or (checked_mul count es) INVALID_ARGS)"

section \<open>The pair as a system\<close>

type_synonym fifo_sys = "bool \<Rightarrow> fifo option"

datatype fifo_op =
    FfWrite bool usize "u8 list" usize
  | FfRead bool usize usize
  | FfDrop bool

text \<open>
  One system call on a live end: the write's buffer is what was copied from user memory, \<open>count\<close>
  elements long, and the read's buffer has that size.
\<close>

definition fifo_exec :: "fifo_op \<Rightarrow> fifo_sys \<Rightarrow> fifo_sys" where
  "fifo_exec x st =
     (case x of
        FfWrite s es data count \<Rightarrow>
          (case (st s, sys_fifo_bytes count es) of
             (Some f, Ok n) \<Rightarrow>
               if length data = unat n then
                 (let (_, f', p') = fifo_write es data count f (st (\<not> s)) in st(s \<mapsto> f', \<not> s := p'))
               else st
           | _ \<Rightarrow> st)
      | FfRead s es count \<Rightarrow>
          (case (st s, sys_fifo_bytes count es) of
             (Some f, Ok n) \<Rightarrow>
               (let (_, f', p') = fifo_read es (unat n) count f (st (\<not> s)) in st(s \<mapsto> f', \<not> s := p'))
           | _ \<Rightarrow> st)
      | FfDrop s \<Rightarrow>
          (case st s of None \<Rightarrow> st | Some f \<Rightarrow> st(s := None, \<not> s := fifo_drop (st (\<not> s)))))"

text \<open>The outcome of a call on a live end, for a write and for a read.\<close>

definition fifo_write_result :: "bool \<Rightarrow> usize \<Rightarrow> u8 list \<Rightarrow> usize \<Rightarrow> fifo_sys \<Rightarrow> nat zx_result" where
  "fifo_write_result s es data count st =
     (case (st s, sys_fifo_bytes count es) of
        (Some f, Ok n) \<Rightarrow>
          if length data = unat n then fst (fifo_write es data count f (st (\<not> s))) else Err INVALID_ARGS
      | (Some f, Err e) \<Rightarrow> Err e
      | _ \<Rightarrow> Err BAD_HANDLE)"

definition fifo_read_result :: "bool \<Rightarrow> usize \<Rightarrow> usize \<Rightarrow> fifo_sys \<Rightarrow> (nat \<times> u8 list) zx_result" where
  "fifo_read_result s es count st =
     (case (st s, sys_fifo_bytes count es) of
        (Some f, Ok n) \<Rightarrow> fst (fifo_read es (unat n) count f (st (\<not> s)))
      | (Some f, Err e) \<Rightarrow> Err e
      | _ \<Rightarrow> Err BAD_HANDLE)"

definition fifo_queued :: "bool \<Rightarrow> fifo_sys \<Rightarrow> u8 list" where
  "fifo_queued s st = (case st s of None \<Rightarrow> [] | Some f \<Rightarrow> ff_queue f)"

text \<open>Bytes that enter the queue read by \<open>s\<close> (as many elements as the write reports), or leave it.\<close>

definition fifo_accepted :: "bool \<Rightarrow> fifo_op \<Rightarrow> fifo_sys \<Rightarrow> u8 list" where
  "fifo_accepted s x st =
     (case x of
        FfWrite s' es data count \<Rightarrow>
          if s' = (\<not> s) then
            (case fifo_write_result s' es data count st of Ok n \<Rightarrow> take (n * unat es) data | _ \<Rightarrow> [])
          else []
      | _ \<Rightarrow> [])"

definition fifo_delivered :: "bool \<Rightarrow> fifo_op \<Rightarrow> fifo_sys \<Rightarrow> u8 list" where
  "fifo_delivered s x st =
     (case x of
        FfRead s' es count \<Rightarrow>
          if s' = s then (case fifo_read_result s' es count st of Ok (n, bs) \<Rightarrow> take (n * unat es) bs | _ \<Rightarrow> []) else []
      | _ \<Rightarrow> [])"

fun fifo_keeps :: "bool \<Rightarrow> fifo_op \<Rightarrow> bool" where
  "fifo_keeps s (FfDrop s') = (s' \<noteq> s)"
| "fifo_keeps s _ = True"

section \<open>Invariant\<close>

definition fifo_end_ok :: "fifo \<Rightarrow> bool" where
  "fifo_end_ok f \<longleftrightarrow>
     0 < unat (elem_size f) \<and> 0 < unat (elem_count f) \<and>
     capacity f = unat (elem_size f) * unat (elem_count f) \<and>
     length (ff_queue f) \<le> capacity f \<and> unat (elem_size f) dvd length (ff_queue f) \<and>
     (contains (kobj_signal (ff_base f)) SIG_READABLE \<longleftrightarrow> ff_queue f \<noteq> [])"

definition fifo_end_peer :: "fifo \<Rightarrow> fifo option \<Rightarrow> bool" where
  "fifo_end_peer f peer \<longleftrightarrow>
     (contains (kobj_signal (ff_base f)) SIG_PEER_CLOSED \<longleftrightarrow> peer = None) \<and>
     (contains (kobj_signal (ff_base f)) SIG_WRITABLE \<longleftrightarrow>
        (\<exists>p. peer = Some p \<and> length (ff_queue p) < capacity f)) \<and>
     (\<forall>p. peer = Some p \<longrightarrow> elem_size p = elem_size f \<and> elem_count p = elem_count f)"

definition fifo_inv :: "fifo_sys \<Rightarrow> bool" where
  "fifo_inv st \<longleftrightarrow> (\<forall>s f. st s = Some f \<longrightarrow> fifo_end_ok f \<and> fifo_end_peer f (st (\<not> s)))"

lemma sys_fifo_bytes_Ok:
  assumes "sys_fifo_bytes count es = Ok n"
  shows "count \<noteq> 0" "count * es = n" "unat n = unat count * unat es"
  using assms unat_checked_mul [of count es n]
  by (auto simp: sys_fifo_bytes_def checked_mul_Some_iff split: if_splits)

lemma dvd_min: "d dvd a \<Longrightarrow> d dvd b \<Longrightarrow> d dvd min a b" for a b d :: nat
  by (simp add: min_def)

text \<open>What a write does between two live ends that satisfy the invariant.\<close>

lemma fifo_write_live:
  assumes ok: "fifo_end_ok f" "fifo_end_ok p" "fifo_end_peer f (Some p)"
    and args: "sys_fifo_bytes count es = Ok n" "length data = unat n" "es = elem_size f"
  defines "w \<equiv> min (unat n) (capacity f - length (ff_queue p))"
  shows "unat es dvd w \<and>
    fifo_write es data count f (Some p) =
      (if length (ff_queue p) = capacity f then (Err SHOULD_WAIT, f, Some p)
       else (Ok (w div unat es),
             f\<lparr>ff_base := if length (ff_queue p) + w = capacity f then kclear SIG_WRITABLE (ff_base f) else ff_base f\<rparr>,
             Some (p\<lparr>ff_base := if ff_queue p = [] then kset SIG_READABLE (ff_base p) else ff_base p,
                     ff_queue := ff_queue p @ take w data\<rparr>)))"
proof -
  note n = sys_fifo_bytes_Ok [OF args(1)]
  have cap: "length (ff_queue p) \<le> capacity f" "unat es dvd capacity f" "unat es dvd length (ff_queue p)"
    using ok args(3) by (auto simp: fifo_end_ok_def fifo_end_peer_def capacity_def)
  then have "unat es dvd w"
    unfolding w_def n(3) by (intro dvd_min dvd_diff_nat) simp_all
  moreover have "es \<noteq> 0" using ok(1) args(3) by (auto simp: fifo_end_ok_def)
  moreover have "w \<le> length data" using args(2) by (simp add: w_def)
  ultimately show ?thesis
    using n cap args by (auto simp: fifo_write_def w_def Let_def)
qed

lemma fifo_read_live:
  assumes ok: "fifo_end_ok f" and args: "sys_fifo_bytes count es = Ok n" "es = elem_size f"
  defines "r \<equiv> min (unat n) (length (ff_queue f))"
  shows "unat es dvd r \<and>
    fifo_read es (unat n) count f peer =
      (if ff_queue f = [] then ((if peer = None then Err PEER_CLOSED else Err SHOULD_WAIT), f, peer)
       else (Ok (r div unat es, take r (ff_queue f)),
             f\<lparr>ff_base := if length (ff_queue f) \<le> r then kclear SIG_READABLE (ff_base f) else ff_base f,
               ff_queue := drop r (ff_queue f)\<rparr>,
             if length (ff_queue f) = capacity f
             then map_option (\<lambda>p. p\<lparr>ff_base := kset SIG_WRITABLE (ff_base p)\<rparr>) peer else peer))"
proof -
  note n = sys_fifo_bytes_Ok [OF args(1)]
  have "unat es dvd r"
    using ok args(2) unfolding r_def n(3) by (intro dvd_min) (simp_all add: fifo_end_ok_def)
  moreover have "es \<noteq> 0" using ok args(2) by (auto simp: fifo_end_ok_def)
  ultimately show ?thesis
    using n args(2) by (auto simp: fifo_read_def r_def Let_def)
qed

lemma fifo_write_unchanged:
  "es \<noteq> elem_size f \<or> peer = None \<Longrightarrow> snd (fifo_write es data count f peer) = (f, peer)"
  by (auto simp: fifo_write_def Let_def)

lemma fifo_read_unchanged:
  "es \<noteq> elem_size f \<or> ff_queue f = [] \<Longrightarrow> snd (fifo_read es len count f peer) = (f, peer)"
  by (auto simp: fifo_read_def Let_def)

lemma fifo_inv_write:
  assumes "fifo_inv st"
  shows "fifo_inv (fifo_exec (FfWrite s es data count) st)"
proof (cases "\<exists>f p n. st s = Some f \<and> st (\<not> s) = Some p \<and> sys_fifo_bytes count es = Ok n \<and>
    length data = unat n \<and> es = elem_size f")
  case True
  then obtain f p n where w: "st s = Some f" "st (\<not> s) = Some p" "sys_fifo_bytes count es = Ok n"
    "length data = unat n" "es = elem_size f" by blast
  have ok: "fifo_end_ok f" "fifo_end_peer f (Some p)" "fifo_end_ok p" "fifo_end_peer p (Some f)"
    using assms w(1,2) by (auto simp: fifo_inv_def all_sides [of _ s])
  define k where "k = min (unat n) (capacity f - length (ff_queue p))"
  note wr = fifo_write_live [OF ok(1,3,2) w(3,4,5), folded k_def]
  have caps: "capacity p = capacity f" "elem_size p = elem_size f"
    using ok(2) by (auto simp: fifo_end_peer_def capacity_def)
  have len: "length (take k data) = k" using w(4) by (simp add: k_def)
  have "0 < unat n"
    using sys_fifo_bytes_Ok [OF w(3)] w(5) ok(1) by (simp add: fifo_end_ok_def unat_gt_0)
  then have pos: "0 < k \<or> length (ff_queue p) = capacity f"
    using ok(3) caps by (auto simp: k_def fifo_end_ok_def)
  have le: "length (ff_queue p) + k \<le> capacity f"
    using ok(3) caps by (auto simp: k_def fifo_end_ok_def)
  show ?thesis
  proof (cases "length (ff_queue p) = capacity f")
    case True
    then have "fifo_exec (FfWrite s es data count) st = st"
      using w wr by (auto simp: fifo_exec_def)
    with assms show ?thesis by simp
  next
    case False
    define f' where "f' = f\<lparr>ff_base := if length (ff_queue p) + k = capacity f
      then kclear SIG_WRITABLE (ff_base f) else ff_base f\<rparr>"
    define p' where "p' = p\<lparr>ff_base := if ff_queue p = [] then kset SIG_READABLE (ff_base p) else ff_base p,
      ff_queue := ff_queue p @ take k data\<rparr>"
    have "fifo_end_ok f'" "fifo_end_ok p'"
      using ok(1,3) wr len le caps w(5) pos False
      by (auto simp: f'_def p'_def fifo_end_ok_def capacity_def flag_simps)
    moreover have "fifo_end_peer f' (Some p')" "fifo_end_peer p' (Some f')"
      using ok(2,4) len le False by (auto simp: f'_def p'_def fifo_end_peer_def capacity_def flag_simps)
    moreover have "fifo_write es data count f (Some p) = (Ok (k div unat es), f', Some p')"
      using wr False by (simp add: f'_def p'_def)
    then have "fifo_exec (FfWrite s es data count) st = st(s \<mapsto> f', \<not> s \<mapsto> p')"
      using w by (simp add: fifo_exec_def)
    ultimately show ?thesis
      by (simp add: fifo_inv_def all_sides [of _ s])
  qed
next
  case False
  have "fifo_exec (FfWrite s es data count) st = st"
  proof (cases "st s")
    case (Some f)
    have "snd (fifo_write es data count f (st (\<not> s))) = (f, st (\<not> s))"
      if "sys_fifo_bytes count es = Ok n" "length data = unat n" for n
      using False Some that by (intro fifo_write_unchanged) auto
    with Some show ?thesis
      by (auto simp: fifo_exec_def case_prod_unfold Let_def fun_upd_idem split: result.splits)
  qed (simp add: fifo_exec_def)
  with assms show ?thesis by simp
qed

lemma fifo_inv_read:
  assumes "fifo_inv st"
  shows "fifo_inv (fifo_exec (FfRead s es count) st)"
proof (cases "\<exists>f n. st s = Some f \<and> sys_fifo_bytes count es = Ok n \<and> es = elem_size f \<and> ff_queue f \<noteq> []")
  case True
  then obtain f n where r: "st s = Some f" "sys_fifo_bytes count es = Ok n" "es = elem_size f"
    "ff_queue f \<noteq> []" by blast
  have ok: "fifo_end_ok f" "fifo_end_peer f (st (\<not> s))"
    using assms r(1) by (auto simp: fifo_inv_def)
  define k where "k = min (unat n) (length (ff_queue f))"
  note rd = fifo_read_live [OF ok(1) r(2,3), folded k_def]
  have "0 < unat n"
    using sys_fifo_bytes_Ok [OF r(2)] r(3) ok(1) by (simp add: fifo_end_ok_def unat_gt_0)
  then have k: "0 < k" "k \<le> length (ff_queue f)" using r(4) by (auto simp: k_def)
  define f' where "f' = f\<lparr>ff_base := if length (ff_queue f) \<le> k then kclear SIG_READABLE (ff_base f)
    else ff_base f, ff_queue := drop k (ff_queue f)\<rparr>"
  have f': "fifo_end_ok f'"
    using ok(1) rd k r(3) by (auto simp: f'_def fifo_end_ok_def capacity_def flag_simps)
  show ?thesis
  proof (cases "st (\<not> s)")
    case None
    then have "fifo_end_peer f' None"
      using ok(2) by (auto simp: f'_def fifo_end_peer_def flag_simps)
    moreover have "fifo_exec (FfRead s es count) st = st(s \<mapsto> f', \<not> s := None)"
      using r rd None by (simp add: fifo_exec_def f'_def)
    ultimately show ?thesis
      using f' by (simp add: fifo_inv_def all_sides [of _ s])
  next
    case (Some p)
    have p: "fifo_end_ok p" "fifo_end_peer p (Some f)"
      using assms r(1) Some by (auto simp: fifo_inv_def all_sides [of _ s])
    define p' where "p' = (if length (ff_queue f) = capacity f
      then p\<lparr>ff_base := kset SIG_WRITABLE (ff_base p)\<rparr> else p)"
    have caps: "capacity p = capacity f" using ok(2) Some by (auto simp: fifo_end_peer_def capacity_def)
    have "fifo_end_ok p'"
      using p(1) by (auto simp: p'_def fifo_end_ok_def capacity_def flag_simps)
    moreover have "length (ff_queue f) \<le> capacity f" using ok(1) by (simp add: fifo_end_ok_def)
    then have "fifo_end_peer p' (Some f')"
      using p(2) k caps by (auto simp: p'_def f'_def fifo_end_peer_def capacity_def flag_simps)
    moreover have "fifo_end_peer f' (Some p')"
      using ok(2) Some by (auto simp: p'_def f'_def fifo_end_peer_def capacity_def flag_simps)
    moreover have "fifo_exec (FfRead s es count) st = st(s \<mapsto> f', \<not> s \<mapsto> p')"
      using r rd Some by (simp add: fifo_exec_def f'_def p'_def)
    ultimately show ?thesis
      using f' by (simp add: fifo_inv_def all_sides [of _ s])
  qed
next
  case False
  have "fifo_exec (FfRead s es count) st = st"
  proof (cases "st s")
    case (Some f)
    have "snd (fifo_read es (unat n) count f (st (\<not> s))) = (f, st (\<not> s))"
      if "sys_fifo_bytes count es = Ok n" for n
      using False Some that by (intro fifo_read_unchanged) auto
    with Some show ?thesis
      by (auto simp: fifo_exec_def case_prod_unfold Let_def fun_upd_idem split: result.splits)
  qed (simp add: fifo_exec_def)
  with assms show ?thesis by simp
qed

lemma fifo_drop_inv:
  "fifo_end_ok p \<Longrightarrow> fifo_end_ok (p\<lparr>ff_base := kchange SIG_WRITABLE SIG_PEER_CLOSED (ff_base p)\<rparr>)"
  "fifo_end_peer (p\<lparr>ff_base := kchange SIG_WRITABLE SIG_PEER_CLOSED (ff_base p)\<rparr>) None"
  by (simp_all add: fifo_end_ok_def fifo_end_peer_def capacity_def flag_simps)

lemma fifo_inv_exec:
  assumes "fifo_inv st"
  shows "fifo_inv (fifo_exec x st)"
proof (cases x)
  case (FfDrop s)
  show ?thesis
  proof (cases "st (\<not> s)")
    case None
    with FfDrop assms show ?thesis
      by (cases "st s") (simp_all add: fifo_inv_def all_sides [of _ s] fifo_exec_def fifo_drop_def)
  next
    case (Some p)
    moreover from this have "fifo_end_ok p" using assms by (auto simp: fifo_inv_def)
    ultimately show ?thesis
      using FfDrop assms fifo_drop_inv [of p]
      by (cases "st s") (simp_all add: fifo_inv_def all_sides [of _ s] fifo_exec_def fifo_drop_def)
  qed
qed (simp_all add: assms fifo_inv_write fifo_inv_read)

lemma fifo_exec_conserves:
  assumes "fifo_inv st" and "fifo_keeps s x"
  shows "fifo_delivered s x st @ fifo_queued s (fifo_exec x st) = fifo_queued s st @ fifo_accepted s x st"
proof (cases x)
  case (FfWrite s' es data count)
  show ?thesis
  proof (cases "s' = s")
    case True
    have "map_option ff_queue (fifo_exec x st s) = map_option ff_queue (st s)"
      unfolding FfWrite True
      by (auto simp: fifo_exec_def fifo_write_def Let_def split: option.splits result.splits)
    then have "fifo_queued s (fifo_exec x st) = fifo_queued s st"
      by (auto simp: fifo_queued_def split: option.splits)
    with FfWrite True show ?thesis
      by (simp add: fifo_delivered_def fifo_accepted_def)
  next
    case False
    then have s': "s' = (\<not> s)" by simp
    show ?thesis
    proof (cases "\<exists>f p n. st s' = Some f \<and> st s = Some p \<and> sys_fifo_bytes count es = Ok n \<and>
        length data = unat n \<and> es = elem_size f")
      case True
      then obtain f p n where w: "st s' = Some f" "st s = Some p" "sys_fifo_bytes count es = Ok n"
        "length data = unat n" "es = elem_size f" by blast
      have ok: "fifo_end_ok f" "fifo_end_peer f (Some p)" "fifo_end_ok p"
        using assms(1) w(1,2) by (auto simp: fifo_inv_def all_sides [of _ s'] s')
      from fifo_write_live [OF ok(1,3,2) w(3,4,5)] w show ?thesis
        by (auto simp: FfWrite s' fifo_exec_def fifo_queued_def fifo_accepted_def fifo_delivered_def
            fifo_write_result_def dvd_div_mult_self)
    next
      case False
      have "fifo_write_result s' es data count st \<noteq> Ok n" "snd (fifo_write es data count f (st s)) = (f, st s)"
        if "st s' = Some f" "sys_fifo_bytes count es = Ok b" "length data = unat b" for f b n
        using False that s' by (auto simp: fifo_write_result_def fifo_write_def Let_def split: if_splits option.splits)
      then show ?thesis
        by (auto simp: FfWrite s' fifo_exec_def fifo_queued_def fifo_accepted_def fifo_delivered_def
            fifo_write_result_def case_prod_unfold Let_def split: option.splits result.splits if_splits)
    qed
  qed
next
  case (FfRead s' es count)
  show ?thesis
  proof (cases "s' = s")
    case False
    have "map_option ff_queue (fifo_exec x st s) = map_option ff_queue (st s)"
      using False unfolding FfRead
      by (auto simp: fifo_exec_def fifo_read_def Let_def option.map_comp o_def split: option.splits result.splits)
    then have "fifo_queued s (fifo_exec x st) = fifo_queued s st"
      by (auto simp: fifo_queued_def split: option.splits)
    with FfRead False show ?thesis
      by (simp add: fifo_delivered_def fifo_accepted_def)
  next
    case True
    show ?thesis
    proof (cases "\<exists>f n. st s = Some f \<and> sys_fifo_bytes count es = Ok n \<and> es = elem_size f")
      case True
      then obtain f n where r: "st s = Some f" "sys_fifo_bytes count es = Ok n" "es = elem_size f" by blast
      have "fifo_end_ok f" using assms(1) r(1) by (auto simp: fifo_inv_def)
      from fifo_read_live [OF this r(2,3), of "st (\<not> s)"] r \<open>s' = s\<close> show ?thesis
        by (auto simp: FfRead fifo_exec_def fifo_queued_def fifo_accepted_def fifo_delivered_def
            fifo_read_result_def dvd_div_mult_self)
    next
      case False
      with \<open>s' = s\<close> show ?thesis
        by (auto simp: FfRead fifo_exec_def fifo_queued_def fifo_accepted_def fifo_delivered_def
            fifo_read_result_def fifo_read_def split: option.splits result.splits)
    qed
  qed
next
  case (FfDrop s')
  with assms(2) show ?thesis
    by (auto simp: fifo_delivered_def fifo_accepted_def fifo_queued_def fifo_exec_def fifo_drop_def
        split: option.splits)
qed

interpretation fifo_transport:
  transport fifo_exec "fifo_keeps s" fifo_inv "fifo_queued s" "fifo_accepted s" "fifo_delivered s" for s
  by unfold_locales (auto intro: fifo_inv_exec fifo_exec_conserves)

section \<open>Properties\<close>

definition fifo_init :: "fifo \<times> fifo \<times> u64 \<Rightarrow> fifo_sys" where
  "fifo_init r = (case r of (f0, f1, _) \<Rightarrow> (\<lambda>s. Some (if s then f1 else f0)))"

lemma fifo_inv_init:
  assumes "sys_fifo_create n es options koid = Ok r"
  shows "fifo_inv (fifo_init r)" "\<And>s. fifo_queued s (fifo_init r) = []"
    "\<And>s f. fifo_init r s = Some f \<Longrightarrow> elem_size f = es \<and> elem_count f = n"
    "unat es * unat n \<le> 4096"
proof -
  have c: "unat n * unat es < 2 ^ 64" "n * es \<le> 4096" "n \<noteq> 0" "es \<noteq> 0" "r = fifo_create n es koid"
    using assms by (auto simp: sys_fifo_create_def checked_mul_def split: if_splits)
  then have "unat (es * n) = unat es * unat n"
    by (intro unat_mult_no_wrap) (simp add: mult.commute)
  with c show "fifo_inv (fifo_init r)" "\<And>s. fifo_queued s (fifo_init r) = []"
    "\<And>s f. fifo_init r s = Some f \<Longrightarrow> elem_size f = es \<and> elem_count f = n" "unat es * unat n \<le> 4096"
    by (auto simp: fifo_init_def fifo_create_def kobject_with_signal_def kobject_with_def new_koid_def
        fifo_queued_def fifo_inv_def fifo_end_ok_def fifo_end_peer_def capacity_def flag_simps unat_gt_0
        mult.commute word_le_nat_alt)
qed

lemma fifo_exec_sizes:
  "fifo_exec x st s = Some f' \<Longrightarrow> \<exists>f. st s = Some f \<and> elem_size f' = elem_size f \<and> elem_count f' = elem_count f"
  by (cases x) (auto simp: fifo_exec_def fifo_write_def fifo_read_def fifo_drop_def Let_def
      split: option.splits result.splits if_splits)

lemma fifo_run_sizes:
  "run_ops fifo_exec xs st s = Some f' \<Longrightarrow>
     \<exists>f. st s = Some f \<and> elem_size f' = elem_size f \<and> elem_count f' = elem_count f"
proof (induction xs arbitrary: st)
  case (Cons x xs)
  then obtain f1 where "fifo_exec x st s = Some f1" "elem_size f' = elem_size f1" "elem_count f' = elem_count f1"
    by fastforce
  with fifo_exec_sizes [of x st s f1] show ?case by auto
qed simp

lemma fifo_inv_run: "fifo_inv st \<Longrightarrow> fifo_inv (run_ops fifo_exec xs st)"
  by (induction xs arbitrary: st) (auto intro: fifo_inv_exec)

lemma fifo_no_panic:
  assumes "fifo_inv st"
  shows "fifo_write_result s es data count st \<noteq> Panic" "fifo_read_result s es count st \<noteq> Panic"
proof -
  have "fst (fifo_write es data count f (st (\<not> s))) \<noteq> Panic"
    if "st s = Some f" "sys_fifo_bytes count es = Ok n" "length data = unat n" for f n
  proof (cases "es = elem_size f \<and> st (\<not> s) \<noteq> None")
    case True
    then obtain p where p: "st (\<not> s) = Some p" by auto
    then have "fifo_end_ok f" "fifo_end_ok p" "fifo_end_peer f (Some p)"
      using assms that(1) by (auto simp: fifo_inv_def all_sides [of _ s])
    from fifo_write_live [OF this that(2,3)] True p show ?thesis by auto
  next
    case False
    with sys_fifo_bytes_Ok [OF that(2)] that(3) show ?thesis
      by (auto simp: fifo_write_def)
  qed
  then show "fifo_write_result s es data count st \<noteq> Panic"
    by (auto simp: fifo_write_result_def sys_fifo_bytes_def ok_or_def split: option.splits result.splits)
  have "fst (fifo_read es (unat n) count f (st (\<not> s))) \<noteq> Panic"
    if "st s = Some f" "sys_fifo_bytes count es = Ok n" for f n
  proof (cases "es = elem_size f")
    case True
    have "fifo_end_ok f" using assms that(1) by (auto simp: fifo_inv_def)
    from fifo_read_live [OF this that(2) True, of "st (\<not> s)"] show ?thesis by auto
  qed (simp add: fifo_read_def)
  then show "fifo_read_result s es count st \<noteq> Panic"
    by (auto simp: fifo_read_result_def sys_fifo_bytes_def ok_or_def split: option.splits result.splits)
qed

text \<open>
  C23. A FIFO made by \<^verbatim>\<open>zx_fifo_create\<close>, after any sequence of reads, writes and closes: no queue ever
  exceeds the capacity (at most 4096 bytes) or holds a partial element, no further call panics, and
  the signals of a live end say whether there is data to read, whether there is room to write, and
  whether the peer is closed.
\<close>

theorem fifo_bounded_and_signalled:
  assumes "sys_fifo_create n es options koid = Ok r"
    and "st = run_ops fifo_exec xs (fifo_init r)" and "st s = Some f"
  shows "length (ff_queue f) \<le> unat es * unat n \<and> unat es * unat n \<le> 4096 \<and>
    unat es dvd length (ff_queue f) \<and>
    fifo_write_result s es' data count st \<noteq> Panic \<and> fifo_read_result s es' count st \<noteq> Panic \<and>
    (contains (kobj_signal (ff_base f)) SIG_READABLE \<longleftrightarrow> ff_queue f \<noteq> []) \<and>
    (contains (kobj_signal (ff_base f)) SIG_PEER_CLOSED \<longleftrightarrow> st (\<not> s) = None) \<and>
    (contains (kobj_signal (ff_base f)) SIG_WRITABLE \<longleftrightarrow>
       (\<exists>p. st (\<not> s) = Some p \<and> length (ff_queue p) < unat es * unat n))"
proof -
  have inv: "fifo_inv st"
    unfolding assms(2) using fifo_inv_init(1) [OF assms(1)] by (rule fifo_inv_run)
  obtain f0 where "fifo_init r s = Some f0" "elem_size f = elem_size f0" "elem_count f = elem_count f0"
    using fifo_run_sizes [of xs "fifo_init r" s f] assms(2,3) by auto
  then have sz: "elem_size f = es" "elem_count f = n"
    using fifo_inv_init(3) [OF assms(1)] by auto
  have "fifo_end_ok f" "fifo_end_peer f (st (\<not> s))"
    using inv assms(3) by (auto simp: fifo_inv_def)
  with sz fifo_inv_init(4) [OF assms(1)] fifo_no_panic [OF inv] show ?thesis
    by (simp add: fifo_end_ok_def fifo_end_peer_def)
qed

theorem fifo_bounded_and_signalled_witness:
  "\<exists>f. run_ops fifo_exec [FfWrite True 2 [1, 2, 3, 4] 2] (fifo_init (fifo_create 4 2 1024)) False = Some f \<and>
     length (ff_queue f) \<le> unat (2 :: usize) * unat (4 :: usize)"
proof -
  let ?st = "run_ops fifo_exec [FfWrite True 2 [1, 2, 3, 4] 2] (fifo_init (fifo_create 4 2 1024))"
  obtain f where f: "?st False = Some f"
    by (simp add: fifo_exec_def fifo_init_def fifo_create_def kobject_with_signal_def kobject_with_def
        new_koid_def sys_fifo_bytes_def checked_mul_def fifo_write_def capacity_def Let_def)
  have "sys_fifo_create 4 2 0 1024 = Ok (fifo_create 4 2 1024)"
    by (simp add: sys_fifo_create_def checked_mul_def)
  from fifo_bounded_and_signalled [OF this refl f] f show ?thesis by blast
qed

text \<open>
  C24. A FIFO is a byte stream in each direction: while side \<open>s\<close> is open, the elements its reads
  reported and copied out, followed by what is still queued, are exactly the elements its peer's
  writes reported as written, in order.
\<close>

theorem fifo_delivers_in_order:
  assumes "sys_fifo_create n es options koid = Ok r" and "list_all (fifo_keeps s) xs"
  shows "collect fifo_exec (fifo_delivered s) xs (fifo_init r) @ fifo_queued s (run_ops fifo_exec xs (fifo_init r)) =
    collect fifo_exec (fifo_accepted s) xs (fifo_init r)"
  using fifo_transport.run_conserves [OF fifo_inv_init(1) [OF assms(1)] assms(2)] fifo_inv_init(2) [OF assms(1)]
  by simp

theorem fifo_delivers_in_order_witness:
  "collect fifo_exec (fifo_delivered False)
      [FfWrite True 2 [1, 2, 3, 4] 2, FfRead False 2 1] (fifo_init (fifo_create 4 2 1024)) @
    fifo_queued False (run_ops fifo_exec
      [FfWrite True 2 [1, 2, 3, 4] 2, FfRead False 2 1] (fifo_init (fifo_create 4 2 1024))) =
    collect fifo_exec (fifo_accepted False)
      [FfWrite True 2 [1, 2, 3, 4] 2, FfRead False 2 1] (fifo_init (fifo_create 4 2 1024))"
proof -
  have "sys_fifo_create 4 2 0 1024 = Ok (fifo_create 4 2 1024)"
    by (simp add: sys_fifo_create_def checked_mul_def)
  then show ?thesis by (rule fifo_delivers_in_order) simp
qed

end
