(* ===== verification/Socket.thy ===== *)
theory Socket
  imports KObject Bytes
begin

text \<open>
  Sockets, \<^verbatim>\<open>zircon-object/src/ipc/socket.rs\<close>: pairs of endpoints with a bounded byte buffer each, in
  stream or datagram mode, with read and write thresholds, shutdown and write dispositions.
  A method takes its endpoint and the peer (\<open>None\<close> when it is gone). The subtractions
  \<^verbatim>\<open>SOCKET_SIZE - len\<close> and the \<^verbatim>\<open>unwrap\<close>s on the datagram queue are branches to \<open>Panic\<close>.
\<close>

record socket =
  sk_base :: kobj
  sk_flags :: u32
  sk_data :: "u8 list"
  datagram_len :: "nat list"
  read_threshold :: nat
  write_threshold :: nat
  read_disabled :: bool

definition SOCKET_SIZE :: nat where "SOCKET_SIZE = 128 * 2048"

definition SOCK_SHUTDOWN_WRITE :: u32 where "SOCK_SHUTDOWN_WRITE = 1"
definition SOCK_SHUTDOWN_READ :: u32 where "SOCK_SHUTDOWN_READ = 2"
definition SOCK_DATAGRAM :: u32 where "SOCK_DATAGRAM = 1"
definition SOCK_CREATE_MASK :: u32 where "SOCK_CREATE_MASK = SOCK_DATAGRAM"
definition SOCK_PEEK :: u32 where "SOCK_PEEK = 8"
definition SOCK_FLAGS_ALL :: u32 where
  "SOCK_FLAGS_ALL = SOCK_SHUTDOWN_WRITE OR SOCK_SHUTDOWN_READ OR SOCK_DATAGRAM OR SOCK_PEEK"

definition socket_create :: "u32 \<Rightarrow> u64 \<Rightarrow> (socket \<times> socket \<times> u64) zx_result" where
  "socket_create options koid =
     (case from_bits SOCK_FLAGS_ALL options of
        None \<Rightarrow> Err INVALID_ARGS
      | Some flags \<Rightarrow>
          if flag_remove flags SOCK_CREATE_MASK \<noteq> 0 then Err INVALID_ARGS
          else let (b0, koid1) = kobject_with_signal SIG_WRITABLE koid;
                   (b1, koid2) = kobject_with_signal SIG_WRITABLE koid1;
                   mk = (\<lambda>b. \<lparr>sk_base = b, sk_flags = flags, sk_data = [], datagram_len = [],
                              read_threshold = 0, write_threshold = 0, read_disabled = False\<rparr>)
               in Ok (mk b0, mk b1, koid2))"

definition write_datagram :: "u8 list \<Rightarrow> socket \<Rightarrow> nat zx_result \<times> socket" where
  "write_datagram data k =
     (if data = [] then (Err INVALID_ARGS, k)
      else (Ok (length data), k\<lparr>sk_data := sk_data k @ data, datagram_len := datagram_len k @ [length data]\<rparr>))"

definition write_stream :: "u8 list \<Rightarrow> socket \<Rightarrow> nat zx_result \<times> socket" where
  "write_stream data k = (Ok (length data), k\<lparr>sk_data := sk_data k @ data\<rparr>)"

definition write_data :: "u8 list \<Rightarrow> socket \<Rightarrow> nat zx_result \<times> socket" where
  "write_data data k =
     (let curr_size = length (sk_data k)
      in if SOCKET_SIZE < curr_size then (Panic, k)
      else let was_empty = (curr_size = 0); rest_size = SOCKET_SIZE - curr_size
      in if rest_size = 0 then (Err SHOULD_WAIT, k)
      else let write_size = min (length data) rest_size;
               (r, k1) =
                 (if contains (sk_flags k) SOCK_DATAGRAM then
                    if SOCKET_SIZE < length data then (Err OUT_OF_RANGE, k)
                    else if rest_size < length data then (Err SHOULD_WAIT, k)
                    else write_datagram (take write_size data) k
                  else write_stream (take write_size data) k)
           in case r of
                Ok actual_count \<Rightarrow>
                  if 0 < actual_count then
                    (Ok actual_count,
                     k1\<lparr>sk_base := kset ((if was_empty then SIG_READABLE else 0) OR
                          (if 0 < read_threshold k1 \<and> read_threshold k1 \<le> length (sk_data k1)
                           then SIG_SOCKET_READ_THRESHOLD else 0)) (sk_base k1)\<rparr>)
                  else (Ok actual_count, k1)
              | _ \<Rightarrow> (r, k1))"

definition socket_write :: "u8 list \<Rightarrow> socket \<Rightarrow> socket option \<Rightarrow> nat zx_result \<times> socket \<times> socket option" where
  "socket_write data k peer =
     (if contains (kobj_signal (sk_base k)) SIG_SOCKET_WRITE_DISABLED then (Err BAD_STATE, k, peer)
      else case peer of
        None \<Rightarrow> (Err PEER_CLOSED, k, None)
      | Some p \<Rightarrow>
          (let (r, p1) = write_data data p
           in case r of
                Ok actual_count \<Rightarrow>
                  if 0 < actual_count then
                    if SOCKET_SIZE < length (sk_data p1) then (Panic, k, Some p1)
                    else let peer_rest_size = SOCKET_SIZE - length (sk_data p1);
                             clear = (if peer_rest_size = 0 then SIG_WRITABLE else 0) OR
                               (if 0 < write_threshold k \<and> peer_rest_size < write_threshold k
                                then SIG_SOCKET_WRITE_THRESHOLD else 0)
                         in (Ok actual_count, k\<lparr>sk_base := kclear clear (sk_base k)\<rparr>, Some p1)
                  else (Ok actual_count, k, Some p1)
              | _ \<Rightarrow> (r, k, Some p1)))"

definition write_size :: "nat \<Rightarrow> socket \<Rightarrow> socket option \<Rightarrow> nat zx_result" where
  "write_size count k peer =
     (if 2 ^ 32 - 1 < count then Err INVALID_ARGS
      else if contains (kobj_signal (sk_base k)) SIG_SOCKET_WRITE_DISABLED then Err BAD_STATE
      else case peer of
        None \<Rightarrow> Err PEER_CLOSED
      | Some p \<Rightarrow>
          if SOCKET_SIZE < length (sk_data p) then Panic
          else let rest_size = SOCKET_SIZE - length (sk_data p)
          in if rest_size = 0 then Err SHOULD_WAIT
          else if contains (sk_flags k) SOCK_DATAGRAM then
            if SOCKET_SIZE < count then Err OUT_OF_RANGE
            else if rest_size < count then Err SHOULD_WAIT
            else Ok count
          else Ok (min count rest_size))"

text \<open>A read into a buffer of \<open>len\<close> bytes returns the bytes copied to the front of the buffer.\<close>

definition read_datagram :: "nat \<Rightarrow> bool \<Rightarrow> socket \<Rightarrow> u8 list zx_result \<times> socket" where
  "read_datagram len peek k =
     (if len = 0 then (Ok [], k)
      else case datagram_len k of
        [] \<Rightarrow> (Panic, k)
      | d # ds \<Rightarrow>
          (let read_size = min len d
           in if peek then (Ok (take read_size (sk_data k)), k)
              else if length (sk_data k) < d then (Panic, k\<lparr>datagram_len := ds\<rparr>)
              else (Ok (take read_size (take d (sk_data k))),
                    k\<lparr>datagram_len := ds, sk_data := drop d (sk_data k)\<rparr>)))"

definition read_stream :: "nat \<Rightarrow> bool \<Rightarrow> socket \<Rightarrow> u8 list zx_result \<times> socket" where
  "read_stream len peek k =
     (let read_size = min len (length (sk_data k))
      in if peek then (Ok (take read_size (sk_data k)), k)
         else (Ok (take read_size (sk_data k)), k\<lparr>sk_data := drop read_size (sk_data k)\<rparr>))"

definition socket_read ::
  "bool \<Rightarrow> nat \<Rightarrow> socket \<Rightarrow> socket option \<Rightarrow> u8 list zx_result \<times> socket \<times> socket option" where
  "socket_read peek len k peer =
     (let curr_size = length (sk_data k)
      in if curr_size = 0 then
        ((if peer = None then Err PEER_CLOSED
          else if read_disabled k then Err BAD_STATE else Err SHOULD_WAIT), k, peer)
      else let was_full = (curr_size = SOCKET_SIZE);
               (r, k1) = (if contains (sk_flags k) SOCK_DATAGRAM then read_datagram len peek k
                          else read_stream len peek k)
      in case r of
           Ok bytes \<Rightarrow>
             if \<not> peek \<and> 0 < length bytes then
               let clear = (if 0 < read_threshold k1 \<and> length (sk_data k1) < read_threshold k1
                            then SIG_SOCKET_READ_THRESHOLD else 0) OR
                           (if sk_data k1 = [] then SIG_READABLE else 0);
                   k2 = k1\<lparr>sk_base := kclear clear (sk_base k1)\<rparr>;
                   peer' = map_option (\<lambda>p. p\<lparr>sk_base :=
                     kset ((if 0 < write_threshold p \<and> write_threshold p \<le> SOCKET_SIZE - length (sk_data k2)
                            then SIG_SOCKET_WRITE_THRESHOLD else 0) OR
                           (if was_full then SIG_WRITABLE else 0)) (sk_base p)\<rparr>) peer
               in (Ok bytes, k2, peer')
             else (Ok bytes, k1, peer)
         | _ \<Rightarrow> (r, k1, peer))"

record socket_info =
  si_options :: u32
  rx_buf_max :: nat
  rx_buf_size :: nat
  rx_buf_available :: nat
  tx_buf_max :: nat
  tx_buf_size :: nat

definition socket_get_info :: "socket \<Rightarrow> socket option \<Rightarrow> socket_info" where
  "socket_get_info k peer =
     \<lparr>si_options = sk_flags k, rx_buf_max = SOCKET_SIZE, rx_buf_size = length (sk_data k),
      rx_buf_available =
        (if contains (sk_flags k) SOCK_DATAGRAM then (case datagram_len k of [] \<Rightarrow> 0 | d # _ \<Rightarrow> d)
         else length (sk_data k)),
      tx_buf_max = (case peer of None \<Rightarrow> 0 | Some p \<Rightarrow> SOCKET_SIZE),
      tx_buf_size = (case peer of None \<Rightarrow> 0 | Some p \<Rightarrow> length (sk_data p))\<rparr>"

definition shutdown_self :: "bool \<Rightarrow> bool \<Rightarrow> socket \<Rightarrow> socket" where
  "shutdown_self rd wr k =
     k\<lparr>read_disabled := read_disabled k \<or> rd,
       sk_base := kchange (if wr then SIG_WRITABLE else 0)
         ((if rd then SIG_SOCKET_PEER_WRITE_DISABLED else 0) OR (if wr then SIG_SOCKET_WRITE_DISABLED else 0))
         (sk_base k)\<rparr>"

definition socket_shutdown :: "bool \<Rightarrow> bool \<Rightarrow> socket \<Rightarrow> socket option \<Rightarrow> socket \<times> socket option" where
  "socket_shutdown rd wr k peer = (shutdown_self rd wr k, map_option (shutdown_self (\<not> rd) (\<not> wr)) peer)"

text \<open>The argument decoding of \<^verbatim>\<open>sys_socket_shutdown\<close>.\<close>

definition sys_socket_shutdown :: "u32 \<Rightarrow> socket \<Rightarrow> socket option \<Rightarrow> socket \<times> socket option" where
  "sys_socket_shutdown options k peer =
     (let opts = options AND SOCK_FLAGS_ALL
      in socket_shutdown (contains opts SOCK_SHUTDOWN_READ) (contains opts SOCK_SHUTDOWN_WRITE) k peer)"

definition apply_disposition :: "bool \<Rightarrow> kobj \<Rightarrow> kobj" where
  "apply_disposition disabled b =
     (if disabled then kchange SIG_WRITABLE SIG_SOCKET_WRITE_DISABLED b
      else kchange SIG_SOCKET_WRITE_DISABLED SIG_WRITABLE b)"

definition apply_peer_disabled :: "bool \<Rightarrow> kobj \<Rightarrow> kobj" where
  "apply_peer_disabled disabled b =
     (if disabled then kset SIG_SOCKET_PEER_WRITE_DISABLED b else kclear SIG_SOCKET_PEER_WRITE_DISABLED b)"

definition dispose_self :: "bool option \<Rightarrow> socket \<times> socket option \<Rightarrow> socket \<times> socket option" where
  "dispose_self disposition kp =
     (case (disposition, kp) of
        (None, _) \<Rightarrow> kp
      | (Some disabled, (k, peer)) \<Rightarrow>
          (k\<lparr>sk_base := apply_disposition disabled (sk_base k)\<rparr>,
           map_option (\<lambda>p. p\<lparr>read_disabled := disabled, sk_base := apply_peer_disabled disabled (sk_base p)\<rparr>) peer))"

definition dispose_peer :: "bool option \<Rightarrow> socket \<times> socket option \<Rightarrow> socket \<times> socket option" where
  "dispose_peer peer_disposition kp =
     (case (peer_disposition, kp) of
        (None, _) \<Rightarrow> kp
      | (Some disabled, (k, None)) \<Rightarrow> (k\<lparr>read_disabled := disabled\<rparr>, None)
      | (Some disabled, (k, Some p)) \<Rightarrow>
          (k\<lparr>read_disabled := disabled, sk_base := apply_peer_disabled disabled (sk_base k)\<rparr>,
           Some (p\<lparr>sk_base := apply_disposition disabled (sk_base p)\<rparr>)))"

definition socket_set_disposition ::
  "bool option \<Rightarrow> bool option \<Rightarrow> socket \<Rightarrow> socket option \<Rightarrow> unit zx_result \<times> socket \<times> socket option" where
  "socket_set_disposition disposition peer_disposition k peer =
     (let blocked = (\<lambda>e. contains (kobj_signal (sk_base e)) SIG_SOCKET_PEER_WRITE_DISABLED \<and> sk_data e \<noteq> [])
      in if disposition = Some False \<and> (case peer of None \<Rightarrow> False | Some p \<Rightarrow> blocked p) then (Err BAD_STATE, k, peer)
      else if peer_disposition = Some False \<and> blocked k then (Err BAD_STATE, k, peer)
      else (Ok (), dispose_peer peer_disposition (dispose_self disposition (k, peer))))"

definition set_read_threshold :: "nat \<Rightarrow> socket \<Rightarrow> unit zx_result \<times> socket" where
  "set_read_threshold threshold k =
     (if SOCKET_SIZE < threshold then (Err INVALID_ARGS, k)
      else (Ok (), k\<lparr>read_threshold := threshold,
                     sk_base := (if threshold = 0 then kclear SIG_SOCKET_READ_THRESHOLD
                                 else if threshold \<le> length (sk_data k) then kset SIG_SOCKET_READ_THRESHOLD
                                 else kclear SIG_SOCKET_READ_THRESHOLD) (sk_base k)\<rparr>))"

definition set_write_threshold :: "nat \<Rightarrow> socket \<Rightarrow> socket option \<Rightarrow> unit zx_result \<times> socket" where
  "set_write_threshold threshold k peer =
     (case peer of
        None \<Rightarrow> (Err PEER_CLOSED, k)
      | Some p \<Rightarrow>
          if SOCKET_SIZE < threshold then (Err INVALID_ARGS, k)
          else if SOCKET_SIZE < length (sk_data p) then (Panic, k)
          else (Ok (), k\<lparr>write_threshold := threshold,
                         sk_base := (if threshold = 0 then kclear SIG_SOCKET_WRITE_THRESHOLD
                                     else if threshold \<le> SOCKET_SIZE - length (sk_data p)
                                     then kset SIG_SOCKET_WRITE_THRESHOLD
                                     else kclear SIG_SOCKET_WRITE_THRESHOLD) (sk_base k)\<rparr>))"

definition get_rx_tx_threshold :: "socket \<Rightarrow> nat \<times> nat" where
  "get_rx_tx_threshold k = (read_threshold k, write_threshold k)"

definition socket_drop :: "socket option \<Rightarrow> socket option" where
  "socket_drop peer = map_option (\<lambda>p. p\<lparr>sk_base := kchange SIG_WRITABLE SIG_PEER_CLOSED (sk_base p)\<rparr>) peer"

section \<open>The pair as a system\<close>

type_synonym socket_sys = "bool \<Rightarrow> socket option"

datatype socket_op =
    SkWrite bool "u8 list"
  | SkRead bool bool nat
  | SkShutdown bool u32
  | SkDisposition bool "bool option" "bool option"
  | SkReadThreshold bool nat
  | SkWriteThreshold bool nat
  | SkDrop bool

fun socket_side :: "socket_op \<Rightarrow> bool" where
  "socket_side (SkWrite s _) = s"
| "socket_side (SkRead s _ _) = s"
| "socket_side (SkShutdown s _) = s"
| "socket_side (SkDisposition s _ _) = s"
| "socket_side (SkReadThreshold s _) = s"
| "socket_side (SkWriteThreshold s _) = s"
| "socket_side (SkDrop s) = s"

text \<open>What one method call leaves of the endpoint it is called on and of the peer.\<close>

fun socket_call :: "socket_op \<Rightarrow> socket \<Rightarrow> socket option \<Rightarrow> socket option \<times> socket option" where
  "socket_call (SkWrite _ data) k peer = (case socket_write data k peer of (_, k', p') \<Rightarrow> (Some k', p'))"
| "socket_call (SkRead _ peek len) k peer = (case socket_read peek len k peer of (_, k', p') \<Rightarrow> (Some k', p'))"
| "socket_call (SkShutdown _ options) k peer = (case sys_socket_shutdown options k peer of (k', p') \<Rightarrow> (Some k', p'))"
| "socket_call (SkDisposition _ d pd) k peer = (case socket_set_disposition d pd k peer of (_, k', p') \<Rightarrow> (Some k', p'))"
| "socket_call (SkReadThreshold _ n) k peer = (Some (snd (set_read_threshold n k)), peer)"
| "socket_call (SkWriteThreshold _ n) k peer = (Some (snd (set_write_threshold n k peer)), peer)"
| "socket_call (SkDrop _) k peer = (None, socket_drop peer)"

definition socket_exec :: "socket_op \<Rightarrow> socket_sys \<Rightarrow> socket_sys" where
  "socket_exec x st =
     (let s = socket_side x
      in case st s of
           None \<Rightarrow> st
         | Some k \<Rightarrow> (case socket_call x k (st (\<not> s)) of (k', p') \<Rightarrow> st(s := k', \<not> s := p')))"

definition socket_init :: "socket \<times> socket \<times> u64 \<Rightarrow> socket_sys" where
  "socket_init r = (case r of (k0, k1, _) \<Rightarrow> (\<lambda>s. Some (if s then k1 else k0)))"

section \<open>Invariant\<close>

definition socket_end_ok :: "socket \<Rightarrow> bool" where
  "socket_end_ok k \<longleftrightarrow>
     length (sk_data k) \<le> SOCKET_SIZE \<and>
     (if contains (sk_flags k) SOCK_DATAGRAM
      then sum_list (datagram_len k) = length (sk_data k) \<and> 0 \<notin> set (datagram_len k)
      else datagram_len k = []) \<and>
     (contains (kobj_signal (sk_base k)) SIG_READABLE \<longleftrightarrow> sk_data k \<noteq> []) \<and>
     (contains (kobj_signal (sk_base k)) SIG_SOCKET_READ_THRESHOLD \<longleftrightarrow>
        0 < read_threshold k \<and> read_threshold k \<le> length (sk_data k))"

text \<open>Towards the peer: the write threshold, as long as there is one to write to.\<close>

definition socket_end_peer :: "socket \<Rightarrow> socket option \<Rightarrow> bool" where
  "socket_end_peer k peer \<longleftrightarrow>
     (contains (kobj_signal (sk_base k)) SIG_PEER_CLOSED \<longleftrightarrow> peer = None) \<and>
     (\<forall>p. peer = Some p \<longrightarrow>
        sk_flags p = sk_flags k \<and>
        (contains (kobj_signal (sk_base k)) SIG_SOCKET_WRITE_THRESHOLD \<longleftrightarrow>
           0 < write_threshold k \<and> write_threshold k \<le> SOCKET_SIZE - length (sk_data p)))"

definition socket_inv :: "socket_sys \<Rightarrow> bool" where
  "socket_inv st \<longleftrightarrow> (\<forall>s k. st s = Some k \<longrightarrow> socket_end_ok k \<and> socket_end_peer k (st (\<not> s)))"

text \<open>A method call keeps the invariant of its endpoint and of the peer.\<close>

definition socket_pair_inv :: "socket option \<Rightarrow> socket option \<Rightarrow> bool" where
  "socket_pair_inv k p \<longleftrightarrow>
     (\<forall>k'. k = Some k' \<longrightarrow> socket_end_ok k' \<and> socket_end_peer k' p) \<and>
     (\<forall>p'. p = Some p' \<longrightarrow> socket_end_ok p' \<and> socket_end_peer p' k)"

lemma socket_inv_pair: "socket_inv st \<longleftrightarrow> socket_pair_inv (st s) (st (\<not> s))"
  by (auto simp: socket_inv_def all_sides [of _ s] socket_pair_inv_def)

lemma bit_if_word: "bit (if c then a else b) n = (if c then bit a n else bit b n)"
  by simp

lemmas sock_flags = flag_simps bit_or_iff bit_if_word

text \<open>The buffer after \<open>n\<close> bytes of \<open>data\<close> were written to it.\<close>

definition wrote :: "nat \<Rightarrow> u8 list \<Rightarrow> socket \<Rightarrow> socket" where
  "wrote n data p =
     (let q = sk_data p @ take n data
      in p\<lparr>sk_data := q,
           datagram_len := datagram_len p @ (if contains (sk_flags p) SOCK_DATAGRAM then [n] else []),
           sk_base := if 0 < n then
               kset ((if sk_data p = [] then SIG_READABLE else 0) OR
                 (if 0 < read_threshold p \<and> read_threshold p \<le> length q then SIG_SOCKET_READ_THRESHOLD else 0))
                 (sk_base p)
             else sk_base p\<rparr>)"

lemma write_data_cases:
  assumes "length (sk_data p) \<le> SOCKET_SIZE"
  obtains (err) e where "write_data data p = (Err e, p)"
    | (ok) n where "write_data data p = (Ok n, wrote n data p)" "n \<le> length data"
      "length (sk_data p) + n \<le> SOCKET_SIZE" "contains (sk_flags p) SOCK_DATAGRAM \<Longrightarrow> n = length data \<and> 0 < n"
proof (cases "length (sk_data p) = SOCKET_SIZE")
  case True
  then show ?thesis by (intro err [of SHOULD_WAIT]) (simp add: write_data_def)
next
  case notfull: False
  with assms have lt: "length (sk_data p) < SOCKET_SIZE" by simp
  define n where "n = min (length data) (SOCKET_SIZE - length (sk_data p))"
  show ?thesis
  proof (cases "contains (sk_flags p) SOCK_DATAGRAM")
    case True
    show ?thesis
    proof (cases "SOCKET_SIZE - length (sk_data p) < length data \<or> data = []")
      case long: True
      then have "\<exists>e. write_data data p = (Err e, p)"
        using True lt by (auto simp: write_data_def write_datagram_def Let_def)
      then show ?thesis using err by blast
    next
      case False
      then have "length data \<le> SOCKET_SIZE" by linarith
      with False have "write_data data p = (Ok (length data), wrote (length data) data p)"
        using True lt by (simp add: write_data_def write_datagram_def wrote_def Let_def)
      then show ?thesis using False lt by (intro ok [of "length data"]) auto
    qed
  next
    case False
    then have "write_data data p = (Ok n, wrote n data p)"
      using lt by (simp add: write_data_def write_stream_def wrote_def Let_def n_def)
    moreover have "n \<le> length data" "length (sk_data p) + n \<le> SOCKET_SIZE"
      using lt by (auto simp: n_def)
    ultimately show ?thesis using False by (intro ok [of n]) auto
  qed
qed

lemma wrote_simps [simp]:
  "sk_flags (wrote n data p) = sk_flags p" "write_threshold (wrote n data p) = write_threshold p"
  "read_threshold (wrote n data p) = read_threshold p"
  "read_disabled (wrote n data p) = read_disabled p" "sk_data (wrote n data p) = sk_data p @ take n data"
  by (simp_all add: wrote_def Let_def)

lemma wrote_signal:
  "k \<noteq> 0 \<Longrightarrow> k \<noteq> 10 \<Longrightarrow> bit (kobj_signal (sk_base (wrote n data p))) k = bit (kobj_signal (sk_base p)) k"
  by (simp add: wrote_def Let_def sock_flags)

lemma wrote_ok:
  assumes ok: "socket_end_ok p" and n: "n \<le> length data" "length (sk_data p) + n \<le> SOCKET_SIZE"
    "contains (sk_flags p) SOCK_DATAGRAM \<Longrightarrow> 0 < n"
  shows "socket_end_ok (wrote n data p)"
proof -
  have "contains (kobj_signal (sk_base (wrote n data p))) SIG_READABLE \<longleftrightarrow> sk_data p @ take n data \<noteq> []"
    using ok n(1) by (auto simp: wrote_def Let_def sock_flags socket_end_ok_def)
  moreover have "contains (kobj_signal (sk_base (wrote n data p))) SIG_SOCKET_READ_THRESHOLD \<longleftrightarrow>
    0 < read_threshold p \<and> read_threshold p \<le> length (sk_data p @ take n data)"
    using ok n(1) by (auto simp: wrote_def Let_def sock_flags socket_end_ok_def)
  ultimately show ?thesis
    using ok n unfolding socket_end_ok_def by (simp add: wrote_def Let_def)
qed

lemma socket_write_pair:
  assumes inv: "socket_pair_inv (Some k) peer" and w: "socket_write data k peer = (r, k', peer')"
  shows "r \<noteq> Panic \<and> socket_pair_inv (Some k') peer'"
proof (cases "contains (kobj_signal (sk_base k)) SIG_SOCKET_WRITE_DISABLED \<or> peer = None")
  case True
  with inv w show ?thesis by (auto simp: socket_write_def split: if_splits)
next
  case False
  then obtain p where p: "peer = Some p" by auto
  have ok: "socket_end_ok k" "socket_end_peer k (Some p)" "socket_end_ok p" "socket_end_peer p (Some k)"
    using inv p by (auto simp: socket_pair_inv_def)
  then have "length (sk_data p) \<le> SOCKET_SIZE" by (simp add: socket_end_ok_def)
  then show ?thesis
  proof (cases rule: write_data_cases [where data = data])
    case (err e)
    with w False p inv show ?thesis by (auto simp: socket_write_def)
  next
    case (ok n)
    let ?p1 = "wrote n data p"
    define k1 where "k1 = (if 0 < n then
      k\<lparr>sk_base := kclear ((if SOCKET_SIZE - length (sk_data ?p1) = 0 then SIG_WRITABLE else 0) OR
        (if 0 < write_threshold k \<and> SOCKET_SIZE - length (sk_data ?p1) < write_threshold k
         then SIG_SOCKET_WRITE_THRESHOLD else 0)) (sk_base k)\<rparr> else k)"
    have eff: "r = Ok n" "k' = k1" "peer' = Some ?p1"
      using w False p ok by (auto simp: socket_write_def k1_def Let_def split: if_splits)
    have "socket_end_ok k1"
      using \<open>socket_end_ok k\<close> by (auto simp: k1_def socket_end_ok_def sock_flags)
    moreover have "socket_end_peer k1 (Some ?p1)"
      using \<open>socket_end_peer k (Some p)\<close> ok(2) by (auto simp: k1_def socket_end_peer_def sock_flags)
    moreover have "socket_end_peer ?p1 (Some k1)"
      using \<open>socket_end_peer p (Some k)\<close> by (auto simp: k1_def socket_end_peer_def sock_flags wrote_signal)
    moreover have "socket_end_ok ?p1"
      using \<open>socket_end_ok p\<close> ok by (intro wrote_ok) auto
    ultimately show ?thesis using eff by (simp add: socket_pair_inv_def)
  qed
qed

text \<open>The buffer after \<open>n\<close> bytes left it, of a datagram buffer with the first datagram.\<close>

definition consumed :: "nat \<Rightarrow> socket \<Rightarrow> socket" where
  "consumed n k =
     (let q = drop n (sk_data k);
          k1 = (if contains (sk_flags k) SOCK_DATAGRAM then k\<lparr>datagram_len := tl (datagram_len k)\<rparr> else k)
      in k1\<lparr>sk_data := q,
           sk_base := kclear ((if 0 < read_threshold k \<and> length q < read_threshold k
                               then SIG_SOCKET_READ_THRESHOLD else 0) OR
                              (if q = [] then SIG_READABLE else 0)) (sk_base k)\<rparr>)"

definition room_signalled :: "bool \<Rightarrow> nat \<Rightarrow> socket \<Rightarrow> socket" where
  "room_signalled was_full room p =
     p\<lparr>sk_base := kset ((if 0 < write_threshold p \<and> write_threshold p \<le> room
                          then SIG_SOCKET_WRITE_THRESHOLD else 0) OR
                         (if was_full then SIG_WRITABLE else 0)) (sk_base p)\<rparr>"

lemma socket_read_cases:
  assumes ok: "socket_end_ok k"
  obtains (same) r where "socket_read peek len k peer = (r, k, peer)" "r \<noteq> Panic" "peek \<or> (\<forall>bs. r = Ok bs \<longrightarrow> bs = [])"
    | (took) n where "socket_read peek len k peer =
          (Ok (take len (take n (sk_data k))), consumed n k,
           map_option (room_signalled (length (sk_data k) = SOCKET_SIZE) (SOCKET_SIZE - (length (sk_data k) - n))) peer)"
        "\<not> peek" "0 < len" "0 < n" "n \<le> length (sk_data k)"
        "if contains (sk_flags k) SOCK_DATAGRAM then \<exists>ds. datagram_len k = n # ds else n = min len (length (sk_data k))"
proof (cases "sk_data k = [] \<or> len = 0 \<or> peek")
  case True
  have "\<exists>r. socket_read peek len k peer = (r, k, peer) \<and> r \<noteq> Panic \<and> (peek \<or> (\<forall>bs. r = Ok bs \<longrightarrow> bs = []))"
    using True ok
    by (auto simp: socket_read_def read_stream_def read_datagram_def socket_end_ok_def Let_def split: list.splits)
  then show ?thesis using same by blast
next
  case False
  show ?thesis
  proof (cases "contains (sk_flags k) SOCK_DATAGRAM")
    case dg: True
    then obtain d ds where d: "datagram_len k = d # ds" "0 < d" "d \<le> length (sk_data k)"
      using ok False by (cases "datagram_len k") (auto simp: socket_end_ok_def)
    have bytes: "take (min len d) (take d (sk_data k)) = take len (take d (sk_data k))"
      by (simp add: min.commute)
    have "length (take (min len d) (take d (sk_data k))) \<noteq> 0" using d False by simp
    then have "socket_read peek len k peer = (Ok (take len (take d (sk_data k))), consumed d k,
      map_option (room_signalled (length (sk_data k) = SOCKET_SIZE) (SOCKET_SIZE - (length (sk_data k) - d))) peer)"
      using False dg d unfolding socket_read_def read_datagram_def bytes
      by (simp add: consumed_def room_signalled_def Let_def cong: map_option_cong)
    then show ?thesis using False dg d by (intro took [of d]) simp_all
  next
    case st: False
    define n where "n = min len (length (sk_data k))"
    have n: "0 < n" "n \<le> length (sk_data k)" using False by (auto simp: n_def)
    have bytes: "take n (sk_data k) = take len (take n (sk_data k))"
      by (simp add: n_def)
    have "length (take n (sk_data k)) \<noteq> 0" using n by simp
    then have "socket_read peek len k peer = (Ok (take len (take n (sk_data k))), consumed n k,
      map_option (room_signalled (length (sk_data k) = SOCKET_SIZE) (SOCKET_SIZE - (length (sk_data k) - n))) peer)"
      using False st unfolding socket_read_def read_stream_def n_def [symmetric] bytes [symmetric]
      by (simp add: consumed_def room_signalled_def Let_def n_def [symmetric] cong: map_option_cong)
    then show ?thesis using False st n by (intro took [of n]) (simp_all add: n_def)
  qed
qed

lemma consumed_simps [simp]:
  "sk_flags (consumed n k) = sk_flags k" "write_threshold (consumed n k) = write_threshold k"
  "sk_data (consumed n k) = drop n (sk_data k)"
  "datagram_len (consumed n k) =
     (if contains (sk_flags k) SOCK_DATAGRAM then tl (datagram_len k) else datagram_len k)"
  by (simp_all add: consumed_def Let_def)

lemma consumed_signal:
  "i \<noteq> 0 \<Longrightarrow> i \<noteq> 10 \<Longrightarrow> bit (kobj_signal (sk_base (consumed n k))) i = bit (kobj_signal (sk_base k)) i"
  by (simp add: consumed_def Let_def sock_flags)

lemma consumed_ok:
  assumes ok: "socket_end_ok k" and n: "0 < n" "n \<le> length (sk_data k)"
    and dg: "if contains (sk_flags k) SOCK_DATAGRAM then \<exists>ds. datagram_len k = n # ds else True"
  shows "socket_end_ok (consumed n k)"
proof -
  have "contains (kobj_signal (sk_base (consumed n k))) SIG_READABLE \<longleftrightarrow> drop n (sk_data k) \<noteq> []"
    using ok n by (auto simp: consumed_def Let_def sock_flags socket_end_ok_def)
  moreover have "contains (kobj_signal (sk_base (consumed n k))) SIG_SOCKET_READ_THRESHOLD \<longleftrightarrow>
    0 < read_threshold k \<and> read_threshold k \<le> length (drop n (sk_data k))"
    using ok n by (auto simp: consumed_def Let_def sock_flags socket_end_ok_def)
  moreover have "read_threshold (consumed n k) = read_threshold k"
    by (simp add: consumed_def Let_def)
  ultimately show ?thesis
    using ok n dg unfolding socket_end_ok_def by (auto split: if_splits)
qed

lemma room_signalled_simps [simp]:
  "sk_flags (room_signalled f n p) = sk_flags p" "write_threshold (room_signalled f n p) = write_threshold p"
  "sk_data (room_signalled f n p) = sk_data p" "datagram_len (room_signalled f n p) = datagram_len p"
  "socket_end_ok (room_signalled f n p) = socket_end_ok p"
  by (simp_all add: room_signalled_def socket_end_ok_def sock_flags)

lemma room_signalled_peer:
  assumes "socket_end_peer p (Some k)" and "length (sk_data k') \<le> length (sk_data k)" and "sk_flags k' = sk_flags k"
  shows "socket_end_peer (room_signalled f (SOCKET_SIZE - length (sk_data k')) p) (Some k')"
  using assms by (auto simp: room_signalled_def socket_end_peer_def sock_flags)

lemma socket_read_pair:
  assumes inv: "socket_pair_inv (Some k) peer" and r: "socket_read peek len k peer = (r, k', peer')"
  shows "r \<noteq> Panic \<and> socket_pair_inv (Some k') peer'"
proof -
  have ok: "socket_end_ok k" "socket_end_peer k peer" using inv by (auto simp: socket_pair_inv_def)
  from ok(1) show ?thesis
  proof (cases rule: socket_read_cases [where peek = peek and len = len and peer = peer])
    case (same r')
    with r inv show ?thesis by simp
  next
    case (took n)
    have "socket_end_ok (consumed n k)"
      using ok(1) took by (intro consumed_ok) (auto split: if_splits)
    moreover have "length (sk_data k) - n = length (sk_data (consumed n k))" by simp
    moreover have "socket_end_peer (consumed n k) (map_option (room_signalled f m) peer)" for f m
      using ok(2) by (cases peer) (auto simp: socket_end_peer_def sock_flags consumed_signal)
    moreover have "socket_end_peer (room_signalled f (SOCKET_SIZE - length (sk_data (consumed n k))) p) (Some (consumed n k))"
      if "peer = Some p" for f p
      using inv that by (intro room_signalled_peer [where k = k]) (auto simp: socket_pair_inv_def)
    moreover have "socket_end_ok p" if "peer = Some p" for p
      using inv that by (auto simp: socket_pair_inv_def)
    ultimately show ?thesis
      using r took by (cases peer) (auto simp: socket_pair_inv_def)
  qed
qed

text \<open>Shutdown and dispositions touch nothing the invariant speaks of.\<close>

definition sock_same :: "socket \<Rightarrow> socket \<Rightarrow> bool" where
  "sock_same k' k \<longleftrightarrow>
     sk_flags k' = sk_flags k \<and> sk_data k' = sk_data k \<and> datagram_len k' = datagram_len k \<and>
     read_threshold k' = read_threshold k \<and> write_threshold k' = write_threshold k \<and>
     (\<forall>i \<in> {0, 2, 10, 11}. bit (kobj_signal (sk_base k')) i = bit (kobj_signal (sk_base k)) i)"

lemma sock_same_refl [simp]: "sock_same k k"
  by (simp add: sock_same_def)

lemma sock_same_trans: "sock_same a b \<Longrightarrow> sock_same b c \<Longrightarrow> sock_same a c"
  by (simp add: sock_same_def)

lemma sock_same_ok: "sock_same k' k \<Longrightarrow> socket_end_ok k \<Longrightarrow> socket_end_ok k'"
  by (simp add: socket_end_ok_def sock_same_def contains_SIG)

lemma sock_same_peer:
  "sock_same k' k \<Longrightarrow> rel_option sock_same q' q \<Longrightarrow> socket_end_peer k q \<Longrightarrow> socket_end_peer k' q'"
  by (cases q; cases q') (simp_all add: socket_end_peer_def sock_same_def contains_SIG)

lemma sock_same_pair:
  assumes inv: "socket_pair_inv (Some k) peer" and k: "sock_same k' k" and p: "rel_option sock_same peer' peer"
  shows "socket_pair_inv (Some k') peer'"
proof (cases peer)
  case None
  with p have "peer' = None" by simp
  with inv None sock_same_ok [OF k] sock_same_peer [OF k p] show ?thesis
    by (simp add: socket_pair_inv_def)
next
  case (Some q)
  with p obtain q' where q': "peer' = Some q'" "sock_same q' q" by (cases peer') auto
  have "rel_option sock_same (Some k') (Some k)" using k by simp
  with inv Some q' sock_same_ok [OF k] sock_same_ok [OF q'(2)] sock_same_peer [OF k p]
    sock_same_peer [OF q'(2), of "Some k'" "Some k"]
  show ?thesis by (simp add: socket_pair_inv_def)
qed

lemma sock_same_shutdown: "sock_same (shutdown_self a b k) k"
  by (simp add: sock_same_def shutdown_self_def sock_flags)

lemma sock_same_dispositions:
  "sock_same (k\<lparr>sk_base := apply_disposition d (sk_base k)\<rparr>) k"
  "sock_same (k\<lparr>read_disabled := r, sk_base := apply_peer_disabled d (sk_base k)\<rparr>) k"
  "sock_same (k\<lparr>read_disabled := r\<rparr>) k"
  by (simp_all add: sock_same_def apply_disposition_def apply_peer_disabled_def sock_flags)

lemma sock_same_option_refl [simp]: "rel_option sock_same p p"
  by (cases p) simp_all

lemma sock_same_option_trans:
  "rel_option sock_same a b \<Longrightarrow> rel_option sock_same b c \<Longrightarrow> rel_option sock_same a c"
  by (cases a; cases b; cases c) (auto intro: sock_same_trans)

lemma sock_same_dispose_self:
  "sock_same (fst (dispose_self d (k, p))) k \<and> rel_option sock_same (snd (dispose_self d (k, p))) p"
  by (cases d; cases p) (simp_all add: dispose_self_def sock_same_dispositions)

lemma sock_same_dispose_peer:
  "sock_same (fst (dispose_peer d (k, p))) k \<and> rel_option sock_same (snd (dispose_peer d (k, p))) p"
  by (cases d; cases p) (simp_all add: dispose_peer_def sock_same_dispositions)

lemma sock_same_set_disposition:
  "sock_same (fst (snd (socket_set_disposition d pd k peer))) k \<and>
   rel_option sock_same (snd (snd (socket_set_disposition d pd k peer))) peer"
proof -
  obtain k1 p1 where 1: "dispose_self d (k, peer) = (k1, p1)" by fastforce
  obtain k2 p2 where 2: "dispose_peer pd (k1, p1) = (k2, p2)" by fastforce
  have "sock_same k2 k" "rel_option sock_same p2 peer"
    using sock_same_dispose_self [of d k peer] sock_same_dispose_peer [of pd k1 p1] 1 2
    by (auto intro: sock_same_trans sock_same_option_trans)
  with 1 2 show ?thesis by (simp add: socket_set_disposition_def Let_def)
qed

lemma socket_end_peer_cong:
  assumes "sk_flags k' = sk_flags k" "write_threshold k' = write_threshold k"
    "bit (kobj_signal (sk_base k')) 2 = bit (kobj_signal (sk_base k)) 2"
    "bit (kobj_signal (sk_base k')) 11 = bit (kobj_signal (sk_base k)) 11"
    "map_option (\<lambda>p. (sk_flags p, sk_data p)) q' = map_option (\<lambda>p. (sk_flags p, sk_data p)) q"
  shows "socket_end_peer k' q' = socket_end_peer k q"
  using assms by (cases q; cases q') (simp_all add: socket_end_peer_def contains_SIG)

lemma set_read_threshold_inv:
  assumes "socket_end_ok k"
  shows "socket_end_ok (snd (set_read_threshold n k))"
    "socket_end_peer (snd (set_read_threshold n k)) q = socket_end_peer k q"
    "socket_end_peer p (Some (snd (set_read_threshold n k))) = socket_end_peer p (Some k)"
proof -
  show "socket_end_ok (snd (set_read_threshold n k))"
    using assms by (simp add: set_read_threshold_def socket_end_ok_def flag_simps)
qed (rule socket_end_peer_cong; simp add: set_read_threshold_def flag_simps)+

lemma set_write_threshold_inv:
  assumes "socket_end_ok p" and "socket_end_peer k (Some p)"
  shows "socket_end_ok (snd (set_write_threshold n k (Some p))) = socket_end_ok k"
    "socket_end_peer (snd (set_write_threshold n k (Some p))) (Some p)"
    "socket_end_peer p (Some (snd (set_write_threshold n k (Some p)))) = socket_end_peer p (Some k)"
    "fst (set_write_threshold n k (Some p)) \<noteq> Panic"
proof -
  have "length (sk_data p) \<le> SOCKET_SIZE" using assms(1) by (simp add: socket_end_ok_def)
  with assms(2) show "socket_end_peer (snd (set_write_threshold n k (Some p))) (Some p)"
    "fst (set_write_threshold n k (Some p)) \<noteq> Panic"
    by (auto simp: set_write_threshold_def socket_end_peer_def flag_simps)
  show "socket_end_ok (snd (set_write_threshold n k (Some p))) = socket_end_ok k"
    by (simp add: set_write_threshold_def socket_end_ok_def flag_simps)
qed (rule socket_end_peer_cong; simp add: set_write_threshold_def flag_simps)

lemma socket_drop_inv:
  "socket_end_ok (p\<lparr>sk_base := kchange SIG_WRITABLE SIG_PEER_CLOSED (sk_base p)\<rparr>) = socket_end_ok p"
  "socket_end_peer (p\<lparr>sk_base := kchange SIG_WRITABLE SIG_PEER_CLOSED (sk_base p)\<rparr>) None"
  by (simp_all add: socket_end_ok_def socket_end_peer_def flag_simps)

lemma socket_call_pair:
  assumes inv: "socket_pair_inv (Some k) peer"
  shows "socket_pair_inv (fst (socket_call x k peer)) (snd (socket_call x k peer))"
proof (cases x)
  case (SkWrite s data)
  then show ?thesis
    using socket_write_pair [OF inv, of data] by (cases "socket_write data k peer") auto
next
  case (SkRead s peek len)
  then show ?thesis
    using socket_read_pair [OF inv, of peek len] by (cases "socket_read peek len k peer") auto
next
  case (SkShutdown s options)
  have "rel_option sock_same (map_option (shutdown_self a b) peer) peer" for a b
    by (cases peer) (simp_all add: sock_same_shutdown)
  then show ?thesis
    unfolding SkShutdown
    by (simp add: sys_socket_shutdown_def socket_shutdown_def Let_def sock_same_pair [OF inv] sock_same_shutdown)
next
  case (SkDisposition s d pd)
  with sock_same_pair [OF inv] sock_same_set_disposition [of d pd k peer] show ?thesis
    by (cases "socket_set_disposition d pd k peer") simp
next
  case (SkReadThreshold s n)
  with inv show ?thesis
    by (simp add: socket_pair_inv_def set_read_threshold_inv)
next
  case (SkWriteThreshold s n)
  then show ?thesis
  proof (cases peer)
    case None
    with inv SkWriteThreshold show ?thesis by (simp add: set_write_threshold_def)
  next
    case (Some p)
    with inv SkWriteThreshold show ?thesis by (simp add: socket_pair_inv_def set_write_threshold_inv)
  qed
next
  case (SkDrop s)
  with inv show ?thesis
    by (cases peer) (simp_all add: socket_drop_def socket_pair_inv_def socket_drop_inv)
qed

lemma socket_inv_exec:
  assumes "socket_inv st"
  shows "socket_inv (socket_exec x st)"
proof (cases "st (socket_side x)")
  case (Some k)
  let ?s = "socket_side x"
  have "socket_pair_inv (Some k) (st (\<not> ?s))"
    using assms Some by (simp add: socket_inv_pair [of _ ?s])
  from socket_call_pair [OF this, of x] show ?thesis
    using Some by (simp add: socket_exec_def Let_def case_prod_unfold socket_inv_pair [of _ ?s])
qed (simp add: socket_exec_def assms)

end
