(* ===== verification/Socket_Data.thy ===== *)
theory Socket_Data
  imports Socket
begin

text \<open>
  What a socket transports: in stream mode the bytes reads return are the bytes writes reported, in
  order; in datagram mode every read takes one whole datagram off the queue. Also what shutdown
  really does to the peer.
\<close>

section \<open>Data moves once and in order\<close>

text \<open>The part of an endpoint that carries data, and how each kind of call changes it.\<close>

definition sk_content :: "socket \<Rightarrow> u32 \<times> u8 list \<times> nat list" where
  "sk_content k = (sk_flags k, sk_data k, datagram_len k)"

lemma socket_write_content:
  assumes inv: "socket_pair_inv (Some k) peer" and w: "socket_write data k peer = (r, k', peer')"
  shows "sk_content k' = sk_content k \<and>
    (case r of
       Ok n \<Rightarrow> n \<le> length data \<and> (\<exists>p. peer = Some p \<and> peer' = Some (wrote n data p) \<and>
                (contains (sk_flags p) SOCK_DATAGRAM \<longrightarrow> n = length data \<and> 0 < n))
     | _ \<Rightarrow> peer' = peer)"
proof (cases "contains (kobj_signal (sk_base k)) SIG_SOCKET_WRITE_DISABLED \<or> peer = None")
  case True
  with w show ?thesis by (auto simp: socket_write_def split: if_splits)
next
  case False
  then obtain p where p: "peer = Some p" by auto
  with inv have "length (sk_data p) \<le> SOCKET_SIZE" by (simp add: socket_pair_inv_def socket_end_ok_def)
  then show ?thesis
  proof (cases rule: write_data_cases [where data = data])
    case (err e)
    with w False p show ?thesis by (auto simp: socket_write_def)
  next
    case (ok n)
    with w False p show ?thesis
      by (auto simp: socket_write_def sk_content_def Let_def split: if_splits)
  qed
qed

lemma room_signalled_content [simp]: "sk_content (room_signalled f n p) = sk_content p"
  by (simp add: sk_content_def)

lemma sock_same_content: "sock_same a b \<Longrightarrow> sk_content a = sk_content b"
  by (simp add: sock_same_def sk_content_def)

lemma sock_same_content_option: "rel_option sock_same p' p \<Longrightarrow> map_option sk_content p' = map_option sk_content p"
  by (cases p; cases p') (auto simp: sock_same_content)

fun socket_moves :: "socket_op \<Rightarrow> bool" where
  "socket_moves (SkWrite _ _) = True"
| "socket_moves (SkRead _ _ _) = True"
| "socket_moves (SkDrop _) = True"
| "socket_moves _ = False"

lemma socket_other_content:
  assumes "\<not> socket_moves x"
  shows "map_option sk_content (fst (socket_call x k peer)) = Some (sk_content k) \<and>
    map_option sk_content (snd (socket_call x k peer)) = map_option sk_content peer"
proof (cases x)
  case (SkShutdown s options)
  have "rel_option sock_same (map_option (shutdown_self a b) peer) peer" for a b
    by (cases peer) (simp_all add: sock_same_shutdown)
  then show ?thesis
    by (simp add: SkShutdown sys_socket_shutdown_def socket_shutdown_def Let_def
        sock_same_content [OF sock_same_shutdown] sock_same_content_option)
next
  case (SkDisposition s d pd)
  then show ?thesis
    using sock_same_set_disposition [of d pd k peer]
    by (simp add: case_prod_unfold sock_same_content sock_same_content_option)
next
  case (SkReadThreshold s n)
  then show ?thesis by (simp add: set_read_threshold_def sk_content_def)
next
  case (SkWriteThreshold s n)
  then show ?thesis by (simp add: set_write_threshold_def sk_content_def split: option.split)
qed (use assms in simp_all)

fun socket_keeps :: "bool \<Rightarrow> socket_op \<Rightarrow> bool" where
  "socket_keeps s (SkDrop s') = (s' \<noteq> s)"
| "socket_keeps s _ = True"

definition socket_queued :: "bool \<Rightarrow> socket_sys \<Rightarrow> u8 list" where
  "socket_queued s st = (case st s of None \<Rightarrow> [] | Some k \<Rightarrow> sk_data k)"

text \<open>What the peer's write of an operation added for \<open>s\<close> to read: the bytes it reported as written.\<close>

definition socket_accepted :: "bool \<Rightarrow> socket_op \<Rightarrow> socket_sys \<Rightarrow> u8 list" where
  "socket_accepted s x st =
     (case (x, st (\<not> s)) of
        (SkWrite s' data, Some k) \<Rightarrow>
          if s' = (\<not> s) then (case fst (socket_write data k (st s)) of Ok n \<Rightarrow> take n data | _ \<Rightarrow> []) else []
      | _ \<Rightarrow> [])"

definition socket_delivered :: "bool \<Rightarrow> socket_op \<Rightarrow> socket_sys \<Rightarrow> u8 list" where
  "socket_delivered s x st =
     (case (x, st s) of
        (SkRead s' False len, Some k) \<Rightarrow>
          if s' = s then (case fst (socket_read False len k (st (\<not> s))) of Ok bs \<Rightarrow> bs | _ \<Rightarrow> []) else []
      | _ \<Rightarrow> [])"

text \<open>How one operation changes what side \<open>s\<close> holds.\<close>

definition side_content :: "bool \<Rightarrow> socket_sys \<Rightarrow> (u32 \<times> u8 list \<times> nat list) option" where
  "side_content s st = map_option sk_content (st s)"

lemma side_content_simps:
  "socket_queued s st = (case side_content s st of None \<Rightarrow> [] | Some (_, d, _) \<Rightarrow> d)"
  by (auto simp: socket_queued_def side_content_def sk_content_def split: option.split)

lemma socket_exec_other:
  assumes "\<not> socket_moves x"
  shows "side_content s (socket_exec x st) = side_content s st"
  using socket_other_content [OF assms]
  by (cases "s = socket_side x") (auto simp: side_content_def socket_exec_def Let_def case_prod_unfold split: option.split)

lemma socket_drop_content: "map_option sk_content (socket_drop p) = map_option sk_content p"
  by (cases p) (simp_all add: socket_drop_def sk_content_def)

lemma socket_exec_drop: "side_content s (socket_exec (SkDrop (\<not> s)) st) = side_content s st"
  by (cases "st (\<not> s)") (simp_all add: side_content_def socket_exec_def socket_drop_content)

lemma socket_exec_own_write:
  assumes "socket_inv st"
  shows "side_content s (socket_exec (SkWrite s data) st) = side_content s st"
proof (cases "st s")
  case (Some k)
  have "socket_pair_inv (Some k) (st (\<not> s))" using assms Some by (simp add: socket_inv_pair [of _ s])
  from socket_write_content [OF this, of data] Some show ?thesis
    by (cases "socket_write data k (st (\<not> s))") (auto simp: side_content_def socket_exec_def)
qed (simp add: socket_exec_def)

lemma socket_exec_peer_read:
  assumes "socket_inv st"
  shows "side_content s (socket_exec (SkRead (\<not> s) peek len) st) = side_content s st"
proof (cases "st (\<not> s)")
  case (Some k)
  then have "socket_end_ok k" using assms by (auto simp: socket_inv_def)
  then show ?thesis
    by (cases rule: socket_read_cases [where peek = peek and len = len and peer = "st s"])
      (use Some in \<open>auto simp: side_content_def socket_exec_def option.map_comp o_def\<close>)
qed (simp add: socket_exec_def)

lemma socket_exec_peer_write:
  assumes "socket_inv st" and "st (\<not> s) = Some k"
  shows "side_content s (socket_exec (SkWrite (\<not> s) data) st) =
    (case fst (socket_write data k (st s)) of
       Ok n \<Rightarrow> map_option (\<lambda>p. sk_content (wrote n data p)) (st s)
     | _ \<Rightarrow> side_content s st)"
proof -
  have "socket_pair_inv (Some k) (st s)" using assms by (simp add: socket_inv_pair [of _ "\<not> s"])
  from socket_write_content [OF this, of data] assms(2) show ?thesis
    by (cases "socket_write data k (st s)") (auto simp: side_content_def socket_exec_def split: result.splits)
qed

lemma socket_exec_own_read:
  assumes "socket_inv st" and "st s = Some k"
  obtains (same) "side_content s (socket_exec (SkRead s peek len) st) = Some (sk_content k)"
      "peek \<or> (\<forall>bs. fst (socket_read peek len k (st (\<not> s))) = Ok bs \<longrightarrow> bs = [])"
    | (took) n where "\<not> peek" "fst (socket_read peek len k (st (\<not> s))) = Ok (take len (take n (sk_data k)))"
      "side_content s (socket_exec (SkRead s peek len) st) = Some (sk_content (consumed n k))" "0 < len" "0 < n"
      "if contains (sk_flags k) SOCK_DATAGRAM then \<exists>ds. datagram_len k = n # ds else n = min len (length (sk_data k))"
proof -
  have "socket_end_ok k" using assms by (auto simp: socket_inv_def)
  then show ?thesis
  proof (cases rule: socket_read_cases [where peek = peek and len = len and peer = "st (\<not> s)"])
    case (same r)
    with assms(2) show ?thesis by (intro that(1)) (simp_all add: side_content_def socket_exec_def)
  next
    case (took n)
    with assms(2) show ?thesis by (intro that(2) [of n]) (simp_all add: side_content_def socket_exec_def)
  qed
qed

lemma wrote_content:
  "sk_content (wrote n data p) =
     (sk_flags p, sk_data p @ take n data,
      datagram_len p @ (if contains (sk_flags p) SOCK_DATAGRAM then [n] else []))"
  by (simp add: sk_content_def wrote_def Let_def)

lemma consumed_content:
  "sk_content (consumed n k) =
     (sk_flags k, drop n (sk_data k),
      if contains (sk_flags k) SOCK_DATAGRAM then tl (datagram_len k) else datagram_len k)"
  by (simp add: sk_content_def)

lemma socket_exec_flags:
  assumes "socket_inv st" and "socket_exec x st s = Some k'"
  shows "\<exists>k. st s = Some k \<and> sk_flags k' = sk_flags k"
proof -
  have goal: "\<exists>k. st s = Some k \<and> sk_flags k' = sk_flags k"
    if "map_option fst (side_content s (socket_exec x st)) = map_option fst (side_content s st)"
    using that assms(2) by (cases "st s") (auto simp: side_content_def sk_content_def)
  show ?thesis
  proof (cases "socket_moves x")
    case False
    then show ?thesis using socket_exec_other goal by simp
  next
    case True
    show ?thesis
    proof (cases x)
      case (SkWrite s' data)
      show ?thesis
      proof (cases "s' = s")
        case True
        with SkWrite goal socket_exec_own_write [OF assms(1)] show ?thesis by simp
      next
        case False
        then have s': "s' = (\<not> s)" by simp
        show ?thesis
        proof (cases "st (\<not> s)")
          case None
          with assms(2) SkWrite s' show ?thesis by (simp add: socket_exec_def)
        next
          case (Some k)
          show ?thesis
            by (rule goal, unfold SkWrite s' socket_exec_peer_write [OF assms(1) Some])
              (auto simp: wrote_content side_content_def sk_content_def option.map_comp o_def split: result.splits)
        qed
      qed
    next
      case (SkRead s' peek len)
      show ?thesis
      proof (cases "s' = s")
        case False
        then have s': "s' = (\<not> s)" by simp
        with SkRead goal socket_exec_peer_read [OF assms(1)] show ?thesis by simp
      next
        case True
        show ?thesis
        proof (cases "st s")
          case None
          with assms(2) SkRead True show ?thesis by (simp add: socket_exec_def)
        next
          case (Some k)
          show ?thesis
            by (rule goal, unfold SkRead True, cases rule: socket_exec_own_read [OF assms(1) Some, of peek len])
              (simp_all add: consumed_content sk_content_def, simp_all add: side_content_def Some sk_content_def)
        qed
      qed
    next
      case (SkDrop s')
      have "s' = (\<not> s)"
        using assms(2) SkDrop by (cases "s' = s"; cases "st s") (auto simp: socket_exec_def)
      with SkDrop goal socket_exec_drop show ?thesis by simp
    qed (use True in simp_all)
  qed
qed

definition stream_inv :: "socket_sys \<Rightarrow> bool" where
  "stream_inv st \<longleftrightarrow> socket_inv st \<and> (\<forall>s k. st s = Some k \<longrightarrow> \<not> contains (sk_flags k) SOCK_DATAGRAM)"

definition datagram_inv :: "socket_sys \<Rightarrow> bool" where
  "datagram_inv st \<longleftrightarrow> socket_inv st \<and> (\<forall>s k. st s = Some k \<longrightarrow> contains (sk_flags k) SOCK_DATAGRAM)"

lemma stream_inv_exec: "stream_inv st \<Longrightarrow> stream_inv (socket_exec x st)"
  using socket_exec_flags [of st x] socket_inv_exec [of st x] by (fastforce simp: stream_inv_def)

lemma datagram_inv_exec: "datagram_inv st \<Longrightarrow> datagram_inv (socket_exec x st)"
  using socket_exec_flags [of st x] socket_inv_exec [of st x] by (fastforce simp: datagram_inv_def)

text \<open>The datagrams queued for side \<open>s\<close>: its bytes cut at the recorded lengths.\<close>

fun chop :: "nat list \<Rightarrow> 'a list \<Rightarrow> 'a list list" where
  "chop [] xs = []"
| "chop (d # ds) xs = take d xs # chop ds (drop d xs)"

lemma chop_append: "sum_list ds = length xs \<Longrightarrow> chop (ds @ [d]) (xs @ ys) = chop ds xs @ [take d ys]"
proof (induction ds arbitrary: xs)
  case (Cons a ds)
  then have "sum_list ds = length (drop a xs)" "a \<le> length xs" by auto
  with Cons.IH [of "drop a xs"] show ?case by simp
qed simp

lemma concat_chop: "sum_list ds = length xs \<Longrightarrow> concat (chop ds xs) = xs"
  by (induction ds arbitrary: xs) auto

definition datagrams :: "bool \<Rightarrow> socket_sys \<Rightarrow> u8 list list" where
  "datagrams s st = (case st s of None \<Rightarrow> [] | Some k \<Rightarrow> chop (datagram_len k) (sk_data k))"

definition datagram_accepted :: "bool \<Rightarrow> socket_op \<Rightarrow> socket_sys \<Rightarrow> u8 list list" where
  "datagram_accepted s x st =
     (case (x, st (\<not> s)) of
        (SkWrite s' data, Some k) \<Rightarrow>
          if s' = (\<not> s) then (case fst (socket_write data k (st s)) of Ok n \<Rightarrow> [data] | _ \<Rightarrow> []) else []
      | _ \<Rightarrow> [])"

text \<open>
  A read that returned bytes took the first datagram off the queue; what it returned is that
  datagram cut to the buffer.
\<close>

definition datagram_taken :: "bool \<Rightarrow> socket_op \<Rightarrow> socket_sys \<Rightarrow> u8 list list" where
  "datagram_taken s x st =
     (case (x, st s) of
        (SkRead s' False len, Some k) \<Rightarrow>
          if s' = s then
            (case fst (socket_read False len k (st (\<not> s))) of
               Ok bs \<Rightarrow> if bs \<noteq> [] \<and> bs = take len (hd (datagrams s st)) then [hd (datagrams s st)] else []
             | _ \<Rightarrow> [])
          else []
      | _ \<Rightarrow> [])"

text \<open>
  The case analysis both transports share: either the operation leaves what \<open>s\<close> holds alone, or the
  peer wrote to it, or \<open>s\<close> read from it.
\<close>

lemma socket_exec_cases:
  assumes "socket_inv st" and "socket_keeps s x"
  obtains (same) "side_content s (socket_exec x st) = side_content s st"
      "socket_accepted s x st = []" "socket_delivered s x st = []"
      "datagram_accepted s x st = []" "datagram_taken s x st = []"
    | (written) data k p n where "x = SkWrite (\<not> s) data" "st (\<not> s) = Some k" "st s = Some p"
      "fst (socket_write data k (st s)) = Ok n" "n \<le> length data"
      "contains (sk_flags p) SOCK_DATAGRAM \<Longrightarrow> n = length data"
      "side_content s (socket_exec x st) = Some (sk_content (wrote n data p))"
    | (taken) len k n where "x = SkRead s False len" "st s = Some k"
      "fst (socket_read False len k (st (\<not> s))) = Ok (take len (take n (sk_data k)))"
      "side_content s (socket_exec x st) = Some (sk_content (consumed n k))" "0 < len" "0 < n"
      "if contains (sk_flags k) SOCK_DATAGRAM then \<exists>ds. datagram_len k = n # ds else n = min len (length (sk_data k))"
proof (cases x)
  case (SkWrite s' data)
  show ?thesis
  proof (cases "s' = s")
    case True
    with SkWrite socket_exec_own_write [OF assms(1)] show ?thesis
      by (intro same) (simp_all add: socket_accepted_def socket_delivered_def datagram_accepted_def
          datagram_taken_def split: option.split)
  next
    case False
    then have s': "s' = (\<not> s)" by simp
    show ?thesis
    proof (cases "st (\<not> s)")
      case None
      with SkWrite s' show ?thesis
        by (intro same) (simp_all add: socket_exec_def socket_accepted_def socket_delivered_def
            datagram_accepted_def datagram_taken_def)
    next
      case (Some k)
      note w = socket_exec_peer_write [OF assms(1) Some, of data]
      have "socket_pair_inv (Some k) (st s)"
        using assms(1) Some by (simp add: socket_inv_pair [of _ "\<not> s"])
      note c = socket_write_content [OF this, of data "fst (socket_write data k (st s))"
          "fst (snd (socket_write data k (st s)))" "snd (snd (socket_write data k (st s)))",
          unfolded prod.collapse, OF refl]
      show ?thesis
      proof (cases "fst (socket_write data k (st s))")
        case (Ok n)
        with c obtain p where "st s = Some p" "n \<le> length data"
          "contains (sk_flags p) SOCK_DATAGRAM \<longrightarrow> n = length data" by auto
        with Ok w Some SkWrite s' show ?thesis by (intro written [of data k p n]) simp_all
      next
        case (Err e)
        with w Some SkWrite s' show ?thesis
          by (intro same) (simp_all add: socket_accepted_def socket_delivered_def
              datagram_accepted_def datagram_taken_def)
      next
        case Panic
        with w Some SkWrite s' show ?thesis
          by (intro same) (simp_all add: socket_accepted_def socket_delivered_def
              datagram_accepted_def datagram_taken_def)
      qed
    qed
  qed
next
  case (SkRead s' peek len)
  show ?thesis
  proof (cases "s' = s")
    case False
    then have s': "s' = (\<not> s)" by simp
    with SkRead socket_exec_peer_read [OF assms(1)] show ?thesis
      by (intro same) (simp_all add: socket_accepted_def socket_delivered_def datagram_accepted_def
          datagram_taken_def split: option.split bool.split)
  next
    case True
    show ?thesis
    proof (cases "st s")
      case None
      with SkRead True show ?thesis
        by (intro same) (simp_all add: socket_exec_def socket_accepted_def socket_delivered_def
            datagram_accepted_def datagram_taken_def split: bool.split)
    next
      case (Some k)
      show ?thesis
      proof (cases rule: socket_exec_own_read [OF assms(1) Some, of peek len])
        case 1
        with SkRead True Some show ?thesis
          by (cases peek; intro same) (auto simp: side_content_def socket_accepted_def socket_delivered_def
              datagram_accepted_def datagram_taken_def split: result.split)
      next
        case (2 n)
        with SkRead True Some show ?thesis by (intro taken [of len k n]) simp_all
      qed
    qed
  qed
next
  case (SkDrop s')
  with assms(2) have "s' = (\<not> s)" by simp
  with SkDrop socket_exec_drop show ?thesis
    by (intro same) (simp_all add: socket_accepted_def socket_delivered_def datagram_accepted_def datagram_taken_def)
qed (rule same; simp add: socket_exec_other socket_accepted_def socket_delivered_def
    datagram_accepted_def datagram_taken_def)+

lemma stream_conserves:
  assumes "stream_inv st" and "socket_keeps s x"
  shows "socket_delivered s x st @ socket_queued s (socket_exec x st) = socket_queued s st @ socket_accepted s x st"
proof -
  have inv: "socket_inv st" using assms(1) by (simp add: stream_inv_def)
  from inv assms(2) show ?thesis
  proof (cases rule: socket_exec_cases)
    case same
    then show ?thesis by (simp add: side_content_simps)
  next
    case (written data k p n)
    then show ?thesis
      by (simp add: side_content_simps socket_delivered_def socket_accepted_def wrote_content)
        (simp add: side_content_def sk_content_def)
  next
    case (taken len k n)
    then have "\<not> contains (sk_flags k) SOCK_DATAGRAM" using assms(1) by (auto simp: stream_inv_def)
    with taken show ?thesis
      by (simp add: side_content_simps socket_delivered_def socket_accepted_def consumed_content)
        (simp add: side_content_def sk_content_def)
  qed
qed

lemma datagrams_content:
  "datagrams s st = (case side_content s st of None \<Rightarrow> [] | Some (_, d, ds) \<Rightarrow> chop ds d)"
  by (simp add: datagrams_def side_content_def sk_content_def split: option.split)

lemma datagram_conserves:
  assumes "datagram_inv st" and "socket_keeps s x"
  shows "datagram_taken s x st @ datagrams s (socket_exec x st) = datagrams s st @ datagram_accepted s x st"
proof -
  have inv: "socket_inv st" using assms(1) by (simp add: datagram_inv_def)
  have ok: "sum_list (datagram_len k) = length (sk_data k)" "contains (sk_flags k) SOCK_DATAGRAM"
    if "st s = Some k" for k
    using assms(1) that by (auto simp: datagram_inv_def socket_inv_def socket_end_ok_def)
  from inv assms(2) show ?thesis
  proof (cases rule: socket_exec_cases)
    case same
    then show ?thesis by (simp add: datagrams_content)
  next
    case (written data k p n)
    then have "datagrams s (socket_exec x st) = chop (datagram_len p @ [length data]) (sk_data p @ data)"
      using ok [of p] by (simp add: datagrams_content wrote_content)
    with written ok [of p] show ?thesis
      by (simp add: datagram_taken_def datagram_accepted_def datagrams_def chop_append)
  next
    case (taken len k n)
    then obtain ds where ds: "datagram_len k = n # ds" using ok [of k] by auto
    then have "n \<le> length (sk_data k)" using ok(1) [of k] taken(2) by simp
    moreover have "datagrams s (socket_exec x st) = chop ds (drop n (sk_data k))"
      using taken ds ok [of k] by (simp add: datagrams_content consumed_content)
    ultimately show ?thesis
      using taken ds by (simp add: datagram_taken_def datagram_accepted_def datagrams_def) auto
  qed
qed

interpretation stream_transport:
  transport socket_exec "socket_keeps s" stream_inv "socket_queued s" "socket_accepted s" "socket_delivered s" for s
  by unfold_locales (auto intro: stream_inv_exec stream_conserves)

interpretation datagram_transport:
  transport socket_exec "socket_keeps s" datagram_inv "datagrams s" "datagram_accepted s" "datagram_taken s" for s
  by unfold_locales (auto intro: datagram_inv_exec datagram_conserves)

section \<open>Properties\<close>

lemma socket_create_init:
  assumes "socket_create options koid = Ok r"
  shows "socket_inv (socket_init r)" "\<And>s. socket_queued s (socket_init r) = []" "\<And>s. datagrams s (socket_init r) = []"
    "\<And>s k. socket_init r s = Some k \<Longrightarrow> sk_flags k = options" "options = 0 \<or> options = SOCK_DATAGRAM"
proof -
  obtain flags where f: "from_bits SOCK_FLAGS_ALL options = Some flags" "flag_remove flags SOCK_CREATE_MASK = 0"
    using assms by (auto simp: socket_create_def split: option.splits if_splits)
  then have flags: "flags = options" by (simp add: from_bits_Some_iff)
  have "bit options n \<Longrightarrow> n = 0" for n
  proof -
    assume "bit options n"
    moreover have "\<not> bit (flag_remove options 1) n" using f flags by (simp add: SOCK_CREATE_MASK_def SOCK_DATAGRAM_def)
    ultimately show "n = 0" by (auto simp: bit_flag_remove bit_1_iff)
  qed
  then have "options = (if bit options 0 then 1 else 0)"
    by (intro bit_word_eqI) (auto simp: bit_1_iff)
  then show "options = 0 \<or> options = SOCK_DATAGRAM" by (auto simp: SOCK_DATAGRAM_def split: if_splits)
  show "socket_inv (socket_init r)" "\<And>s. socket_queued s (socket_init r) = []" "\<And>s. datagrams s (socket_init r) = []"
    "\<And>s k. socket_init r s = Some k \<Longrightarrow> sk_flags k = options"
  proof -
    define mk where "mk = (\<lambda>b. \<lparr>sk_base = b, sk_flags = options, sk_data = [], datagram_len = [],
      read_threshold = 0, write_threshold = 0, read_disabled = False\<rparr>)"
    obtain b0 b1 c where r: "r = (mk b0, mk b1, c)" "kobj_signal b0 = SIG_WRITABLE" "kobj_signal b1 = SIG_WRITABLE"
      using assms f flags
      by (auto simp: socket_create_def kobject_with_signal_def kobject_with_def new_koid_def mk_def)
    define b where "b s = (if s then b1 else b0)" for s
    have init: "socket_init r s = Some (mk (b s))" "kobj_signal (b s) = SIG_WRITABLE" for s
      using r by (simp_all add: socket_init_def b_def)
    show "socket_inv (socket_init r)" "\<And>s. socket_queued s (socket_init r) = []" "\<And>s. datagrams s (socket_init r) = []"
      "\<And>s k. socket_init r s = Some k \<Longrightarrow> sk_flags k = options"
      by (auto simp: init mk_def socket_inv_def socket_end_ok_def socket_end_peer_def socket_queued_def
          datagrams_def flag_simps)
  qed
qed

lemma socket_inv_run: "socket_inv st \<Longrightarrow> socket_inv (run_ops socket_exec xs st)"
  by (induction xs arbitrary: st) (auto intro: socket_inv_exec)

lemma socket_flags_run:
  "socket_inv st \<Longrightarrow> run_ops socket_exec xs st s = Some k' \<Longrightarrow> \<exists>k. st s = Some k \<and> sk_flags k' = sk_flags k"
proof (induction xs arbitrary: st)
  case (Cons x xs)
  then obtain k1 where "socket_exec x st s = Some k1" "sk_flags k' = sk_flags k1"
    using socket_inv_exec [of st x] by fastforce
  with socket_exec_flags [OF Cons.prems(1), of x s k1] show ?case by auto
qed simp



text \<open>
  C26. A stream socket is a byte stream in each direction: while side \<open>s\<close> is open, the bytes its
  non-peeking reads returned, followed by those still buffered, are exactly the bytes the peer's
  writes reported as written, in order, whatever peeks, shutdowns, dispositions and threshold
  changes happen in between.
\<close>

theorem socket_stream_in_order:
  assumes "socket_create 0 koid = Ok r" and "list_all (socket_keeps s) xs"
  shows "collect socket_exec (socket_delivered s) xs (socket_init r) @
      socket_queued s (run_ops socket_exec xs (socket_init r)) =
    collect socket_exec (socket_accepted s) xs (socket_init r)"
proof -
  have "stream_inv (socket_init r)"
    using socket_create_init(1,4) [OF assms(1)] by (fastforce simp: stream_inv_def contains_def SOCK_DATAGRAM_def)
  from stream_transport.run_conserves [OF this assms(2)] socket_create_init(2) [OF assms(1)]
  show ?thesis by simp
qed

theorem socket_stream_in_order_witness:
  "\<exists>r. socket_create 0 1024 = Ok r \<and>
     collect socket_exec (socket_delivered False) [SkWrite True [1, 2, 3], SkRead False False 2] (socket_init r) @
       socket_queued False (run_ops socket_exec [SkWrite True [1, 2, 3], SkRead False False 2] (socket_init r)) =
     collect socket_exec (socket_accepted False) [SkWrite True [1, 2, 3], SkRead False False 2] (socket_init r)"
proof -
  obtain r where r: "socket_create 0 1024 = Ok r"
    by (simp add: socket_create_def from_bits_def flag_remove_def case_prod_unfold Let_def)
  have "list_all (socket_keeps False) [SkWrite True [1, 2, 3], SkRead False False 2]" by simp
  from socket_stream_in_order [OF r this] r show ?thesis by blast
qed

text \<open>
  C27. A datagram socket keeps message boundaries: the datagrams taken off side \<open>s\<close> by its reads (each
  read returns the front datagram, cut to its buffer, and discards the rest of it) followed by those
  still queued are exactly the buffers of the peer's successful writes, in order.
\<close>

theorem socket_datagrams_in_order:
  assumes "socket_create SOCK_DATAGRAM koid = Ok r" and "list_all (socket_keeps s) xs"
  shows "collect socket_exec (datagram_taken s) xs (socket_init r) @
      datagrams s (run_ops socket_exec xs (socket_init r)) =
    collect socket_exec (datagram_accepted s) xs (socket_init r)"
proof -
  have "datagram_inv (socket_init r)"
    using socket_create_init(1,4) [OF assms(1)] by (fastforce simp: datagram_inv_def)
  from datagram_transport.run_conserves [OF this assms(2)] socket_create_init(3) [OF assms(1)]
  show ?thesis by simp
qed

theorem socket_datagrams_in_order_witness:
  "\<exists>r. socket_create SOCK_DATAGRAM 1024 = Ok r \<and>
     collect socket_exec (datagram_taken False) [SkWrite True [1, 2, 3], SkRead False False 2] (socket_init r) @
       datagrams False (run_ops socket_exec [SkWrite True [1, 2, 3], SkRead False False 2] (socket_init r)) =
     collect socket_exec (datagram_accepted False) [SkWrite True [1, 2, 3], SkRead False False 2] (socket_init r)"
proof -
  obtain r where r: "socket_create SOCK_DATAGRAM 1024 = Ok r"
    by (simp add: socket_create_def from_bits_def flag_remove_def case_prod_unfold Let_def SOCK_FLAGS_ALL_def
        SOCK_CREATE_MASK_def SOCK_DATAGRAM_def SOCK_SHUTDOWN_WRITE_def SOCK_SHUTDOWN_READ_def SOCK_PEEK_def)
  have "list_all (socket_keeps False) [SkWrite True [1, 2, 3], SkRead False False 2]" by simp
  from socket_datagrams_in_order [OF r this] r show ?thesis by blast
qed

text \<open>
  C32. What \<^verbatim>\<open>zx_socket_shutdown\<close> does to the peer. Shutting down both directions (options 3) leaves the
  peer free to write; asking for neither (options 0) disables the peer's writes although the caller
  is unaffected. Only the two one-way requests act on the peer as they should.
\<close>

theorem socket_shutdown_peer_inverted:
  fixes k p :: socket
  assumes "\<not> contains (kobj_signal (sk_base p)) SIG_SOCKET_WRITE_DISABLED"
    and "sys_socket_shutdown 3 k (Some p) = (k1, Some p1)" and "sys_socket_shutdown 0 k (Some p) = (k2, Some p2)"
  shows "contains (kobj_signal (sk_base k1)) SIG_SOCKET_WRITE_DISABLED \<and>
    \<not> contains (kobj_signal (sk_base p1)) SIG_SOCKET_WRITE_DISABLED \<and> read_disabled p1 = read_disabled p \<and>
    kobj_signal (sk_base k2) = kobj_signal (sk_base k) \<and>
    contains (kobj_signal (sk_base p2)) SIG_SOCKET_WRITE_DISABLED \<and> read_disabled p2"
proof -
  have masks: "contains (3 AND SOCK_FLAGS_ALL) SOCK_SHUTDOWN_READ" "contains (3 AND SOCK_FLAGS_ALL) SOCK_SHUTDOWN_WRITE"
    "\<not> contains 0 SOCK_SHUTDOWN_READ" "\<not> contains 0 SOCK_SHUTDOWN_WRITE"
    by (simp_all add: contains_def SOCK_FLAGS_ALL_def SOCK_SHUTDOWN_READ_def SOCK_SHUTDOWN_WRITE_def
        SOCK_DATAGRAM_def SOCK_PEEK_def)
  have "k1 = shutdown_self True True k" "p1 = shutdown_self False False p"
    using assms(2) masks by (simp_all add: sys_socket_shutdown_def socket_shutdown_def)
  moreover have "k2 = shutdown_self False False k" "p2 = shutdown_self True True p"
    using assms(3) masks by (simp_all add: sys_socket_shutdown_def socket_shutdown_def)
  ultimately show ?thesis
    using assms(1) by (simp add: shutdown_self_def sock_flags)
qed

theorem socket_shutdown_peer_inverted_witness:
  "\<exists>k p k1 p1 k2 p2. sys_socket_shutdown 3 k (Some p) = (k1, Some p1) \<and>
     sys_socket_shutdown 0 k (Some p) = (k2, Some p2) \<and>
     \<not> contains (kobj_signal (sk_base p1)) SIG_SOCKET_WRITE_DISABLED \<and>
     contains (kobj_signal (sk_base p2)) SIG_SOCKET_WRITE_DISABLED"
proof -
  define e :: socket where "e = \<lparr>sk_base = \<lparr>kobj_id = 1024, kobj_name = [], kobj_signal = 0, signal_callbacks = []\<rparr>,
    sk_flags = 0, sk_data = [], datagram_len = [], read_threshold = 0, write_threshold = 0, read_disabled = False\<rparr>"
  have "\<not> contains (kobj_signal (sk_base e)) SIG_SOCKET_WRITE_DISABLED"
    by (simp add: e_def flag_simps)
  moreover obtain k1 p1 k2 p2 where "sys_socket_shutdown 3 e (Some e) = (k1, Some p1)"
    "sys_socket_shutdown 0 e (Some e) = (k2, Some p2)"
    by (simp add: sys_socket_shutdown_def socket_shutdown_def Let_def)
  ultimately show ?thesis
    using socket_shutdown_peer_inverted [of e e k1 p1 k2 p2] by blast
qed

end
