(* ===== verification/Handle_Table.thy ===== *)
theory Handle_Table
  imports KObject Bytes
begin

text \<open>
  Handles and the handle table of a process: \<^verbatim>\<open>zircon-object/src/object/handle.rs\<close>, the handle methods of
  \<^verbatim>\<open>zircon-object/src/task/process.rs\<close> and the system calls of \<^verbatim>\<open>zircon-syscall/src/handle.rs\<close>.

  A kernel object is known to the table by its KoID, its type name and the KoID of the object it is
  related to. The hash map of handles is a map from handle values; cancel tokens are oneshot channels
  named by numbers, and \<open>cancelled\<close> is the log of the tokens that were sent.
\<close>

declare Let_def [simp]

section \<open>Handles\<close>

record object_ref =
  obj_koid :: u64
  obj_type_name :: string
  obj_related :: u64

record handle =
  h_object :: object_ref
  h_rights :: rights

type_synonym handle_value = u32

definition INVALID_HANDLE :: handle_value where "INVALID_HANDLE = 0"

definition type_codes :: "(string \<times> u32) list" where
  "type_codes =
     [(''Process'', 1), (''Thread'', 2), (''VmObject'', 3), (''Channel'', 4), (''Event'', 5), (''Port'', 6),
      (''Interrupt'', 9), (''PciDevice'', 11), (''Log'', 12), (''DebugLog'', 12), (''Socket'', 14),
      (''Resource'', 15), (''EventPair'', 16), (''Job'', 17), (''VmAddressRegion'', 18), (''Fifo'', 19),
      (''Guest'', 20), (''VCpu'', 21), (''Timer'', 22), (''Iommu'', 23), (''Bti'', 24), (''Profile'', 25),
      (''Pmt'', 26), (''SuspendToken'', 27), (''Pager'', 28), (''Exception'', 29), (''ExceptionObject'', 29),
      (''Clock'', 30), (''Stream'', 31), (''PcieDeviceKObject'', 32), (''Counter'', 34)]"

text \<open>An unknown type name is \<^verbatim>\<open>unimplemented!\<close>.\<close>

definition obj_type :: "object_ref \<Rightarrow> u32 zx_result" where
  "obj_type ob = (case map_of type_codes (obj_type_name ob) of Some c \<Rightarrow> Ok c | None \<Rightarrow> Panic)"

record handle_basic_info =
  bi_koid :: u64
  bi_rights :: u32
  bi_type :: u32
  bi_related :: u64
  bi_props :: u32

definition handle_get_info :: "handle \<Rightarrow> handle_basic_info zx_result" where
  "handle_get_info h =
     result_bind (obj_type (h_object h)) (\<lambda>t.
       Ok \<lparr>bi_koid = obj_koid (h_object h), bi_rights = h_rights h, bi_type = t,
           bi_related = obj_related (h_object h),
           bi_props = if contains (h_rights h) RIGHT_WAIT then 1 else 0\<rparr>)"

section \<open>The table\<close>

record handle_table =
  max_handle_id :: u32
  handles :: "handle_value \<Rightarrow> (handle \<times> nat list) option"
  cancelled :: "nat list"

definition empty_table :: handle_table where
  "empty_table = \<lparr>max_handle_id = 0, handles = (\<lambda>_. None), cancelled = []\<rparr>"

definition handle_key :: "u32 \<Rightarrow> handle_value" where
  "handle_key i = push_bit 2 i OR 3"

definition add_handle :: "handle \<Rightarrow> handle_table \<Rightarrow> handle_value \<times> handle_table" where
  "add_handle h T =
     (let key = handle_key (max_handle_id T)
      in (key, T\<lparr>max_handle_id := max_handle_id T + 1, handles := (handles T)(key \<mapsto> (h, []))\<rparr>))"

fun add_handles :: "handle list \<Rightarrow> handle_table \<Rightarrow> handle_value list \<times> handle_table" where
  "add_handles [] T = ([], T)"
| "add_handles (h # hs) T =
     (let (v, T1) = add_handle h T; (vs, T2) = add_handles hs T1 in (v # vs, T2))"

definition remove_handle :: "handle_value \<Rightarrow> handle_table \<Rightarrow> handle zx_result \<times> handle_table" where
  "remove_handle v T =
     (case handles T v of
        None \<Rightarrow> (Err BAD_HANDLE, T)
      | Some (h, queue) \<Rightarrow> (Ok h, T\<lparr>handles := (handles T)(v := None), cancelled := cancelled T @ queue\<rparr>))"

text \<open>
  \<^verbatim>\<open>remove_handles\<close> collects an iterator of results into a \<^verbatim>\<open>Result\<close>: the first error ends the iteration.
\<close>

fun remove_handles :: "handle_value list \<Rightarrow> handle_table \<Rightarrow> handle list zx_result \<times> handle_table" where
  "remove_handles [] T = (Ok [], T)"
| "remove_handles (v # vs) T =
     (case remove_handle v T of
        (Ok h, T1) \<Rightarrow>
          (case remove_handles vs T1 of
             (Ok hs, T2) \<Rightarrow> (Ok (h # hs), T2)
           | (Err e, T2) \<Rightarrow> (Err e, T2)
           | (Panic, T2) \<Rightarrow> (Panic, T2))
      | (Err e, T1) \<Rightarrow> (Err e, T1)
      | (Panic, T1) \<Rightarrow> (Panic, T1))"

definition get_handle :: "handle_value \<Rightarrow> handle_table \<Rightarrow> handle zx_result" where
  "get_handle v T = (case handles T v of None \<Rightarrow> Err BAD_HANDLE | Some (h, _) \<Rightarrow> Ok h)"

text \<open>\<open>ty\<close> is the type asked for; a failed \<^verbatim>\<open>downcast_arc\<close> is a type-name mismatch.\<close>

definition downcast :: "string \<Rightarrow> object_ref \<Rightarrow> object_ref zx_result" where
  "downcast ty ob = (if obj_type_name ob = ty then Ok ob else Err WRONG_TYPE)"

definition remove_object :: "string \<Rightarrow> handle_value \<Rightarrow> handle_table \<Rightarrow> object_ref zx_result \<times> handle_table" where
  "remove_object ty v T =
     (let (r, T1) = remove_handle v T in (result_bind r (\<lambda>h. downcast ty (h_object h)), T1))"

definition get_dyn_object_and_rights :: "handle_value \<Rightarrow> handle_table \<Rightarrow> (object_ref \<times> rights) zx_result" where
  "get_dyn_object_and_rights v T = result_bind (get_handle v T) (\<lambda>h. Ok (h_object h, h_rights h))"

definition get_object_with_rights :: "string \<Rightarrow> handle_value \<Rightarrow> rights \<Rightarrow> handle_table \<Rightarrow> object_ref zx_result" where
  "get_object_with_rights ty v desired T =
     result_bind (get_dyn_object_and_rights v T) (\<lambda>(ob, r).
       result_bind (downcast ty ob) (\<lambda>ob'. if \<not> contains r desired then Err ACCESS_DENIED else Ok ob'))"

definition get_object_and_rights :: "string \<Rightarrow> handle_value \<Rightarrow> handle_table \<Rightarrow> (object_ref \<times> rights) zx_result" where
  "get_object_and_rights ty v T =
     result_bind (get_dyn_object_and_rights v T) (\<lambda>(ob, r). result_bind (downcast ty ob) (\<lambda>ob'. Ok (ob', r)))"

definition get_dyn_object_with_rights :: "handle_value \<Rightarrow> rights \<Rightarrow> handle_table \<Rightarrow> object_ref zx_result" where
  "get_dyn_object_with_rights v desired T =
     result_bind (get_handle v T) (\<lambda>h.
       if \<not> contains (h_rights h) desired then Err ACCESS_DENIED else Ok (h_object h))"

definition get_object :: "string \<Rightarrow> handle_value \<Rightarrow> handle_table \<Rightarrow> object_ref zx_result" where
  "get_object ty v T = result_bind (get_handle v T) (\<lambda>h. downcast ty (h_object h))"

definition get_handle_info :: "handle_value \<Rightarrow> handle_table \<Rightarrow> handle_basic_info zx_result" where
  "get_handle_info v T = result_bind (get_handle v T) handle_get_info"

definition get_cancel_token :: "handle_value \<Rightarrow> nat \<Rightarrow> handle_table \<Rightarrow> nat zx_result \<times> handle_table" where
  "get_cancel_token v token T =
     (case handles T v of
        None \<Rightarrow> (Err BAD_HANDLE, T)
      | Some (h, queue) \<Rightarrow> (Ok token, T\<lparr>handles := (handles T)(v \<mapsto> (h, queue @ [token]))\<rparr>))"

definition dup_handle_operating_rights ::
  "handle_value \<Rightarrow> (rights \<Rightarrow> rights zx_result) \<Rightarrow> handle_table \<Rightarrow> handle_value zx_result \<times> handle_table" where
  "dup_handle_operating_rights v operation T =
     (case handles T v of
        None \<Rightarrow> (Err BAD_HANDLE, T)
      | Some (h, _) \<Rightarrow>
          (case operation (h_rights h) of
             Err e \<Rightarrow> (Err e, T)
           | Panic \<Rightarrow> (Panic, T)
           | Ok r \<Rightarrow> (let (v', T1) = add_handle (h\<lparr>h_rights := r\<rparr>) T in (Ok v', T1))))"

section \<open>System calls\<close>

definition sys_handle_duplicate :: "handle_value \<Rightarrow> u32 \<Rightarrow> handle_table \<Rightarrow> handle_value zx_result \<times> handle_table" where
  "sys_handle_duplicate v rights_bits T =
     (case rights_try_from rights_bits of
        Err e \<Rightarrow> (Err e, T)
      | Panic \<Rightarrow> (Panic, T)
      | Ok r \<Rightarrow>
          dup_handle_operating_rights v
            (\<lambda>handle_rights.
               if \<not> contains handle_rights RIGHT_DUPLICATE then Err ACCESS_DENIED
               else if \<not> contains r RIGHT_SAME_RIGHTS then
                 if handle_rights AND r \<noteq> r then Err INVALID_ARGS else Ok r
               else Ok handle_rights) T)"

definition sys_handle_close :: "handle_value \<Rightarrow> handle_table \<Rightarrow> unit zx_result \<times> handle_table" where
  "sys_handle_close v T =
     (if v = INVALID_HANDLE then (Ok (), T)
      else let (r, T1) = remove_handle v T in (result_bind r (\<lambda>_. Ok ()), T1))"

fun sys_handle_close_many :: "handle_value list \<Rightarrow> handle_table \<Rightarrow> unit zx_result \<times> handle_table" where
  "sys_handle_close_many [] T = (Ok (), T)"
| "sys_handle_close_many (v # vs) T =
     (if v = INVALID_HANDLE then sys_handle_close_many vs T
      else case remove_handle v T of
        (Ok _, T1) \<Rightarrow> sys_handle_close_many vs T1
      | (Err e, T1) \<Rightarrow> (Err e, T1)
      | (Panic, T1) \<Rightarrow> (Panic, T1))"

definition sys_handle_replace :: "handle_value \<Rightarrow> u32 \<Rightarrow> handle_table \<Rightarrow> handle_value zx_result \<times> handle_table" where
  "sys_handle_replace v rights_bits T =
     (case rights_try_from rights_bits of
        Err e \<Rightarrow> (Err e, T)
      | Panic \<Rightarrow> (Panic, T)
      | Ok r \<Rightarrow>
          (case dup_handle_operating_rights v
             (\<lambda>handle_rights.
                if \<not> contains r RIGHT_SAME_RIGHTS \<and> handle_rights AND r \<noteq> r then Err INVALID_ARGS else Ok r) T of
             (Ok v', T1) \<Rightarrow>
               (case remove_handle v T1 of
                  (Ok _, T2) \<Rightarrow> (Ok v', T2)
                | (Err e, T2) \<Rightarrow> (Err e, T2)
                | (Panic, T2) \<Rightarrow> (Panic, T2))
           | (Err e, T1) \<Rightarrow> (Err e, T1)
           | (Panic, T1) \<Rightarrow> (Panic, T1)))"

section \<open>Tables of slots\<close>

text \<open>
  What the callers of a descriptor table rely on: a new value goes to a slot that was free, lookups
  of other slots do not change, and a removed slot is empty. \<open>room\<close> says that the table can still
  number a new slot.
\<close>

locale slot_table =
  fixes lookup :: "'k \<Rightarrow> 't \<Rightarrow> 'v option"
    and add :: "'v \<Rightarrow> 't \<Rightarrow> 'k \<times> 't"
    and del :: "'k \<Rightarrow> 't \<Rightarrow> 't"
    and inv :: "'t \<Rightarrow> bool"
    and room :: "'t \<Rightarrow> bool"
  assumes inv_add: "inv t \<Longrightarrow> room t \<Longrightarrow> inv (snd (add v t))"
    and inv_del: "inv t \<Longrightarrow> inv (del k t)"
    and fresh: "inv t \<Longrightarrow> room t \<Longrightarrow> lookup (fst (add v t)) t = None"
    and lookup_add: "lookup k (snd (add v t)) = (if k = fst (add v t) then Some v else lookup k t)"
    and lookup_del: "lookup k (del k' t) = (if k = k' then None else lookup k t)"
begin

lemma added: "lookup (fst (add v t)) (snd (add v t)) = Some v"
  by (simp add: lookup_add)

lemma others_kept: "inv t \<Longrightarrow> room t \<Longrightarrow> lookup k t = Some w \<Longrightarrow> lookup k (snd (add v t)) = Some w"
  using fresh [of t v] by (auto simp: lookup_add)

lemma replaced:
  assumes "inv t" "room t" "lookup k t = Some w"
  shows "lookup j (del k (snd (add v t))) =
    (if j = fst (add v t) then Some v else if j = k then None else lookup j t)"
  using assms fresh [of t v] by (auto simp: lookup_del lookup_add)

lemma add_all: "(\<And>k w. lookup k t = Some w \<Longrightarrow> P w) \<Longrightarrow> P v \<Longrightarrow> lookup k (snd (add v t)) = Some w \<Longrightarrow> P w"
  by (auto simp: lookup_add split: if_splits)

lemma del_all: "(\<And>k w. lookup k t = Some w \<Longrightarrow> P w) \<Longrightarrow> lookup k (del j t) = Some w \<Longrightarrow> P w"
  by (auto simp: lookup_del split: if_splits)

end

definition table_lookup :: "handle_value \<Rightarrow> handle_table \<Rightarrow> handle option" where
  "table_lookup v T = map_option fst (handles T v)"

definition table_inv :: "handle_table \<Rightarrow> bool" where
  "table_inv T \<longleftrightarrow> (\<forall>v. handles T v \<noteq> None \<longrightarrow> (\<exists>i. i < unat (max_handle_id T) \<and> v = handle_key (of_nat i)))"

definition table_room :: "handle_table \<Rightarrow> bool" where
  "table_room T \<longleftrightarrow> unat (max_handle_id T) < 2 ^ 30"

lemma bit_three: "bit (3 :: u32) n \<longleftrightarrow> n < 2"
proof -
  have "(3 :: u32) = mask 2" by (simp add: mask_eq_exp_minus_1)
  then show ?thesis by (simp only: bit_mask_iff) auto
qed

lemma drop_handle_key: "drop_bit 2 (handle_key i) = take_bit 30 i"
  by (rule bit_word_eqI)
    (simp add: handle_key_def bit_drop_bit_eq bit_or_iff bit_push_bit_iff bit_take_bit_iff bit_three; auto)

lemma handle_key_low_bits: "handle_key i AND 3 = 3"
  by (rule bit_word_eqI) (auto simp: handle_key_def bit_or_iff bit_and_iff bit_three)

lemma handle_key_nonzero: "handle_key i \<noteq> INVALID_HANDLE"
  using handle_key_low_bits [of i] by (auto simp: INVALID_HANDLE_def)

lemma handle_key_inj:
  assumes "i < 2 ^ 30" "j < 2 ^ 30" "handle_key (of_nat i) = handle_key (of_nat j)"
  shows "i = j"
proof -
  have small: "take_bit 30 (of_nat n :: u32) = of_nat n" "unat (of_nat n :: u32) = n" if "n < 2 ^ 30" for n
  proof -
    show "unat (of_nat n :: u32) = n"
      using that by (simp add: unat_of_nat take_bit_nat_eq_self)
    then show "take_bit 30 (of_nat n :: u32) = of_nat n"
      using that by (simp only: word_unat_eq_iff unsigned_take_bit_eq) (simp add: take_bit_nat_eq_self)
  qed
  have "take_bit 30 (of_nat i :: u32) = take_bit 30 (of_nat j)"
    using assms(3) drop_handle_key by metis
  then have "(of_nat i :: u32) = of_nat j" using small assms(1,2) by simp
  then show ?thesis using small(2) assms(1,2) by metis
qed

interpretation htable: slot_table table_lookup add_handle "\<lambda>v T. snd (remove_handle v T)" table_inv table_room
proof unfold_locales
  fix T h assume inv: "table_inv T" and room: "table_room T"
  have max: "unat (max_handle_id T + 1) = Suc (unat (max_handle_id T))"
    using room by (simp add: table_room_def unat_word_ariths)
  have key: "handle_key (of_nat (unat (max_handle_id T))) = handle_key (max_handle_id T)"
    by simp
  show "table_inv (snd (add_handle h T))"
    unfolding table_inv_def
  proof (intro allI impI)
    fix v assume "handles (snd (add_handle h T)) v \<noteq> None"
    then consider "v = handle_key (max_handle_id T)" | "handles T v \<noteq> None"
      by (auto simp: add_handle_def Let_def split: if_splits)
    then show "\<exists>i. i < unat (max_handle_id (snd (add_handle h T))) \<and> v = handle_key (of_nat i)"
    proof cases
      case 1
      with key max show ?thesis by (intro exI [of _ "unat (max_handle_id T)"]) (simp add: add_handle_def Let_def)
    next
      case 2
      with inv obtain i where "i < unat (max_handle_id T)" "v = handle_key (of_nat i)"
        by (auto simp: table_inv_def)
      with max show ?thesis by (intro exI [of _ i]) (simp add: add_handle_def Let_def)
    qed
  qed
  have "handles T (handle_key (max_handle_id T)) = None"
  proof (rule ccontr)
    assume "handles T (handle_key (max_handle_id T)) \<noteq> None"
    with inv obtain i where i: "i < unat (max_handle_id T)" "handle_key (max_handle_id T) = handle_key (of_nat i)"
      unfolding table_inv_def by blast
    then have "unat (max_handle_id T) = i"
      using handle_key_inj [of "unat (max_handle_id T)" i] room by (simp add: table_room_def)
    with i show False by simp
  qed
  then show "table_lookup (fst (add_handle h T)) T = None"
    by (simp add: table_lookup_def add_handle_def Let_def)
next
  fix T v assume "table_inv T"
  then show "table_inv (snd (remove_handle v T))"
    by (auto simp: table_inv_def remove_handle_def split: option.splits)
qed (auto simp: table_lookup_def add_handle_def remove_handle_def Let_def split: option.splits)

section \<open>No amplification of rights\<close>

text \<open>
  The authority in a table: which right bits it holds on which object through some handle.
\<close>

definition holds :: "handle_table \<Rightarrow> object_ref \<Rightarrow> nat \<Rightarrow> bool" where
  "holds T ob n \<longleftrightarrow> (\<exists>v h. table_lookup v T = Some h \<and> h_object h = ob \<and> bit (h_rights h) n)"

datatype handle_op =
    HDuplicate handle_value u32
  | HClose handle_value
  | HCloseMany "handle_value list"
  | HReplace handle_value u32
  | HToken handle_value nat

fun handle_exec :: "handle_op \<Rightarrow> handle_table \<Rightarrow> handle_table" where
  "handle_exec (HDuplicate v r) T = snd (sys_handle_duplicate v r T)"
| "handle_exec (HClose v) T = snd (sys_handle_close v T)"
| "handle_exec (HCloseMany vs) T = snd (sys_handle_close_many vs T)"
| "handle_exec (HReplace v r) T = snd (sys_handle_replace v r T)"
| "handle_exec (HToken v t) T = snd (get_cancel_token v t T)"

lemma lookup_add_handle:
  "table_lookup v (snd (add_handle h T)) = (if v = handle_key (max_handle_id T) then Some h else table_lookup v T)"
  by (simp add: table_lookup_def add_handle_def Let_def)

lemma lookup_remove_handle:
  "table_lookup v (snd (remove_handle k T)) = (if v = k then None else table_lookup v T)"
  by (auto simp: table_lookup_def remove_handle_def split: option.splits)

lemma lookup_cancel_token: "table_lookup u (snd (get_cancel_token v t T)) = table_lookup u T"
  by (auto simp: table_lookup_def get_cancel_token_def split: option.splits)

lemma holds_remove: "holds (snd (remove_handle v T)) ob n \<Longrightarrow> holds T ob n"
  by (auto simp: holds_def lookup_remove_handle split: if_splits)

lemma holds_dup:
  assumes sub: "\<And>r r'. operation r = Ok r' \<Longrightarrow> contains r r'"
    and "holds (snd (dup_handle_operating_rights v operation T)) ob n"
  shows "holds T ob n"
proof (cases "handles T v")
  case None
  with assms(2) show ?thesis by (simp add: dup_handle_operating_rights_def)
next
  case (Some hq)
  obtain h q where hq: "hq = (h, q)" by fastforce
  show ?thesis
  proof (cases "operation (h_rights h)")
    case (Ok r)
    then have "contains (h_rights h) r" by (rule sub)
    moreover have "table_lookup v T = Some h" using Some hq by (simp add: table_lookup_def)
    moreover have "holds (snd (add_handle (h\<lparr>h_rights := r\<rparr>) T)) ob n"
      using assms(2) Some hq Ok by (simp add: dup_handle_operating_rights_def case_prod_unfold)
    ultimately show ?thesis
      by (auto simp: holds_def lookup_add_handle contains_iff_bits split: if_splits)
  qed (use assms(2) Some hq in \<open>simp_all add: dup_handle_operating_rights_def\<close>)
qed

lemma contains_and: "a AND b = b \<longleftrightarrow> contains a b"
  by (simp add: contains_def)

lemma holds_close_many: "holds (snd (sys_handle_close_many vs T)) ob n \<Longrightarrow> holds T ob n"
proof (induction vs arbitrary: T)
  case (Cons v vs)
  show ?case
  proof (cases "v = INVALID_HANDLE")
    case False
    obtain r T1 where r: "remove_handle v T = (r, T1)" by fastforce
    have "holds T1 ob n" using Cons False r by (auto split: result.splits)
    then show ?thesis using holds_remove [of v T] r by simp
  qed (use Cons in simp)
qed simp

lemma holds_replace:
  assumes "\<not> contains r RIGHT_SAME_RIGHTS" and "holds (snd (sys_handle_replace v r T)) ob n"
  shows "holds T ob n"
proof -
  define oper where "oper = (\<lambda>handle_rights. if \<not> contains r RIGHT_SAME_RIGHTS \<and> handle_rights AND r \<noteq> r
    then Err INVALID_ARGS else Ok r :: rights zx_result)"
  have sub: "oper a = Ok b \<Longrightarrow> contains a b" for a b
    using assms(1) by (auto simp: oper_def contains_and split: if_splits)
  obtain r' T1 where d: "dup_handle_operating_rights v oper T = (r', T1)" by fastforce
  have dup: "holds T1 ob n \<Longrightarrow> holds T ob n"
    using holds_dup [OF sub, where T = T and v = v] d by simp
  show ?thesis
  proof (cases "contains RIGHTS_ALL r")
    case True
    then have tf: "rights_try_from r = Ok r" by (simp add: rights_try_from_Ok_iff)
    show ?thesis
    proof (cases r')
      case (Ok v')
      then have "holds (snd (remove_handle v T1)) ob n"
        using assms(2) d tf
        by (cases "remove_handle v T1") (auto simp: sys_handle_replace_def oper_def [symmetric] split: result.splits)
      then show ?thesis using holds_remove dup by blast
    qed (use assms(2) d tf dup in \<open>simp_all add: sys_handle_replace_def oper_def [symmetric]\<close>)
  next
    case False
    then have "rights_try_from r = Err INVALID_ARGS"
      by (auto simp: rights_try_from_def ok_or_def from_bits_Some_iff split: option.splits)
    with assms(2) show ?thesis by (simp add: sys_handle_replace_def)
  qed
qed

lemma rights_try_from_no_panic: "rights_try_from r \<noteq> Panic"
  by (simp add: rights_try_from_def ok_or_def split: option.split)

fun honest_op :: "handle_op \<Rightarrow> bool" where
  "honest_op (HReplace v r) = (\<not> contains r RIGHT_SAME_RIGHTS)"
| "honest_op _ = True"

lemma holds_exec:
  assumes "honest_op x" and "holds (handle_exec x T) ob n"
  shows "holds T ob n"
proof (cases x)
  case (HDuplicate v r)
  show ?thesis
  proof (cases "rights_try_from r")
    case (Ok r')
    let ?oper = "\<lambda>handle_rights. if \<not> contains handle_rights RIGHT_DUPLICATE then Err ACCESS_DENIED
      else if \<not> contains r' RIGHT_SAME_RIGHTS then if handle_rights AND r' \<noteq> r' then Err INVALID_ARGS else Ok r'
      else Ok handle_rights"
    have "holds (snd (dup_handle_operating_rights v ?oper T)) ob n"
      using assms(2) HDuplicate Ok by (simp add: sys_handle_duplicate_def)
    then show ?thesis
      by (rule holds_dup [rotated]) (auto simp: contains_and split: if_splits)
  qed (use assms(2) HDuplicate in \<open>simp_all add: sys_handle_duplicate_def\<close>)
next
  case (HClose v)
  with assms(2) holds_remove [of v T] show ?thesis
    by (auto simp: sys_handle_close_def case_prod_unfold split: if_splits)
next
  case (HToken v t)
  with assms(2) show ?thesis by (simp add: holds_def lookup_cancel_token)
next
  case (HCloseMany vs)
  with assms(2) show ?thesis by (simp add: holds_close_many)
next
  case (HReplace v r)
  with assms show ?thesis by (simp add: holds_replace)
qed

section \<open>Properties\<close>

text \<open>
  C1. Capability safety: no sequence of \<^verbatim>\<open>zx_handle_duplicate\<close>, \<^verbatim>\<open>zx_handle_close\<close>, \<^verbatim>\<open>zx_handle_close_many\<close>,
  cancel-token requests and \<^verbatim>\<open>zx_handle_replace\<close> calls (the latter without the \<open>SAME_RIGHTS\<close> flag) gives a
  process a right on an object that it did not hold already.
\<close>

theorem handle_calls_never_amplify:
  assumes "list_all honest_op xs" and "holds (run_ops handle_exec xs T) ob n"
  shows "holds T ob n"
  using assms
proof (induction xs arbitrary: T)
  case (Cons x xs)
  then show ?case using holds_exec [of x T] by auto
qed simp

definition sample_object :: object_ref where
  "sample_object = \<lparr>obj_koid = 1024, obj_type_name = ''Channel'', obj_related = 1025\<rparr>"

definition sample_table :: handle_table where
  "sample_table = snd (add_handle \<lparr>h_object = sample_object, h_rights = RIGHT_READ OR RIGHT_DUPLICATE\<rparr> empty_table)"

lemmas sample_simps = sample_table_def sample_object_def add_handle_def empty_table_def handle_key_def
  table_lookup_def single_rights contains_def

theorem handle_calls_never_amplify_witness:
  "holds (run_ops handle_exec [HDuplicate 3 4] sample_table) sample_object 2 \<and> holds sample_table sample_object 2"
proof -
  have "holds (run_ops handle_exec [HDuplicate 3 4] sample_table) sample_object 2"
    unfolding holds_def
    by (rule exI [of _ 7]) (simp add: sample_simps sys_handle_duplicate_def rights_try_from_def from_bits_def
        RIGHTS_ALL_def dup_handle_operating_rights_def bit_numeral_rec)
  moreover have "list_all honest_op [HDuplicate 3 4]" by simp
  ultimately show ?thesis
    using handle_calls_never_amplify [of "[HDuplicate 3 4]" sample_table sample_object 2] by blast
qed

text \<open>
  C34. \<^verbatim>\<open>zx_handle_replace\<close> does amplify: with the \<open>SAME_RIGHTS\<close> flag no check is made and the new handle gets
  the rights of the argument, whatever they are. A process that holds any handle to an object can so
  obtain every right on it.
\<close>

theorem handle_replace_amplifies:
  assumes "table_inv T" and "table_room T" and "handles T v = Some (h, q)"
    and "contains RIGHTS_ALL r" and "contains r RIGHT_SAME_RIGHTS"
  shows "\<exists>v' T'. sys_handle_replace v r T = (Ok v', T') \<and>
    table_lookup v' T' = Some (h\<lparr>h_rights := r\<rparr>) \<and> table_lookup v T' = None"
proof -
  have look: "table_lookup v T = Some h" using assms(3) by (simp add: table_lookup_def)
  let ?h = "h\<lparr>h_rights := r\<rparr>"
  let ?v' = "fst (add_handle ?h T)" and ?T1 = "snd (add_handle ?h T)"
  have "table_lookup v ?T1 = Some h"
    using htable.others_kept [OF assms(1,2) look] .
  then obtain q' where q': "handles ?T1 v = Some (h, q')" by (auto simp: table_lookup_def)
  have "sys_handle_replace v r T = (Ok ?v', snd (remove_handle v ?T1))"
    using assms(3-5) q'
    by (simp add: sys_handle_replace_def rights_try_from_Ok_iff [THEN iffD2] dup_handle_operating_rights_def
        case_prod_unfold remove_handle_def)
  moreover have "table_lookup ?v' (snd (remove_handle v ?T1)) = Some ?h"
    "table_lookup v (snd (remove_handle v ?T1)) = None"
    using htable.replaced [OF assms(1,2) look, of _ ?h] look htable.fresh [OF assms(1,2), of ?h] by auto
  ultimately show ?thesis by blast
qed

lemma sample_table_ok: "table_inv sample_table" "table_room sample_table"
  "handles sample_table 3 = Some (\<lparr>h_object = sample_object, h_rights = RIGHT_READ OR RIGHT_DUPLICATE\<rparr>, [])"
proof -
  have "table_inv empty_table" "table_room empty_table"
    by (simp_all add: table_inv_def table_room_def empty_table_def)
  then show "table_inv sample_table"
    unfolding sample_table_def by (rule htable.inv_add)
  show "table_room sample_table"
    by (simp add: table_room_def sample_table_def add_handle_def empty_table_def)
  show "handles sample_table 3 = Some (\<lparr>h_object = sample_object, h_rights = RIGHT_READ OR RIGHT_DUPLICATE\<rparr>, [])"
    by (simp add: sample_table_def add_handle_def empty_table_def handle_key_def)
qed

theorem handle_replace_amplifies_witness:
  "\<exists>v' T'. sys_handle_replace 3 0x81FFFFFF sample_table = (Ok v', T') \<and>
     table_lookup v' T' = Some \<lparr>h_object = sample_object, h_rights = 0x81FFFFFF\<rparr> \<and> table_lookup 3 T' = None"
  using handle_replace_amplifies [OF sample_table_ok, of "0x81FFFFFF"]
  by (simp add: contains_def RIGHTS_ALL_def RIGHT_SAME_RIGHTS_def)

text \<open>A run of table operations that also installs handles, as the system calls that create objects do.\<close>

datatype table_op = TAdd handle | TRemove handle_value | TCall handle_op

fun table_exec :: "table_op \<Rightarrow> handle_table \<Rightarrow> handle_table" where
  "table_exec (TAdd h) T = snd (add_handle h T)"
| "table_exec (TRemove v) T = snd (remove_handle v T)"
| "table_exec (TCall x) T = handle_exec x T"

lemma max_remove [simp]: "max_handle_id (snd (remove_handle v T)) = max_handle_id T"
  by (simp add: remove_handle_def split: option.split)

lemma inv_remove: "table_inv T \<Longrightarrow> table_inv (snd (remove_handle v T))"
  by (rule htable.inv_del)

lemma close_many_inv:
  "table_inv T \<Longrightarrow> table_inv (snd (sys_handle_close_many vs T)) \<and>
     max_handle_id (snd (sys_handle_close_many vs T)) = max_handle_id T"
proof (induction vs arbitrary: T)
  case (Cons v vs)
  have "remove_handle v T = (fst (remove_handle v T), snd (remove_handle v T))" by simp
  with Cons inv_remove [of T v] show ?case
    by (cases "fst (remove_handle v T)") (simp_all add: case_prod_unfold)
qed simp

lemma dup_inv:
  assumes "table_inv T" and "table_room T"
  shows "table_inv (snd (dup_handle_operating_rights v f T)) \<and>
    unat (max_handle_id (snd (dup_handle_operating_rights v f T))) \<le> Suc (unat (max_handle_id T))"
proof -
  have "table_inv (snd (add_handle h T)) \<and> unat (max_handle_id (snd (add_handle h T))) = Suc (unat (max_handle_id T))" for h
    using htable.inv_add [OF assms] assms(2) by (simp add: add_handle_def table_room_def unat_word_ariths)
  then show ?thesis
    using assms(1) by (auto simp: dup_handle_operating_rights_def case_prod_unfold split: option.split result.split)
qed

lemma table_exec_inv:
  assumes "table_inv T" and "table_room T"
  shows "table_inv (table_exec x T) \<and> unat (max_handle_id (table_exec x T)) \<le> Suc (unat (max_handle_id T))"
proof (cases x)
  case (TAdd h)
  then show ?thesis
    using htable.inv_add [OF assms] assms(2) by (simp add: add_handle_def table_room_def unat_word_ariths)
next
  case (TRemove v)
  then show ?thesis using inv_remove [OF assms(1)] by simp
next
  case (TCall c)
  show ?thesis
  proof (cases c)
    case (HDuplicate v r)
    then show ?thesis
      using TCall dup_inv [OF assms] assms(1) by (simp add: sys_handle_duplicate_def split: result.split)
  next
    case (HReplace v r)
    have "table_inv (snd (sys_handle_replace v r T)) \<and>
      unat (max_handle_id (snd (sys_handle_replace v r T))) \<le> Suc (unat (max_handle_id T))"
    proof (cases "rights_try_from r")
      case (Ok r')
      define f where "f = (\<lambda>handle_rights. if \<not> contains r' RIGHT_SAME_RIGHTS \<and> handle_rights AND r' \<noteq> r'
        then Err INVALID_ARGS else Ok r' :: rights zx_result)"
      obtain a T1 where d: "dup_handle_operating_rights v f T = (a, T1)" by fastforce
      obtain b T2 where rm: "remove_handle v T1 = (b, T2)" by fastforce
      have "table_inv T1" "unat (max_handle_id T1) \<le> Suc (unat (max_handle_id T))"
        using dup_inv [OF assms, of v f] d by simp_all
      moreover have "table_inv T2" "max_handle_id T2 = max_handle_id T1"
        using inv_remove [of T1 v] max_remove [of v T1] rm calculation by simp_all
      ultimately show ?thesis
        using Ok d rm by (simp add: sys_handle_replace_def f_def [symmetric] split: result.split)
    qed (use assms(1) in \<open>simp_all add: sys_handle_replace_def\<close>)
    then show ?thesis using TCall HReplace by simp
  next
    case (HToken v t)
    then show ?thesis
      using TCall assms(1) by (auto simp: table_inv_def get_cancel_token_def split: option.split)
  next
    case (HClose v)
    then show ?thesis
      using TCall inv_remove [OF assms(1), of v] assms(1) by (simp add: sys_handle_close_def case_prod_unfold)
  next
    case (HCloseMany vs)
    then show ?thesis using TCall close_many_inv [OF assms(1)] by simp
  qed
qed

lemma table_run_inv:
  "table_inv T \<Longrightarrow> unat (max_handle_id T) + length xs \<le> 2 ^ 30 \<Longrightarrow>
     table_inv (run_ops table_exec xs T) \<and> unat (max_handle_id (run_ops table_exec xs T)) \<le> unat (max_handle_id T) + length xs"
proof (induction xs arbitrary: T)
  case (Cons x xs)
  then have "table_inv (table_exec x T)" "unat (max_handle_id (table_exec x T)) \<le> Suc (unat (max_handle_id T))"
    using table_exec_inv [of T x] by (simp_all add: table_room_def)
  with Cons.IH [of "table_exec x T"] Cons.prems show ?case by simp
qed simp

text \<open>
  C2. Handle values are unforgeable names: in a process that made fewer than \<open>2 ^ 30\<close> table operations,
  a handle that is added gets a value that is not the invalid handle, has its two low bits set, was
  not in use, and reads back as exactly that handle; every handle that was there still reads back
  the same; and closing the new one restores all lookups.
\<close>

theorem handle_values_fresh:
  assumes "length xs < 2 ^ 30" and "T = run_ops table_exec xs empty_table" and "add_handle h T = (v, T')"
  shows "v \<noteq> INVALID_HANDLE \<and> v AND 3 = 3 \<and> get_handle v T = Err BAD_HANDLE \<and> get_handle v T' = Ok h \<and>
    (\<forall>u k. get_handle u T = Ok k \<longrightarrow> get_handle u T' = Ok k) \<and>
    remove_handle v T' = (Ok h, snd (remove_handle v T')) \<and>
    (\<forall>u. get_handle u (snd (remove_handle v T')) = get_handle u T)"
proof -
  have "table_inv empty_table" by (simp add: table_inv_def empty_table_def)
  then have inv: "table_inv T" and room: "table_room T"
    using table_run_inv [of empty_table xs] assms(1,2) by (simp_all add: table_room_def empty_table_def)
  have v: "v = handle_key (max_handle_id T)" and T': "T' = snd (add_handle h T)"
    using assms(3) by (auto simp: add_handle_def)
  have get: "get_handle u S = (case table_lookup u S of None \<Rightarrow> Err BAD_HANDLE | Some k \<Rightarrow> Ok k)" for u S
    by (auto simp: get_handle_def table_lookup_def split: option.split)
  have fresh: "table_lookup v T = None"
    using htable.fresh [OF inv room, of h] assms(3) by simp
  have look': "table_lookup u T' = (if u = v then Some h else table_lookup u T)" for u
    unfolding T' v by (rule lookup_add_handle)
  have "handles T' v = Some (h, [])"
    unfolding T' v by (simp add: add_handle_def)
  then have "remove_handle v T' = (Ok h, snd (remove_handle v T'))"
    by (simp add: remove_handle_def)
  with fresh look' show ?thesis
    using handle_key_nonzero [of "max_handle_id T"] handle_key_low_bits [of "max_handle_id T"]
    by (auto simp: get v lookup_remove_handle split: option.splits if_splits)
qed

theorem handle_values_fresh_witness:
  "get_handle 7 (snd (add_handle \<lparr>h_object = sample_object, h_rights = RIGHT_WRITE\<rparr> sample_table)) =
     Ok \<lparr>h_object = sample_object, h_rights = RIGHT_WRITE\<rparr>"
proof -
  let ?h = "\<lparr>h_object = sample_object, h_rights = RIGHT_WRITE\<rparr>"
  let ?xs = "[TAdd \<lparr>h_object = sample_object, h_rights = RIGHT_READ OR RIGHT_DUPLICATE\<rparr>]"
  have "length ?xs < 2 ^ 30" "sample_table = run_ops table_exec ?xs empty_table"
    by (simp_all add: sample_table_def)
  moreover have "add_handle ?h sample_table = (7, snd (add_handle ?h sample_table))"
    by (simp add: sample_table_def add_handle_def empty_table_def handle_key_def)
  ultimately show ?thesis
    using handle_values_fresh [of ?xs sample_table ?h 7 "snd (add_handle ?h sample_table)"] by blast
qed

text \<open>
  \<^verbatim>\<open>remove_handles\<close> removes exactly the handles before the first invalid one: it succeeds, with the
  handles in order, when all values are valid, and otherwise reports \<open>BAD_HANDLE\<close> and leaves the values
  after the invalid one in the table.
\<close>

theorem remove_handles_stops:
  assumes "distinct vs" and "\<forall>v \<in> set vs. table_lookup v T \<noteq> None"
  shows "fst (remove_handles vs T) = Ok (map (\<lambda>v. the (table_lookup v T)) vs) \<and>
    (\<forall>u. table_lookup u (snd (remove_handles vs T)) = (if u \<in> set vs then None else table_lookup u T)) \<and>
    (table_lookup b T = None \<or> b \<in> set vs \<longrightarrow>
       remove_handles (vs @ b # rest) T = (Err BAD_HANDLE, snd (remove_handles vs T)))"
  using assms
proof (induction vs arbitrary: T)
  case Nil
  then show ?case by (auto simp: remove_handle_def table_lookup_def)
next
  case (Cons v vs)
  obtain h q where hq: "handles T v = Some (h, q)" using Cons.prems(2) by (auto simp: table_lookup_def)
  define T1 where "T1 = snd (remove_handle v T)"
  have rm: "remove_handle v T = (Ok h, T1)" using hq by (simp add: T1_def remove_handle_def)
  have look: "table_lookup u T1 = (if u = v then None else table_lookup u T)" for u
    unfolding T1_def by (rule lookup_remove_handle)
  have v: "table_lookup v T = Some h" using hq by (simp add: table_lookup_def)
  have "\<forall>u \<in> set vs. table_lookup u T1 \<noteq> None" using Cons.prems by (auto simp: look)
  with Cons.IH [of T1] Cons.prems(1) have IH: "fst (remove_handles vs T1) = Ok (map (\<lambda>v. the (table_lookup v T1)) vs)"
    "\<forall>u. table_lookup u (snd (remove_handles vs T1)) = (if u \<in> set vs then None else table_lookup u T1)"
    "table_lookup b T1 = None \<or> b \<in> set vs \<longrightarrow>
       remove_handles (vs @ b # rest) T1 = (Err BAD_HANDLE, snd (remove_handles vs T1))"
    by auto
  have "map (\<lambda>v. the (table_lookup v T1)) vs = map (\<lambda>v. the (table_lookup v T)) vs"
    using Cons.prems(1) by (auto simp: look)
  with IH rm v look show ?case by (cases "remove_handles vs T1") auto
qed

theorem remove_handles_stops_witness:
  "remove_handles ([] @ 11 # [3]) sample_table = (Err BAD_HANDLE, snd (remove_handles [] sample_table)) \<and>
   table_lookup 3 (snd (remove_handles [] sample_table)) \<noteq> None"
proof -
  have "table_lookup 11 sample_table = None" "table_lookup 3 sample_table \<noteq> None"
    by (simp_all add: sample_simps)
  with remove_handles_stops [of "[]" sample_table 11 "[3]"] show ?thesis by simp
qed

text \<open>
  A typed lookup with rights succeeds exactly for a valid handle to an object of the asked type that
  carries all asked rights, and returns that object; otherwise it reports \<open>BAD_HANDLE\<close>, \<open>WRONG_TYPE\<close> or
  \<open>ACCESS_DENIED\<close>, in this order of precedence.
\<close>

theorem get_object_with_rights_spec:
  "get_object_with_rights ty v desired T =
     (case table_lookup v T of
        None \<Rightarrow> Err BAD_HANDLE
      | Some h \<Rightarrow>
          if obj_type_name (h_object h) \<noteq> ty then Err WRONG_TYPE
          else if \<not> contains (h_rights h) desired then Err ACCESS_DENIED
          else Ok (h_object h))"
  by (auto simp: get_object_with_rights_def get_dyn_object_and_rights_def get_handle_def downcast_def
      table_lookup_def split: option.split)

end
