(* ===== verification/Exception.thy ===== *)
theory Exception
  imports Channel Handle_Table
begin

text \<open>
  Exceptions, \<^verbatim>\<open>zircon-object/src/task/exception.rs\<close>: the exception channel endpoint a task owns
  (\<open>exceptionate\<close>), the exception object a handler receives, and the search for a handler.

  A bound exceptionate holds the kernel's end of a channel and, while a user handle keeps it alive,
  the user's end; sending is \<open>channel_write\<close> of the channel theory. The search for a handler runs
  over \<open>exc_target\<close>s; what a handler does with the exception object before it closes it is a list of
  \<open>exc_call\<close>s, given by the environment.
\<close>

section \<open>Types of exceptions and channels\<close>

datatype exception_type =
    XGeneral | FatalPageFault | UndefinedInstruction | SoftwareBreakpoint | HardwareBreakpoint
  | UnalignedAccess | XSynth | ThreadStarting | ThreadExiting | PolicyError | ProcessStarting

fun exception_code :: "exception_type \<Rightarrow> u32" where
  "exception_code XGeneral = 0x008"
| "exception_code FatalPageFault = 0x108"
| "exception_code UndefinedInstruction = 0x208"
| "exception_code SoftwareBreakpoint = 0x308"
| "exception_code HardwareBreakpoint = 0x408"
| "exception_code UnalignedAccess = 0x508"
| "exception_code XSynth = 0x8000"
| "exception_code ThreadStarting = 0x8008"
| "exception_code ThreadExiting = 0x8108"
| "exception_code PolicyError = 0x8208"
| "exception_code ProcessStarting = 0x8308"

definition is_synth :: "exception_type \<Rightarrow> bool" where
  "is_synth ty \<longleftrightarrow> exception_code ty AND exception_code XSynth \<noteq> 0"

datatype exc_channel_type = ECNone | ECDebugger | ECThread | ECProcess | ECJob | ECJobDebugger

section \<open>The exception being handled\<close>

record exception_inner =
  current_channel_type :: exc_channel_type
  exc_handled :: bool
  second_chance :: bool

record exception =
  exc_pid :: u64
  exc_tid :: u64
  exc_type :: exception_type
  exc_inner :: exception_inner

definition exception_new :: "u64 \<Rightarrow> u64 \<Rightarrow> exception_type \<Rightarrow> exception" where
  "exception_new pid tid ty =
     \<lparr>exc_pid = pid, exc_tid = tid, exc_type = ty,
      exc_inner = \<lparr>current_channel_type = ECNone, exc_handled = False, second_chance = False\<rparr>\<rparr>"

text \<open>The wire form of \<^verbatim>\<open>ExceptionInfo\<close>: two 64-bit ids, the type, and four bytes of padding.\<close>

definition exception_info_pack :: "exception \<Rightarrow> u8 list" where
  "exception_info_pack x =
     le_bytes 8 (exc_pid x) @ le_bytes 8 (exc_tid x) @ le_bytes 4 (exception_code (exc_type x)) @ le_bytes 4 (0 :: u32)"

section \<open>The kernel's endpoint\<close>

datatype exceptionate =
    EInit
  | EBind (kernel_end: "handle channel") (user_end: "handle channel option") (bound_rights: rights)
  | EShutdown

definition exceptionate_new :: exceptionate where
  "exceptionate_new = EInit"

text \<open>Shutting down drops the kernel's end; the user's end, if it lives, sees its peer close.\<close>

definition exceptionate_shutdown :: "exceptionate \<Rightarrow> exceptionate \<times> handle channel option" where
  "exceptionate_shutdown x = (EShutdown, case x of EBind _ u _ \<Rightarrow> fst (channel_drop u) | _ \<Rightarrow> None)"

definition has_channel :: "exceptionate \<Rightarrow> bool" where
  "has_channel x = (case x of EBind _ (Some _) _ \<Rightarrow> True | _ \<Rightarrow> False)"

definition create_channel :: "rights \<Rightarrow> u64 \<Rightarrow> exceptionate \<Rightarrow> handle channel zx_result \<times> exceptionate" where
  "create_channel rights koid x =
     (case x of
        EShutdown \<Rightarrow> (Err BAD_STATE, x)
      | EBind _ (Some _) _ \<Rightarrow> (Err ALREADY_BOUND, x)
      | _ \<Rightarrow>
          (let (channel, user_channel, _) = channel_create koid
           in (Ok user_channel, EBind channel (Some user_channel) rights)))"

text \<open>
  \<^verbatim>\<open>send_exception\<close>: \<open>ob\<close> is the new exception object. \<open>Ok\<close> means the message is on its way and the
  caller may await the object's closing.
\<close>

definition send_exception :: "exception \<Rightarrow> object_ref \<Rightarrow> exceptionate \<Rightarrow> unit zx_result \<times> exceptionate" where
  "send_exception x ob e =
     (case e of
        EBind k u r \<Rightarrow>
          (let msg = \<lparr>msg_data = exception_info_pack x,
                      msg_handles = [\<lparr>h_object = ob, h_rights = RIGHT_DEFAULT_EXCEPTION\<rparr>]\<rparr>;
               (res, u', _) = channel_write msg u
           in case res of
                Ok _ \<Rightarrow> (Ok (), EBind k u' r)
              | Err err \<Rightarrow> (if err = PEER_CLOSED then (Err NEXT, EInit) else (Err err, EBind k u' r))
              | Panic \<Rightarrow> (Panic, EBind k u' r))
      | _ \<Rightarrow> (Err NEXT, e))"

section \<open>The exception object\<close>

definition exc_state :: "exception \<Rightarrow> u32" where
  "exc_state x = (if exc_handled (exc_inner x) then 1 else 0)"

definition exc_set_state :: "u32 \<Rightarrow> exception \<Rightarrow> unit zx_result \<times> exception" where
  "exc_set_state v x =
     (if v > 1 then (Err INVALID_ARGS, x)
      else (Ok (), x\<lparr>exc_inner := (exc_inner x)\<lparr>exc_handled := (v = 1)\<rparr>\<rparr>))"

definition exc_strategy :: "exception \<Rightarrow> u32" where
  "exc_strategy x = (if second_chance (exc_inner x) then 1 else 0)"

definition exc_set_strategy :: "u32 \<Rightarrow> exception \<Rightarrow> unit zx_result \<times> exception" where
  "exc_set_strategy v x =
     (if v > 1 then (Err INVALID_ARGS, x)
      else if current_channel_type (exc_inner x) \<in> {ECDebugger, ECJobDebugger}
      then (Ok (), x\<lparr>exc_inner := (exc_inner x)\<lparr>second_chance := (v = 1)\<rparr>\<rparr>)
      else (Err BAD_STATE, x))"

definition get_thread_handle :: "object_ref \<Rightarrow> rights \<Rightarrow> handle" where
  "get_thread_handle thread r = \<lparr>h_object = thread, h_rights = r AND RIGHT_DEFAULT_THREAD\<rparr>"

definition get_process_handle :: "object_ref \<Rightarrow> rights \<Rightarrow> exception \<Rightarrow> handle zx_result" where
  "get_process_handle process r x =
     (if current_channel_type (exc_inner x) = ECThread then Err ACCESS_DENIED
      else Ok \<lparr>h_object = process, h_rights = r AND RIGHT_DEFAULT_PROCESS\<rparr>)"

datatype exc_call = SetState u32 | SetStrategy u32

fun exc_apply :: "exc_call list \<Rightarrow> exception \<Rightarrow> exception" where
  "exc_apply [] x = x"
| "exc_apply (SetState v # cs) x = exc_apply cs (snd (exc_set_state v x))"
| "exc_apply (SetStrategy v # cs) x = exc_apply cs (snd (exc_set_strategy v x))"

section \<open>The search for a handler\<close>

text \<open>
  The iterators yield exceptionates of the thread, its process (and the process's debugger), and the
  jobs from the process's job up to the root, named by their position \<open>jobs\<close>. The state
  \<open>SJob (j # js)\<close> has reached job \<open>j\<close> with ancestors \<open>js\<close>; \<open>SJob []\<close> is \<^verbatim>\<open>Finished\<close>.
\<close>

datatype exc_target = XDebugger | XThread | XProcess | XJob nat | XJobDebugger nat

fun target_type :: "exc_target \<Rightarrow> exc_channel_type" where
  "target_type XDebugger = ECDebugger"
| "target_type XThread = ECThread"
| "target_type XProcess = ECProcess"
| "target_type (XJob j) = ECJob"
| "target_type (XJobDebugger j) = ECJobDebugger"

datatype iter_state = SDebug bool | SThread | SProcess | SJob "nat list"

fun exceptionate_next :: "nat list \<Rightarrow> bool \<Rightarrow> iter_state \<Rightarrow> (exc_target \<times> iter_state) option" where
  "exceptionate_next jobs sc (SDebug second) =
     (if second \<and> \<not> sc
      then (case jobs of [] \<Rightarrow> None | j # js \<Rightarrow> Some (XJob j, SJob js))
      else Some (XDebugger, if second then SJob jobs else SThread))"
| "exceptionate_next jobs sc SThread = Some (XThread, SProcess)"
| "exceptionate_next jobs sc SProcess = Some (XProcess, SDebug True)"
| "exceptionate_next jobs sc (SJob []) = None"
| "exceptionate_next jobs sc (SJob (j # js)) = Some (XJob j, SJob js)"

fun job_debugger_next :: "nat list \<Rightarrow> (exc_target \<times> nat list) option" where
  "job_debugger_next [] = None"
| "job_debugger_next (j # js) = Some (XJobDebugger j, js)"

datatype exc_iter = IterExc iter_state | IterJobDebugger "nat list" | IterOne "exc_target option"

fun iter_next :: "nat list \<Rightarrow> bool \<Rightarrow> exc_iter \<Rightarrow> (exc_target \<times> exc_iter) option" where
  "iter_next jobs sc (IterExc st) = map_option (map_prod id IterExc) (exceptionate_next jobs sc st)"
| "iter_next jobs sc (IterJobDebugger js) = map_option (map_prod id IterJobDebugger) (job_debugger_next js)"
| "iter_next jobs sc (IterOne t) = map_option (\<lambda>x. (x, IterOne None)) t"

fun iter_left :: "nat list \<Rightarrow> exc_iter \<Rightarrow> nat" where
  "iter_left jobs (IterExc (SDebug False)) = length jobs + 4"
| "iter_left jobs (IterExc SThread) = length jobs + 3"
| "iter_left jobs (IterExc SProcess) = length jobs + 2"
| "iter_left jobs (IterExc (SDebug True)) = length jobs + 1"
| "iter_left jobs (IterExc (SJob js)) = length js"
| "iter_left jobs (IterJobDebugger js) = length js"
| "iter_left jobs (IterOne t) = (case t of None \<Rightarrow> 0 | Some _ \<Rightarrow> 1)"

lemma iter_next_left: "iter_next jobs sc it = Some (t, it') \<Longrightarrow> iter_left jobs it' < iter_left jobs it"
  by (cases "(jobs, it)" rule: iter_left.cases)
    (auto split: list.splits option.splits if_splits elim!: job_debugger_next.elims exceptionate_next.elims)

text \<open>
  \<^verbatim>\<open>handle_with\<close>: \<open>send t\<close> is what sending to target \<open>t\<close> returns, \<open>respond t\<close> the calls its handler makes
  before it closes the object. The result comes with the targets that received the exception, in
  order, and the exception as it is left.
\<close>

function handle_with ::
  "(exc_target \<Rightarrow> unit zx_result) \<Rightarrow> (exc_target \<Rightarrow> exc_call list) \<Rightarrow> nat list \<Rightarrow> bool \<Rightarrow> exc_iter
     \<Rightarrow> exception \<Rightarrow> unit zx_result \<times> exc_target list \<times> exception" where
  "handle_with send respond jobs first_only it x =
     (case iter_next jobs (second_chance (exc_inner x)) it of
        None \<Rightarrow> (Err NEXT, [], x)
      | Some (t, it') \<Rightarrow>
          (case send t of
             Err e \<Rightarrow>
               (if e = NEXT then handle_with send respond jobs first_only it' x else (Err e, [], x))
           | Panic \<Rightarrow> (Panic, [], x)
           | Ok _ \<Rightarrow>
               (let x1 = x\<lparr>exc_inner := (exc_inner x)\<lparr>current_channel_type := target_type t\<rparr>\<rparr>;
                    x2 = exc_apply (respond t) x1;
                    x3 = x2\<lparr>exc_inner := (exc_inner x2)\<lparr>current_channel_type := ECNone\<rparr>\<rparr>
                in if exc_handled (exc_inner x3) \<or> first_only then (Ok (), [t], x3)
                   else (let (r, ts, x4) = handle_with send respond jobs first_only it' x3
                         in (r, t # ts, x4)))))"
  by pat_completeness auto
termination
  by (relation "measure (\<lambda>(_, _, jobs, _, it, _). iter_left jobs it)") (auto dest: iter_next_left)

text \<open>\<^verbatim>\<open>handle\<close>: the third component tells whether the process is to exit.\<close>

definition exception_handle ::
  "(exc_target \<Rightarrow> unit zx_result) \<Rightarrow> (exc_target \<Rightarrow> exc_call list) \<Rightarrow> nat list \<Rightarrow> exception
     \<Rightarrow> unit zx_result \<times> exc_target list \<times> bool" where
  "exception_handle send respond jobs x =
     (let (r, ts, _) =
        (if exc_type x = ProcessStarting then handle_with send respond jobs True (IterJobDebugger jobs) x
         else if exc_type x \<in> {ThreadStarting, ThreadExiting}
         then handle_with send respond jobs False (IterOne (Some XDebugger)) x
         else handle_with send respond jobs False (IterExc (SDebug False)) x)
      in (r, ts, r = Err NEXT \<and> \<not> is_synth (exc_type x)))"


declare handle_with.simps [simp del]

section \<open>Who receives an exception\<close>

text \<open>What a handler's calls amount to: its last valid choice of state, and of strategy.\<close>

fun wants_handled :: "bool \<Rightarrow> exc_call list \<Rightarrow> bool" where
  "wants_handled b [] = b"
| "wants_handled b (SetState v # cs) = wants_handled (if v > 1 then b else v = 1) cs"
| "wants_handled b (SetStrategy v # cs) = wants_handled b cs"

fun wants_second :: "bool \<Rightarrow> exc_call list \<Rightarrow> bool" where
  "wants_second b [] = b"
| "wants_second b (SetState v # cs) = wants_second b cs"
| "wants_second b (SetStrategy v # cs) = wants_second (if v > 1 then b else v = 1) cs"

text \<open>The receivers: those reached in order, up to and with the first that handles the exception.\<close>

fun up_to_first :: "('a \<Rightarrow> bool) \<Rightarrow> 'a list \<Rightarrow> 'a list" where
  "up_to_first h [] = []"
| "up_to_first h (t # ts) = (if h t then [t] else t # up_to_first h ts)"

lemma exc_apply_inner:
  "exc_handled (exc_inner (exc_apply cs x)) = wants_handled (exc_handled (exc_inner x)) cs"
  "current_channel_type (exc_inner (exc_apply cs x)) = current_channel_type (exc_inner x)"
  "current_channel_type (exc_inner x) = ECDebugger \<Longrightarrow>
     second_chance (exc_inner (exc_apply cs x)) = wants_second (second_chance (exc_inner x)) cs"
  "current_channel_type (exc_inner x) \<notin> {ECDebugger, ECJobDebugger} \<Longrightarrow>
     second_chance (exc_inner (exc_apply cs x)) = second_chance (exc_inner x)"
  by (induction cs x rule: exc_apply.induct) (auto simp: exc_set_state_def exc_set_strategy_def)

definition answered :: "(exc_target \<Rightarrow> exc_call list) \<Rightarrow> exc_target \<Rightarrow> bool" where
  "answered respond t \<longleftrightarrow> wants_handled False (respond t)"

definition search_result ::
  "(exc_target \<Rightarrow> unit zx_result) \<Rightarrow> (exc_target \<Rightarrow> exc_call list) \<Rightarrow> exc_target list
     \<Rightarrow> unit zx_result \<times> exc_target list" where
  "search_result send respond order =
     (let reached = filter (\<lambda>t. send t = Ok ()) order
      in (if list_ex (answered respond) reached then Ok () else Err NEXT,
          up_to_first (answered respond) reached))"

definition verdict :: "unit zx_result \<times> exc_target list \<times> exception \<Rightarrow> unit zx_result \<times> exc_target list" where
  "verdict = (\<lambda>(r, ts, x). (r, ts))"

lemma verdict_eq [simp]: "verdict (r, ts, x) = (r, ts)"
  by (simp add: verdict_def)

lemma search_result_Nil [simp]: "search_result send respond [] = (Err NEXT, [])"
  by (simp add: search_result_def)

text \<open>One offer, on an exception that nobody has handled yet.\<close>

lemma handle_with_step:
  assumes "iter_next jobs (second_chance (exc_inner x)) it = Some (t, it')"
    and "\<not> exc_handled (exc_inner x)" and "\<forall>t. send t = Ok () \<or> send t = Err NEXT"
    and rest: "\<And>x'. \<lbrakk>\<not> exc_handled (exc_inner x');
         second_chance (exc_inner x') =
           (if send t = Ok () \<and> t = XDebugger then wants_second (second_chance (exc_inner x)) (respond t)
            else second_chance (exc_inner x))\<rbrakk>
       \<Longrightarrow> verdict (handle_with send respond jobs False it' x') = search_result send respond order"
    and nj: "target_type t \<noteq> ECJobDebugger"
  shows "verdict (handle_with send respond jobs False it x) = search_result send respond (t # order)"
proof (cases "send t = Ok ()")
  case True
  define x1 where "x1 = x\<lparr>exc_inner := (exc_inner x)\<lparr>current_channel_type := target_type t\<rparr>\<rparr>"
  define x2 where "x2 = exc_apply (respond t) x1"
  define x3 where "x3 = x2\<lparr>exc_inner := (exc_inner x2)\<lparr>current_channel_type := ECNone\<rparr>\<rparr>"
  have h: "exc_handled (exc_inner x3) = answered respond t"
    using assms(2) by (simp add: x3_def x2_def x1_def exc_apply_inner answered_def)
  then have h2: "exc_handled (exc_inner x2) = answered respond t" by (simp add: x3_def)
  have sc: "second_chance (exc_inner x3) =
      (if send t = Ok () \<and> t = XDebugger then wants_second (second_chance (exc_inner x)) (respond t)
       else second_chance (exc_inner x))"
    using True nj by (cases t) (simp_all add: x3_def x2_def x1_def exc_apply_inner)
  show ?thesis
  proof (cases "answered respond t")
    case True
    with \<open>send t = Ok ()\<close> h show ?thesis
      by (subst handle_with.simps) (simp add: assms(1) x1_def x2_def x3_def search_result_def)
  next
    case False
    then have "verdict (handle_with send respond jobs False it' x3) = search_result send respond order"
      using rest h sc by blast
    with False \<open>send t = Ok ()\<close> h2 show ?thesis
      by (subst handle_with.simps)
        (simp add: assms(1) x1_def [symmetric] x2_def [symmetric] x3_def [symmetric] search_result_def
          case_prod_unfold verdict_def)
  qed
next
  case False
  with assms(3) have "send t = Err NEXT" by blast
  then show ?thesis
    using rest [of x] assms(2)
    by (subst handle_with.simps) (simp add: assms(1) search_result_def)
qed

lemma handle_with_jobs:
  assumes "\<forall>t. send t = Ok () \<or> send t = Err NEXT" and "\<not> exc_handled (exc_inner x)"
  shows "verdict (handle_with send respond jobs False (IterExc (SJob js)) x)
           = search_result send respond (map XJob js)"
  using assms(2)
proof (induction js arbitrary: x)
  case Nil
  then show ?case by (subst handle_with.simps) simp
next
  case (Cons j js)
  then show ?case
    using handle_with_step [of jobs x "IterExc (SJob (j # js))" "XJob j" "IterExc (SJob js)" send respond "map XJob js"]
      assms(1) by simp
qed

lemma handle_with_second:
  assumes "\<forall>t. send t = Ok () \<or> send t = Err NEXT" and "\<not> exc_handled (exc_inner x)"
  shows "verdict (handle_with send respond jobs False (IterExc (SDebug True)) x)
           = search_result send respond
               ((if second_chance (exc_inner x) then [XDebugger] else []) @ map XJob jobs)"
proof (cases "second_chance (exc_inner x)")
  case True
  then show ?thesis
    using handle_with_step [of jobs x "IterExc (SDebug True)" XDebugger "IterExc (SJob jobs)" send respond "map XJob jobs"]
      assms handle_with_jobs by simp
next
  case False
  show ?thesis
  proof (cases jobs)
    case Nil
    with False show ?thesis by (subst handle_with.simps) simp
  next
    case (Cons j js)
    with False show ?thesis
      using handle_with_step [of jobs x "IterExc (SDebug True)" "XJob j" "IterExc (SJob js)" send respond "map XJob js"]
        assms handle_with_jobs by simp
  qed
qed


lemma handle_with_exc:
  assumes "\<forall>t. send t = Ok () \<or> send t = Err NEXT" and "\<not> exc_handled (exc_inner x)"
    and "\<not> second_chance (exc_inner x)"
  shows "verdict (handle_with send respond jobs False (IterExc (SDebug False)) x)
           = search_result send respond
               ([XDebugger, XThread, XProcess]
                @ (if send XDebugger = Ok () \<and> wants_second False (respond XDebugger) then [XDebugger] else [])
                @ map XJob jobs)"
proof -
  let ?sc = "send XDebugger = Ok () \<and> wants_second False (respond XDebugger)"
  let ?rest = "(if ?sc then [XDebugger] else []) @ map XJob jobs"
  have p: "verdict (handle_with send respond jobs False (IterExc SProcess) x') = search_result send respond (XProcess # ?rest)"
    if "\<not> exc_handled (exc_inner x')" "second_chance (exc_inner x') = ?sc" for x'
    by (rule handle_with_step [where it' = "IterExc (SDebug True)"])
      (use that assms(1) in \<open>simp_all add: handle_with_second\<close>)
  have t: "verdict (handle_with send respond jobs False (IterExc SThread) x') = search_result send respond (XThread # XProcess # ?rest)"
    if "\<not> exc_handled (exc_inner x')" "second_chance (exc_inner x') = ?sc" for x'
    by (rule handle_with_step [where it' = "IterExc SProcess"]) (use that assms(1) p in simp_all)
  have "verdict (handle_with send respond jobs False (IterExc (SDebug False)) x)
      = search_result send respond (XDebugger # XThread # XProcess # ?rest)"
    by (rule handle_with_step [where it' = "IterExc SThread"]) (use assms t in auto)
  then show ?thesis by simp
qed

text \<open>
  C16. An architectural or policy exception is offered, in this order, to the process debugger, the
  thread, the process, the debugger again if it asked for a second chance, and the jobs from the
  process's own up to the root. It reaches exactly those of them that have a live channel, up to
  the first whose handler closes it as handled. If none handles it, and it is not a synthetic one,
  the process is made to exit; if one does, it is not.
\<close>

theorem exception_reaches_handlers_in_order:
  assumes "\<forall>t. send t = Ok () \<or> send t = Err NEXT"
    and "ty \<notin> {ProcessStarting, ThreadStarting, ThreadExiting}"
  shows "exception_handle send respond jobs (exception_new pid tid ty) =
     (let order = [XDebugger, XThread, XProcess]
            @ (if send XDebugger = Ok () \<and> wants_second False (respond XDebugger) then [XDebugger] else [])
            @ map XJob jobs;
          reached = filter (\<lambda>t. send t = Ok ()) order;
          handles = (\<lambda>t. wants_handled False (respond t))
      in (if list_ex handles reached then Ok () else Err NEXT,
          up_to_first handles reached,
          \<not> list_ex handles reached \<and> \<not> is_synth ty))"
proof -
  let ?x = "exception_new pid tid ty"
  let ?h = "handle_with send respond jobs False (IterExc (SDebug False)) ?x"
  have a: "answered respond = (\<lambda>t. wants_handled False (respond t))"
    by (simp add: fun_eq_iff answered_def)
  have "verdict ?h = search_result send respond ([XDebugger, XThread, XProcess]
                @ (if send XDebugger = Ok () \<and> wants_second False (respond XDebugger) then [XDebugger] else [])
                @ map XJob jobs)"
    by (rule handle_with_exc [OF assms(1)]) (simp_all add: exception_new_def)
  moreover have "exception_handle send respond jobs ?x =
      (fst (verdict ?h), snd (verdict ?h), fst (verdict ?h) = Err NEXT \<and> \<not> is_synth ty)"
    using assms(2) by (simp add: exception_handle_def exception_new_def verdict_def case_prod_unfold)
  ultimately show ?thesis by (simp only: search_result_def a Let_def fst_conv snd_conv) auto
qed

definition sample_respond :: "exc_target \<Rightarrow> exc_call list" where
  "sample_respond t = (case t of XDebugger \<Rightarrow> [SetStrategy 1] | XJob j \<Rightarrow> [SetState 1] | _ \<Rightarrow> [SetState 2])"

theorem exception_reaches_handlers_in_order_witness:
  "exception_handle (\<lambda>t. if t = XThread then Err NEXT else Ok ()) sample_respond [3, 1]
     (exception_new 1024 1025 FatalPageFault) = (Ok (), [XDebugger, XProcess, XDebugger, XJob 3], False)"
  by (subst exception_reaches_handlers_in_order) (simp_all add: sample_respond_def)

section \<open>Rights carried by an exception\<close>

text \<open>The handles an exception object gives out never exceed the rights its channel was bound with.\<close>

lemma exception_handles_bounded:
  "contains r (h_rights (get_thread_handle thread r))"
  "get_process_handle process r x = Ok h \<Longrightarrow> contains r (h_rights h)"
  by (auto simp: get_thread_handle_def get_process_handle_def contains_def ac_simps split: if_splits)

lemma create_channel_exclusive:
  "create_channel r koid e = (Ok ch, e') \<Longrightarrow>
     has_channel e' \<and> \<not> has_channel e \<and> create_channel r' koid' e' = (Err ALREADY_BOUND, e')"
  by (auto simp: create_channel_def has_channel_def case_prod_unfold split: exceptionate.splits option.splits)

lemma send_exception_NEXT_iff: "fst (send_exception x ob e) = Err NEXT \<longleftrightarrow> \<not> has_channel e"
  by (cases e) (auto simp: send_exception_def has_channel_def channel_write_def split: option.splits)

end
