(* ===== verification/Job.thy ===== *)
theory Job
  imports Exception
begin

text \<open>
  Jobs and their policies, \<^verbatim>\<open>zircon-object/src/task/job_policy.rs\<close> and the parts of
  \<^verbatim>\<open>zircon-object/src/task/job.rs\<close> that touch one job only. A policy is the list of the 15 optional actions;
  jobs and processes are named by numbers. What a job does to its parent, its children and its
  processes is in the theory of the task tree.
\<close>

section \<open>Policies\<close>

datatype policy_condition =
    BadHandle | WrongObject | VmarWx | NewAny | NewVMO | NewChannel | NewEvent | NewEventPair
  | NewPort | NewSocket | NewFIFO | NewTimer | NewProcess | NewProfile | AmbientMarkVMOExec

fun condition_code :: "policy_condition \<Rightarrow> nat" where
  "condition_code BadHandle = 0"
| "condition_code WrongObject = 1"
| "condition_code VmarWx = 2"
| "condition_code NewAny = 3"
| "condition_code NewVMO = 4"
| "condition_code NewChannel = 5"
| "condition_code NewEvent = 6"
| "condition_code NewEventPair = 7"
| "condition_code NewPort = 8"
| "condition_code NewSocket = 9"
| "condition_code NewFIFO = 10"
| "condition_code NewTimer = 11"
| "condition_code NewProcess = 12"
| "condition_code NewProfile = 13"
| "condition_code AmbientMarkVMOExec = 14"

datatype policy_action = Allow | Deny | AllowException | DenyException | KillProcess

type_synonym job_policy = "policy_action option list"

record basic_policy =
  bp_condition :: policy_condition
  bp_action :: policy_action

datatype set_policy_options = Absolute | Relative

definition default_policy :: job_policy where
  "default_policy = replicate 15 None"

definition get_action :: "policy_condition \<Rightarrow> job_policy \<Rightarrow> policy_action option" where
  "get_action c p = p ! condition_code c"

definition policy_apply :: "basic_policy \<Rightarrow> job_policy \<Rightarrow> job_policy" where
  "policy_apply b p = p[condition_code (bp_condition b) := Some (bp_action b)]"

definition policy_merge :: "job_policy \<Rightarrow> job_policy \<Rightarrow> job_policy" where
  "policy_merge p parent =
     foldl (\<lambda>new i. if parent ! i \<noteq> None then new[i := parent ! i] else new) p [0..<15]"

datatype slack = SlackCenter | SlackEarly | SlackLate

record timer_slack_policy =
  min_slack :: int
  default_mode :: slack

definition check_timer_policy :: "timer_slack_policy \<Rightarrow> unit zx_result" where
  "check_timer_policy p = (if min_slack p < 0 then Err INVALID_ARGS else Ok ())"

record timer_slack =
  slack_amount :: int
  slack_mode :: slack

definition default_slack :: timer_slack where
  "default_slack = \<lparr>slack_amount = 0, slack_mode = SlackCenter\<rparr>"

definition generate_new :: "timer_slack_policy \<Rightarrow> timer_slack \<Rightarrow> timer_slack" where
  "generate_new p s = \<lparr>slack_amount = max (slack_amount s) (min_slack p), slack_mode = default_mode p\<rparr>"

section \<open>One job\<close>

record job =
  job_base :: kobj
  job_parent :: "nat option"
  job_parent_policy :: job_policy
  job_exceptionate :: exceptionate
  job_debug_exceptionate :: exceptionate
  job_policy_set :: job_policy
  job_children :: "nat list"
  job_processes :: "nat list"
  job_killed :: bool
  job_timer_policy :: timer_slack

definition job_new :: "nat option \<Rightarrow> job_policy \<Rightarrow> u64 \<Rightarrow> job" where
  "job_new parent parent_policy koid =
     \<lparr>job_base = fst (kobject_new koid), job_parent = parent, job_parent_policy = parent_policy,
      job_exceptionate = exceptionate_new, job_debug_exceptionate = exceptionate_new,
      job_policy_set = default_policy, job_children = [], job_processes = [], job_killed = False,
      job_timer_policy = default_slack\<rparr>"

definition job_root :: "u64 \<Rightarrow> job" where
  "job_root koid = job_new None default_policy koid"

definition job_effective_policy :: "job \<Rightarrow> job_policy" where
  "job_effective_policy j = policy_merge (job_policy_set j) (job_parent_policy j)"

text \<open>\<^verbatim>\<open>create_child\<close>: the child, named \<open>c\<close>, and the changed parent, named \<open>p\<close>.\<close>

definition create_child :: "nat \<Rightarrow> nat \<Rightarrow> u64 \<Rightarrow> job \<Rightarrow> job zx_result \<times> job" where
  "create_child p c koid j =
     (if job_killed j then (Err BAD_STATE, j)
      else (Ok (job_new (Some p) (policy_merge (job_policy_set j) (job_parent_policy j)) koid),
            j\<lparr>job_children := job_children j @ [c]\<rparr>))"

definition job_is_empty :: "job \<Rightarrow> bool" where
  "job_is_empty j \<longleftrightarrow> job_processes j = [] \<and> job_children j = []"

fun apply_policies :: "set_policy_options \<Rightarrow> basic_policy list \<Rightarrow> job \<Rightarrow> unit zx_result \<times> job" where
  "apply_policies opts [] j = (Ok (), j)"
| "apply_policies opts (b # bs) j =
     (if get_action (bp_condition b) (job_parent_policy j) \<noteq> None
      then (case opts of
              Absolute \<Rightarrow> (Err ALREADY_EXISTS, j)
            | Relative \<Rightarrow> apply_policies opts bs j)
      else apply_policies opts bs (j\<lparr>job_policy_set := policy_apply b (job_policy_set j)\<rparr>))"

definition set_policy_basic :: "set_policy_options \<Rightarrow> basic_policy list \<Rightarrow> job \<Rightarrow> unit zx_result \<times> job" where
  "set_policy_basic opts bs j =
     (if \<not> job_is_empty j then (Err BAD_STATE, j) else apply_policies opts bs j)"

definition set_policy_timer_slack :: "timer_slack_policy \<Rightarrow> job \<Rightarrow> unit zx_result \<times> job" where
  "set_policy_timer_slack p j =
     (if \<not> job_is_empty j then (Err BAD_STATE, j)
      else case check_timer_policy p of
             Ok _ \<Rightarrow> (Ok (), j\<lparr>job_timer_policy := generate_new p (job_timer_policy j)\<rparr>)
           | r \<Rightarrow> (r, j))"

definition job_add_process :: "nat \<Rightarrow> job \<Rightarrow> unit zx_result \<times> job" where
  "job_add_process p j =
     (if job_killed j then (Err BAD_STATE, j) else (Ok (), j\<lparr>job_processes := job_processes j @ [p]\<rparr>))"

definition check_root_job :: "job \<Rightarrow> unit zx_result" where
  "check_root_job j = (if job_parent j \<noteq> None then Err ACCESS_DENIED else Ok ())"

text \<open>
  \<^verbatim>\<open>sys_job_set_policy\<close> on the job its handle names: the policy records come from the caller's memory
  and are the arguments \<open>read_basic\<close> and \<open>read_timer\<close>.
\<close>

definition JOB_POL_BASE_V1 :: u32 where "JOB_POL_BASE_V1 = 0"
definition JOB_POL_TIMER_SLACK :: u32 where "JOB_POL_TIMER_SLACK = 1"
definition JOB_POL_BASE_V2 :: u32 where "JOB_POL_BASE_V2 = 0x01000000"
definition JOB_POL_RELATIVE :: u32 where "JOB_POL_RELATIVE = 0"
definition JOB_POL_ABSOLUTE :: u32 where "JOB_POL_ABSOLUTE = 1"

definition sys_job_set_policy ::
  "u32 \<Rightarrow> u32 \<Rightarrow> u32 \<Rightarrow> basic_policy list zx_result \<Rightarrow> timer_slack_policy zx_result \<Rightarrow> job
     \<Rightarrow> unit zx_result \<times> job" where
  "sys_job_set_policy options topic count read_basic read_timer j =
     (if topic = JOB_POL_BASE_V1 \<or> topic = JOB_POL_BASE_V2
      then (let opts = (if options = JOB_POL_RELATIVE then Some Relative
                        else if options = JOB_POL_ABSOLUTE then Some Absolute else None)
            in case opts of
                 None \<Rightarrow> (Err INVALID_ARGS, j)
               | Some po \<Rightarrow>
                   (case read_basic of
                      Ok bs \<Rightarrow> set_policy_basic po bs j
                    | Err e \<Rightarrow> (Err e, j)
                    | Panic \<Rightarrow> (Panic, j)))
      else if topic = JOB_POL_TIMER_SLACK
      then (if options \<noteq> JOB_POL_RELATIVE then (Err INVALID_ARGS, j)
            else if count \<noteq> 1 then (Err INVALID_ARGS, j)
            else case read_timer of
                   Ok tp \<Rightarrow> set_policy_timer_slack tp j
                 | Err e \<Rightarrow> (Err e, j)
                 | Panic \<Rightarrow> (Panic, j))
      else (Err INVALID_ARGS, j))"

section \<open>Merging and applying\<close>

definition policy_ok :: "job_policy \<Rightarrow> bool" where
  "policy_ok p \<longleftrightarrow> length p = 15"

lemma condition_code_bound [simp]: "condition_code c < 15"
  by (cases c) simp_all

lemma merge_prefix:
  "n \<le> length p \<Longrightarrow>
     (let m = foldl (\<lambda>new i. if parent ! i \<noteq> None then new[i := parent ! i] else new) p [0..<n]
      in length m = length p
         \<and> (\<forall>i < length p. m ! i = (if i < n \<and> parent ! i \<noteq> None then parent ! i else p ! i)))"
proof (induction n)
  case (Suc n)
  then show ?case by (auto simp: nth_list_update less_Suc_eq)
qed simp

lemma policy_merge_ok [simp]: "policy_ok p \<Longrightarrow> policy_ok (policy_merge p q)"
  using merge_prefix [of 15 p q] by (simp add: policy_ok_def policy_merge_def)

lemma get_action_merge:
  assumes "policy_ok p"
  shows "get_action c (policy_merge p q) = (case get_action c q of Some a \<Rightarrow> Some a | None \<Rightarrow> get_action c p)"
proof -
  have "condition_code c < length p" using assms by (simp add: policy_ok_def)
  then have "policy_merge p q ! condition_code c
      = (if q ! condition_code c \<noteq> None then q ! condition_code c else p ! condition_code c)"
    using assms merge_prefix [of 15 p q] by (simp add: policy_ok_def policy_merge_def)
  then show ?thesis by (auto simp: get_action_def)
qed

lemma policy_apply_ok [simp]: "policy_ok p \<Longrightarrow> policy_ok (policy_apply b p)"
  by (simp add: policy_ok_def policy_apply_def)

lemma condition_code_inj: "condition_code c = condition_code d \<Longrightarrow> c = d"
  by (cases c; cases d) simp_all

lemma get_action_apply:
  "policy_ok p \<Longrightarrow> get_action c (policy_apply b p) = (if c = bp_condition b then Some (bp_action b) else get_action c p)"
  by (auto simp: policy_ok_def get_action_def policy_apply_def nth_list_update dest: condition_code_inj)

lemma default_policy_ok [simp]: "policy_ok default_policy"
  by (simp add: policy_ok_def default_policy_def)

lemma get_action_default [simp]: "get_action c default_policy = None"
  by (simp add: get_action_def default_policy_def)

definition job_ok :: "job \<Rightarrow> bool" where
  "job_ok j \<longleftrightarrow> policy_ok (job_policy_set j) \<and> policy_ok (job_parent_policy j)"

lemma job_new_ok: "policy_ok p \<Longrightarrow> job_ok (job_new q p koid)"
  by (simp add: job_ok_def job_new_def)

lemma apply_policies_keeps:
  assumes "job_ok j" "apply_policies opts bs j = (r, j')"
  shows "job_ok j' \<and> job_parent_policy j' = job_parent_policy j \<and> job_children j' = job_children j
         \<and> job_processes j' = job_processes j"
  using assms
  by (induction opts bs j rule: apply_policies.induct)
    (auto simp: job_ok_def split: if_splits set_policy_options.splits)

text \<open>What a successful application does to the job's own policy.\<close>

lemma apply_policies_Ok:
  assumes "job_ok j" "apply_policies opts bs j = (Ok (), j')"
  shows "get_action c (job_policy_set j') =
     (if get_action c (job_parent_policy j) \<noteq> None then get_action c (job_policy_set j)
      else case find (\<lambda>b. bp_condition b = c) (rev bs) of
             Some b \<Rightarrow> Some (bp_action b) | None \<Rightarrow> get_action c (job_policy_set j))"
  using assms
proof (induction opts bs j rule: apply_policies.induct)
  case (2 opts b bs j)
  have find_snoc: "find P (xs @ [b]) = (case find P xs of None \<Rightarrow> if P b then Some b else None | r \<Rightarrow> r)"
    for P and xs :: "basic_policy list"
    by (induction xs) simp_all
  show ?case
    using "2.prems" "2.IH"
    by (auto simp: find_snoc job_ok_def get_action_apply split: if_splits set_policy_options.splits option.splits)
qed simp

section \<open>A parent's policy binds its descendants\<close>

text \<open>What can be done to the policies of a job.\<close>

datatype policy_op = PBasic set_policy_options "basic_policy list" | PTimer timer_slack_policy

fun policy_exec :: "policy_op \<Rightarrow> job \<Rightarrow> job" where
  "policy_exec (PBasic opts bs) j = snd (set_policy_basic opts bs j)"
| "policy_exec (PTimer p) j = snd (set_policy_timer_slack p j)"

lemma policy_exec_keeps:
  assumes "job_ok j"
  shows "job_ok (policy_exec x j) \<and> job_parent_policy (policy_exec x j) = job_parent_policy j
         \<and> job_is_empty (policy_exec x j) = job_is_empty j"
proof (cases x)
  case (PBasic opts bs)
  then show ?thesis
    using assms apply_policies_keeps [OF assms, of opts bs]
    by (cases "apply_policies opts bs j") (auto simp: set_policy_basic_def job_is_empty_def)
next
  case (PTimer p)
  then show ?thesis
    using assms by (auto simp: set_policy_timer_slack_def check_timer_policy_def job_ok_def job_is_empty_def)
qed

lemma policy_run_keeps:
  "job_ok j \<Longrightarrow>
     job_ok (run_ops policy_exec xs j) \<and> job_parent_policy (run_ops policy_exec xs j) = job_parent_policy j"
  using policy_exec_keeps by (induction xs arbitrary: j) auto

lemma policy_exec_nonempty: "\<not> job_is_empty j \<Longrightarrow> policy_exec x j = j"
  by (cases x) (simp_all add: set_policy_basic_def set_policy_timer_slack_def)

lemma policy_run_nonempty: "\<not> job_is_empty j \<Longrightarrow> run_ops policy_exec xs j = j"
  by (induction xs) (simp_all add: policy_exec_nonempty)

lemma child_policies:
  assumes "job_ok j" and "create_child p c koid j = (Ok child, j')"
  shows "job_effective_policy child = policy_merge default_policy (job_effective_policy j)"
    and "get_action cond (job_effective_policy j) = Some a \<longrightarrow>
           get_action cond (job_effective_policy (run_ops policy_exec ops child)) = Some a"
    and "run_ops policy_exec ops' j' = j'"
proof -
  have child: "child = job_new (Some p) (job_effective_policy j) koid"
    and j': "j' = j\<lparr>job_children := job_children j @ [c]\<rparr>"
    using assms(2) by (auto simp: create_child_def job_effective_policy_def split: if_splits)
  have ok: "policy_ok (job_effective_policy j)"
    using assms(1) by (simp add: job_ok_def job_effective_policy_def)
  then have cok: "job_ok child" by (simp add: child job_new_ok)
  show "job_effective_policy child = policy_merge default_policy (job_effective_policy j)"
    unfolding child by (simp add: job_effective_policy_def job_new_def)
  let ?c = "run_ops policy_exec ops child"
  have "job_ok ?c" "job_parent_policy ?c = job_effective_policy j"
    using policy_run_keeps [OF cok, of ops] by (simp_all add: child job_new_def)
  then show "get_action cond (job_effective_policy j) = Some a \<longrightarrow>
      get_action cond (job_effective_policy ?c) = Some a"
    by (simp add: job_effective_policy_def [of ?c] get_action_merge job_ok_def)
  show "run_ops policy_exec ops' j' = j'"
    by (rule policy_run_nonempty) (simp add: j' job_is_empty_def)
qed

text \<open>
  C15. Policies are inherited and cannot be loosened. A child job starts with the effective policy of
  its parent; whatever policy calls are made on the child, in either mode, each condition for which
  the parent's effective policy has an action keeps that action in the child. And while the child is
  attached no policy call changes the parent, so the two stay in agreement.
\<close>

theorem parent_policy_binds:
  assumes "job_ok j" and "create_child p c koid j = (Ok child, j')"
  shows "job_effective_policy child = policy_merge default_policy (job_effective_policy j)
     \<and> (\<forall>cond a. get_action cond (job_effective_policy j) = Some a \<longrightarrow>
           get_action cond (job_effective_policy (run_ops policy_exec ops child)) = Some a)
     \<and> run_ops policy_exec ops' j' = j'"
  using child_policies [OF assms] by blast

definition deny_job :: job where
  "deny_job = policy_exec (PBasic Absolute [\<lparr>bp_condition = NewChannel, bp_action = Deny\<rparr>]) (job_root 1024)"

lemma deny_job_ok: "job_ok deny_job"
proof -
  have "job_ok (job_root 1024)" by (simp add: job_root_def job_new_ok)
  then show ?thesis unfolding deny_job_def by (simp only: policy_exec_keeps)
qed

lemma deny_job_action: "get_action NewChannel (job_effective_policy deny_job) = Some Deny"
  by (simp add: deny_job_def job_root_def job_new_def set_policy_basic_def job_is_empty_def
      job_effective_policy_def get_action_merge get_action_apply)

theorem parent_policy_binds_witness:
  "\<exists>child j'. create_child 0 1 1025 deny_job = (Ok child, j')
     \<and> get_action NewChannel (job_effective_policy
         (run_ops policy_exec [PBasic Relative [\<lparr>bp_condition = NewChannel, bp_action = Allow\<rparr>]] child)) = Some Deny"
proof -
  have "\<not> job_killed deny_job"
    by (simp add: deny_job_def job_root_def job_new_def set_policy_basic_def job_is_empty_def)
  then obtain child j' where c: "create_child 0 1 1025 deny_job = (Ok child, j')"
    by (simp add: create_child_def)
  show ?thesis
    using parent_policy_binds [OF deny_job_ok c, of "[PBasic Relative [\<lparr>bp_condition = NewChannel, bp_action = Allow\<rparr>]]"]
      deny_job_action c by blast
qed

section \<open>Absolute policies that fail\<close>

lemma apply_policies_stops:
  "\<lbrakk>list_all (\<lambda>b. get_action (bp_condition b) (job_parent_policy j) = None) bs;
     get_action (bp_condition b) (job_parent_policy j) \<noteq> None\<rbrakk>
   \<Longrightarrow> apply_policies Absolute (bs @ b # rest) j = (Err ALREADY_EXISTS, snd (apply_policies Absolute bs j))"
  by (induction bs arbitrary: j) simp_all

text \<open>
  An absolute policy call that fails is not undone: when the first policy that conflicts with the
  parent comes after others, the call answers \<open>ALREADY_EXISTS\<close> and leaves the job exactly as the
  successful call with those others would have.
\<close>

theorem absolute_policy_failure_is_partial:
  assumes "job_is_empty j"
    and "list_all (\<lambda>b. get_action (bp_condition b) (job_parent_policy j) = None) bs"
    and "get_action (bp_condition b) (job_parent_policy j) \<noteq> None"
  shows "set_policy_basic Absolute (bs @ b # rest) j = (Err ALREADY_EXISTS, snd (set_policy_basic Absolute bs j))"
  using assms apply_policies_stops by (simp add: set_policy_basic_def)

definition partial_child :: job where
  "partial_child = job_new (Some 0) (job_effective_policy deny_job) 1025"

theorem absolute_policy_failure_is_partial_witness:
  "fst (set_policy_basic Absolute [\<lparr>bp_condition = NewSocket, bp_action = Deny\<rparr>,
                              \<lparr>bp_condition = NewChannel, bp_action = Allow\<rparr>] partial_child) = Err ALREADY_EXISTS
   \<and> get_action NewSocket (job_effective_policy
       (snd (set_policy_basic Absolute [\<lparr>bp_condition = NewSocket, bp_action = Deny\<rparr>,
                                   \<lparr>bp_condition = NewChannel, bp_action = Allow\<rparr>] partial_child))) = Some Deny"
proof -
  let ?s = "\<lparr>bp_condition = NewSocket, bp_action = Deny\<rparr>"
  let ?c = "\<lparr>bp_condition = NewChannel, bp_action = Allow\<rparr>"
  have none: "get_action NewSocket (job_effective_policy deny_job) = None"
    by (simp add: deny_job_def job_root_def job_new_def set_policy_basic_def job_is_empty_def
        job_effective_policy_def get_action_merge get_action_apply)
  have e: "job_is_empty partial_child"
    by (simp add: partial_child_def job_new_def job_is_empty_def)
  have "set_policy_basic Absolute ([?s] @ ?c # []) partial_child
      = (Err ALREADY_EXISTS, snd (set_policy_basic Absolute [?s] partial_child))"
    by (rule absolute_policy_failure_is_partial)
      (simp_all add: partial_child_def job_new_def job_is_empty_def none deny_job_action)
  moreover have "get_action NewSocket (job_effective_policy (snd (set_policy_basic Absolute [?s] partial_child))) = Some Deny"
    using e none by (simp add: set_policy_basic_def)
      (simp add: partial_child_def job_new_def none job_effective_policy_def get_action_merge get_action_apply)
  ultimately show ?thesis by simp
qed

end
