(* ===== verification/Thread.thy ===== *)
theory Thread
  imports KObject Bytes
begin

text \<open>
  Threads, \<^verbatim>\<open>zircon-object/src/task/thread.rs\<close>: the state machine of one thread object.

  A thread is the record \<open>thread\<close>; its saved user context has a type \<open>'c\<close> that the state machine never
  inspects. A waker and the sender of a kill message are numbers; an operation that wakes or sends
  returns the \<open>thread_event\<close>s it produced. The \<^verbatim>\<open>async\<close> methods are split at their suspension points:
  \<open>blocking_begin\<close> and \<open>blocking_end\<close> are \<^verbatim>\<open>blocking_run\<close> before and after its \<^verbatim>\<open>select_biased!\<close>, whose
  choice among the ready branches is \<open>blocking_select\<close>; one poll of \<^verbatim>\<open>wait_for_run\<close> is \<open>wait_for_run_poll\<close>.
\<close>

declare Let_def [simp]

section \<open>Thread states\<close>

datatype thread_state =
    TNew | TRunning | TSuspended | TBlocked | TDying | TDead
  | BlockedException | BlockedSleeping | BlockedFutex | BlockedPort | BlockedChannel
  | BlockedWaitOne | BlockedWaitMany | BlockedInterrupt | BlockedPager

fun thread_state_code :: "thread_state \<Rightarrow> u32" where
  "thread_state_code TNew = 0"
| "thread_state_code TRunning = 1"
| "thread_state_code TSuspended = 2"
| "thread_state_code TBlocked = 3"
| "thread_state_code TDying = 4"
| "thread_state_code TDead = 5"
| "thread_state_code BlockedException = 0x103"
| "thread_state_code BlockedSleeping = 0x203"
| "thread_state_code BlockedFutex = 0x303"
| "thread_state_code BlockedPort = 0x403"
| "thread_state_code BlockedChannel = 0x503"
| "thread_state_code BlockedWaitOne = 0x603"
| "thread_state_code BlockedWaitMany = 0x703"
| "thread_state_code BlockedInterrupt = 0x803"
| "thread_state_code BlockedPager = 0x903"

section \<open>The thread object\<close>

text \<open>
  \<open>th_exception\<close> is the channel type and the report of the exception being handled, of types that
  the thread only passes on.
\<close>

record ('c, 'x) thread =
  th_base :: kobj
  th_context :: "'c option"
  th_context_before :: "('c \<times> usize \<times> usize) option"
  th_suspend_count :: nat
  th_waker :: "nat option"
  th_killer :: "nat option"
  th_state :: thread_state
  th_exception :: "'x option"
  th_first :: bool
  th_killed :: bool
  th_time :: "128 word"
  th_flags :: usize
  th_exc_shutdown :: bool

datatype thread_event = Wake nat | SendKill nat

definition thread_view :: "('c, 'x) thread \<Rightarrow> thread_state" where
  "thread_view t =
     (if th_suspend_count t = 0 \<or> th_context t = None \<or> th_state t = BlockedException
         \<or> th_state t = TDying \<or> th_state t = TDead
      then th_state t else TSuspended)"

definition change_state :: "thread_state \<Rightarrow> ('c, 'x) thread \<Rightarrow> ('c, 'x) thread" where
  "change_state st t =
     (let t' = t\<lparr>th_state := st\<rparr>;
          b = th_base t
      in t'\<lparr>th_base :=
        (case thread_view t' of
           TDead \<Rightarrow> kchange (SIG_THREAD_RUNNING OR SIG_THREAD_SUSPENDED) SIG_THREAD_TERMINATED b
         | TNew \<Rightarrow> kclear (SIG_THREAD_RUNNING OR SIG_THREAD_SUSPENDED OR SIG_THREAD_TERMINATED) b
         | TDying \<Rightarrow> kclear (SIG_THREAD_RUNNING OR SIG_THREAD_SUSPENDED OR SIG_THREAD_TERMINATED) b
         | TSuspended \<Rightarrow> kchange (SIG_THREAD_RUNNING OR SIG_THREAD_TERMINATED) SIG_THREAD_SUSPENDED b
         | _ \<Rightarrow> kchange (SIG_THREAD_TERMINATED OR SIG_THREAD_SUSPENDED) SIG_THREAD_RUNNING b)\<rparr>)"

definition thread_new :: "string \<Rightarrow> 'c \<Rightarrow> u64 \<Rightarrow> ('c, 'x) thread \<times> u64" where
  "thread_new name fresh koid =
     (let (b, koid') = kobject_with_name name koid
      in (\<lparr>th_base = b, th_context = Some fresh, th_context_before = None, th_suspend_count = 0,
           th_waker = None, th_killer = None, th_state = TNew, th_exception = None, th_first = False,
           th_killed = False, th_time = 0, th_flags = 0, th_exc_shutdown = False\<rparr>, koid'))"

definition with_context :: "('c \<Rightarrow> 'r \<times> 'c) \<Rightarrow> ('c, 'x) thread \<Rightarrow> 'r zx_result \<times> ('c, 'x) thread" where
  "with_context f t =
     (case th_context t of
        Some c \<Rightarrow> (let (r, c') = f c in (Ok r, t\<lparr>th_context := Some c'\<rparr>))
      | None \<Rightarrow> (Err BAD_STATE, t))"

definition context_cloned :: "('c, 'x) thread \<Rightarrow> 'c zx_result" where
  "context_cloned t = fst (with_context (\<lambda>c. (c, c)) t)"

definition backup_context :: "'c \<Rightarrow> usize \<Rightarrow> usize \<Rightarrow> ('c, 'x) thread \<Rightarrow> ('c, 'x) thread" where
  "backup_context c siginfo uctx t = t\<lparr>th_context_before := Some (c, siginfo, uctx)\<rparr>"

definition fetch_backup_context ::
  "('c, 'x) thread \<Rightarrow> ('c \<times> usize \<times> usize) option \<times> ('c, 'x) thread" where
  "fetch_backup_context t = (th_context_before t, t\<lparr>th_context_before := None\<rparr>)"

text \<open>Starting a thread also spawns its future; the caller counts how many were spawned.\<close>

definition thread_start :: "('c, 'x) thread \<Rightarrow> ('c, 'x) thread" where
  "thread_start t = change_state TRunning t"

definition start_with_entry :: "('c \<Rightarrow> 'c) \<Rightarrow> ('c, 'x) thread \<Rightarrow> unit zx_result \<times> ('c, 'x) thread" where
  "start_with_entry setup t =
     (case with_context (\<lambda>c. ((), setup c)) t of
        (Ok _, t') \<Rightarrow> (Ok (), thread_start t')
      | (r, t') \<Rightarrow> (r, t'))"

definition stop :: "bool \<Rightarrow> ('c, 'x) thread \<Rightarrow> ('c, 'x) thread \<times> thread_event list" where
  "stop killed t =
     (if th_state t = TDead then (t, [])
      else
        (let t1 = (if killed then t\<lparr>th_killed := True\<rparr> else t);
             kill_msg = (case th_killer t of Some k \<Rightarrow> [SendKill k] | None \<Rightarrow> [])
         in if th_state t = TDying
            then (if killed then (t1\<lparr>th_killer := None\<rparr>, kill_msg) else (t1, []))
            else
              ((change_state TDying t1)\<lparr>th_waker := None, th_killer := None\<rparr>,
               (case th_waker t of Some w \<Rightarrow> [Wake w] | None \<Rightarrow> []) @ kill_msg)))"

definition thread_kill :: "('c, 'x) thread \<Rightarrow> ('c, 'x) thread \<times> thread_event list" where
  "thread_kill = stop True"

definition thread_exit :: "('c, 'x) thread \<Rightarrow> ('c, 'x) thread \<times> thread_event list" where
  "thread_exit = stop False"

text \<open>
  \<^verbatim>\<open>read_state\<close> and \<^verbatim>\<open>write_state\<close> share their guard; the register file access itself is the parameter.
\<close>

definition read_state :: "('c \<Rightarrow> 'r zx_result) \<Rightarrow> ('c, 'x) thread \<Rightarrow> 'r zx_result" where
  "read_state rd t =
     (if thread_view t \<noteq> BlockedException \<and> thread_view t \<noteq> TSuspended
      then (if th_exception t \<noteq> None then Err NOT_SUPPORTED else Err BAD_STATE)
      else case th_context t of None \<Rightarrow> Err BAD_STATE | Some c \<Rightarrow> rd c)"

definition write_state ::
  "('c \<Rightarrow> unit zx_result \<times> 'c) \<Rightarrow> ('c, 'x) thread \<Rightarrow> unit zx_result \<times> ('c, 'x) thread" where
  "write_state wr t =
     (if thread_view t \<noteq> BlockedException \<and> thread_view t \<noteq> TSuspended
      then (if th_exception t \<noteq> None then Err NOT_SUPPORTED else Err BAD_STATE, t)
      else case th_context t of
             None \<Rightarrow> (Err BAD_STATE, t)
           | Some c \<Rightarrow> (let (r, c') = wr c in (r, t\<lparr>th_context := Some c'\<rparr>)))"

record thread_info =
  ti_state :: u32
  ti_wait_exception_channel_type :: u32
  ti_cpu_affinity_mask :: "u64 list"

definition get_thread_info :: "('x \<Rightarrow> u32) \<Rightarrow> ('c, 'x) thread \<Rightarrow> thread_info" where
  "get_thread_info channel_type t =
     \<lparr>ti_state = thread_state_code (thread_view t),
      ti_wait_exception_channel_type = (case th_exception t of None \<Rightarrow> 0 | Some x \<Rightarrow> channel_type x),
      ti_cpu_affinity_mask = replicate 8 0\<rparr>"

definition get_thread_exception_info :: "('x \<Rightarrow> 'r) \<Rightarrow> ('c, 'x) thread \<Rightarrow> 'r zx_result" where
  "get_thread_exception_info report t =
     (if thread_view t \<noteq> BlockedException then Err BAD_STATE
      else case th_exception t of None \<Rightarrow> Err BAD_STATE | Some x \<Rightarrow> Ok (report x))"

text \<open>The time is a \<^verbatim>\<open>u128\<close>; reading it truncates to 64 bits.\<close>

definition time_add :: "128 word \<Rightarrow> ('c, 'x) thread \<Rightarrow> ('c, 'x) thread" where
  "time_add d t = t\<lparr>th_time := th_time t + d\<rparr>"

definition get_time :: "('c, 'x) thread \<Rightarrow> u64" where
  "get_time t = ucast (th_time t)"

record task_runtime_info =
  cpu_time :: u64
  queue_time :: u64
  page_fault_time :: u64
  lock_contention_time :: u64

definition get_runtime_info :: "('c, 'x) thread \<Rightarrow> task_runtime_info" where
  "get_runtime_info t =
     \<lparr>cpu_time = get_time t, queue_time = get_time t, page_fault_time = 0, lock_contention_time = 0\<rparr>"

definition set_first_thread :: "('c, 'x) thread \<Rightarrow> ('c, 'x) thread" where
  "set_first_thread t = t\<lparr>th_first := True\<rparr>"

definition update_flags :: "(usize \<Rightarrow> usize) \<Rightarrow> ('c, 'x) thread \<Rightarrow> ('c, 'x) thread" where
  "update_flags f t = t\<lparr>th_flags := f (th_flags t)\<rparr>"

text \<open>\<^verbatim>\<open>terminate\<close> up to its call of the process's \<^verbatim>\<open>remove_thread\<close>.\<close>

definition thread_terminate :: "('c, 'x) thread \<Rightarrow> ('c, 'x) thread" where
  "thread_terminate t = change_state TDead (t\<lparr>th_exc_shutdown := True\<rparr>)"

definition thread_suspend :: "('c, 'x) thread \<Rightarrow> ('c, 'x) thread" where
  "thread_suspend t =
     (let t' = t\<lparr>th_suspend_count := th_suspend_count t + 1\<rparr> in change_state (th_state t') t')"

definition thread_resume :: "('c, 'x) thread \<Rightarrow> (('c, 'x) thread \<times> thread_event list) zx_result" where
  "thread_resume t =
     (if th_suspend_count t = 0 then Panic
      else
        (let t' = t\<lparr>th_suspend_count := th_suspend_count t - 1\<rparr>
         in if th_suspend_count t' = 0
            then Ok ((change_state (th_state t') t')\<lparr>th_waker := None\<rparr>,
                     case th_waker t of Some w \<Rightarrow> [Wake w] | None \<Rightarrow> [])
            else Ok (t', [])))"

section \<open>The running thread\<close>

text \<open>One poll: \<open>Some c\<close> when the context is handed out, \<open>None\<close> when the future stays pending.\<close>

definition wait_for_run_poll :: "nat \<Rightarrow> ('c, 'x) thread \<Rightarrow> ('c option \<times> ('c, 'x) thread) zx_result" where
  "wait_for_run_poll waker t =
     (if thread_view t \<noteq> TSuspended
      then (case th_context t of
              Some c \<Rightarrow> Ok (Some c, t\<lparr>th_context := None\<rparr>)
            | None \<Rightarrow> Panic)
      else Ok (None, t\<lparr>th_waker := Some waker\<rparr>))"

definition put_context :: "'c \<Rightarrow> ('c, 'x) thread \<Rightarrow> ('c, 'x) thread" where
  "put_context c t = (let t' = t\<lparr>th_context := Some c\<rparr> in change_state (th_state t') t')"

definition blocking_begin ::
  "thread_state \<Rightarrow> nat \<Rightarrow> ('c, 'x) thread \<Rightarrow> thread_state zx_result \<times> ('c, 'x) thread" where
  "blocking_begin st k t =
     (if thread_view t = TDying then (Err STOP, t)
      else (Ok (th_state t), change_state st (t\<lparr>th_killer := Some k\<rparr>)))"

text \<open>
  The biased select: the awaited future first, then the kill message, the deadline, and the cancel
  token where one was given. \<open>None\<close> while no branch is ready.
\<close>

definition blocking_select :: "'r zx_result option \<Rightarrow> bool \<Rightarrow> bool \<Rightarrow> bool \<Rightarrow> 'r zx_result option" where
  "blocking_select ready killed timed_out canceled =
     (case ready of
        Some r \<Rightarrow> Some r
      | None \<Rightarrow> if killed then Some (Err STOP) else if timed_out then Some (Err TIMED_OUT)
                else if canceled then Some (Err CANCELED) else None)"

definition blocking_end ::
  "thread_state \<Rightarrow> thread_state \<Rightarrow> 'r zx_result \<Rightarrow> ('c, 'x) thread \<Rightarrow> 'r zx_result \<times> ('c, 'x) thread" where
  "blocking_end old st ret t =
     (let t1 = t\<lparr>th_killer := None\<rparr>
      in if thread_view t1 = TDying then (ret, t1)
         else if th_state t1 \<noteq> st then (Panic, t1)
         else (ret, change_state old t1))"

definition dying_begin :: "nat \<Rightarrow> ('c, 'x) thread \<Rightarrow> unit zx_result \<times> ('c, 'x) thread" where
  "dying_begin k t =
     (if th_killed t then (Err STOP, t) else (Ok (), t\<lparr>th_killer := Some k\<rparr>))"

text \<open>
  The start of \<^verbatim>\<open>handle_exception\<close>: an architectural exception needs the saved context. Its end
  forgets the exception.
\<close>

definition exception_begin :: "bool \<Rightarrow> ('c option \<Rightarrow> 'x) \<Rightarrow> ('c, 'x) thread \<Rightarrow> ('c, 'x) thread zx_result" where
  "exception_begin synth mk t =
     (if \<not> synth \<and> th_context t = None then Panic
      else Ok (t\<lparr>th_exception := Some (mk (if synth then None else th_context t))\<rparr>))"

definition exception_end :: "('c, 'x) thread \<Rightarrow> ('c, 'x) thread" where
  "exception_end t = t\<lparr>th_exception := None\<rparr>"

section \<open>Signals agree with the state\<close>

definition runs :: "thread_state \<Rightarrow> bool" where
  "runs st \<longleftrightarrow> st \<notin> {TNew, TDying, TDead, TSuspended}"

definition thread_signals_ok :: "('c, 'x) thread \<Rightarrow> bool" where
  "thread_signals_ok t \<longleftrightarrow>
     (let s = kobj_signal (th_base t); v = thread_view t
      in (contains s SIG_THREAD_RUNNING \<longleftrightarrow> runs v)
         \<and> (contains s SIG_THREAD_SUSPENDED \<longleftrightarrow> v = TSuspended)
         \<and> (contains s SIG_THREAD_TERMINATED \<longleftrightarrow> v = TDead))"

lemmas thread_signal_simps =
  SIG_THREAD_TERMINATED_def flag_simps bit_or_iff

lemma change_state_fields [simp]:
  "th_state (change_state st t) = st"
  "th_context (change_state st t) = th_context t"
  "th_suspend_count (change_state st t) = th_suspend_count t"
  "th_killer (change_state st t) = th_killer t"
  "th_waker (change_state st t) = th_waker t"
  "th_killed (change_state st t) = th_killed t"
  by (simp_all add: change_state_def)

lemma thread_view_cong:
  "th_suspend_count t = th_suspend_count u \<Longrightarrow> th_context t = th_context u \<Longrightarrow> th_state t = th_state u \<Longrightarrow>
     thread_view t = thread_view u"
  by (simp add: thread_view_def)

lemma thread_view_change_state [simp]: "thread_view (change_state st t) = thread_view (t\<lparr>th_state := st\<rparr>)"
  by (rule thread_view_cong) simp_all

lemma thread_view_irrelevant [simp]:
  "thread_view (t\<lparr>th_waker := w\<rparr>) = thread_view t"
  "thread_view (t\<lparr>th_killer := k\<rparr>) = thread_view t"
  "thread_view (t\<lparr>th_killed := b\<rparr>) = thread_view t"
  "thread_view (t\<lparr>th_base := kb\<rparr>) = thread_view t"
  "thread_view (t\<lparr>th_exc_shutdown := b\<rparr>) = thread_view t"
  by (simp_all add: thread_view_def)

lemma signals_ok_irrelevant [simp]:
  "thread_signals_ok (t\<lparr>th_waker := w\<rparr>) = thread_signals_ok t"
  "thread_signals_ok (t\<lparr>th_killer := k\<rparr>) = thread_signals_ok t"
  "thread_signals_ok (t\<lparr>th_killed := b\<rparr>) = thread_signals_ok t"
  by (simp_all add: thread_signals_ok_def)

lemma signals_ok_change_state [kernel_inv]: "thread_signals_ok (change_state st t)"
proof -
  have "kobj_signal (th_base (change_state st t)) =
     (let s = kobj_signal (th_base t) in
      case thread_view (t\<lparr>th_state := st\<rparr>) of
        TDead \<Rightarrow> flag_insert (flag_remove s (SIG_THREAD_RUNNING OR SIG_THREAD_SUSPENDED)) SIG_THREAD_TERMINATED
      | TNew \<Rightarrow> flag_remove s (SIG_THREAD_RUNNING OR SIG_THREAD_SUSPENDED OR SIG_THREAD_TERMINATED)
      | TDying \<Rightarrow> flag_remove s (SIG_THREAD_RUNNING OR SIG_THREAD_SUSPENDED OR SIG_THREAD_TERMINATED)
      | TSuspended \<Rightarrow> flag_insert (flag_remove s (SIG_THREAD_RUNNING OR SIG_THREAD_TERMINATED)) SIG_THREAD_SUSPENDED
      | _ \<Rightarrow> flag_insert (flag_remove s (SIG_THREAD_TERMINATED OR SIG_THREAD_SUSPENDED)) SIG_THREAD_RUNNING)"
    by (simp add: change_state_def split: thread_state.split)
  then show ?thesis
    by (simp add: thread_signals_ok_def runs_def thread_signal_simps split: thread_state.split)
qed

lemma thread_view_no_context: "thread_view t \<noteq> TSuspended \<Longrightarrow> thread_view (t\<lparr>th_context := None\<rparr>) = thread_view t"
  by (auto simp: thread_view_def split: if_splits)

section \<open>Runs of a thread\<close>

text \<open>
  Everything the kernel does to a thread object: the calls of other threads, what the thread itself
  does between its suspension points, and \<^verbatim>\<open>zx_object_signal\<close> on its user signals. A panic leaves the
  object as it is.
\<close>

datatype 'c thread_op =
    TStart "'c \<Rightarrow> 'c" | TStop bool | TSuspend | TResume | TPoll nat | TPut 'c
  | TBlock thread_state nat | TUnblock thread_state thread_state | TDie nat | TTerminate
  | TWrite "'c \<Rightarrow> unit zx_result \<times> 'c" | TSignal signal signal

fun thread_exec :: "'c thread_op \<Rightarrow> ('c, 'x) thread \<Rightarrow> ('c, 'x) thread" where
  "thread_exec (TStart f) t = snd (start_with_entry f t)"
| "thread_exec (TStop k) t = fst (stop k t)"
| "thread_exec TSuspend t = thread_suspend t"
| "thread_exec TResume t = (case thread_resume t of Ok (t', _) \<Rightarrow> t' | _ \<Rightarrow> t)"
| "thread_exec (TPoll w) t = (case wait_for_run_poll w t of Ok (_, t') \<Rightarrow> t' | _ \<Rightarrow> t)"
| "thread_exec (TPut c) t = put_context c t"
| "thread_exec (TBlock st k) t = snd (blocking_begin st k t)"
| "thread_exec (TUnblock old st) t = snd (blocking_end old st (Ok ()) t)"
| "thread_exec (TDie k) t = snd (dying_begin k t)"
| "thread_exec TTerminate t = thread_terminate t"
| "thread_exec (TWrite f) t = snd (write_state f t)"
| "thread_exec (TSignal c s) t =
     (if contains SIG_USER_ALL c \<and> contains SIG_USER_ALL s then t\<lparr>th_base := kchange c s (th_base t)\<rparr> else t)"

lemma signals_ok_context_Some:
  "th_context t = Some c \<Longrightarrow> thread_signals_ok (t\<lparr>th_context := Some c'\<rparr>) = thread_signals_ok t"
  by (simp add: thread_signals_ok_def thread_view_def)

lemma signals_ok_user:
  assumes "contains SIG_USER_ALL c" "contains SIG_USER_ALL s" "thread_signals_ok t"
  shows "thread_signals_ok (t\<lparr>th_base := kchange c s (th_base t)\<rparr>)"
  using assms user_signals_low [of c] user_signals_low [of s]
  by (simp add: thread_signals_ok_def thread_signal_simps)

lemma signals_ok_exec [kernel_inv]: "thread_signals_ok t \<Longrightarrow> thread_signals_ok (thread_exec x t)"
proof (cases x)
  case (TStart f)
  then show "thread_signals_ok t \<Longrightarrow> ?thesis"
    by (auto simp: start_with_entry_def with_context_def thread_start_def signals_ok_change_state
        split: option.split)
next
  case (TPoll w)
  assume "thread_signals_ok t"
  with TPoll show ?thesis
    using thread_view_no_context [of t]
    by (auto simp: wait_for_run_poll_def thread_signals_ok_def split: option.split)
next
  case TResume
  assume "thread_signals_ok t"
  moreover have "thread_signals_ok (t\<lparr>th_suspend_count := th_suspend_count t - Suc 0\<rparr>)"
    if "1 < th_suspend_count t" "thread_signals_ok t"
    using that by (simp add: thread_signals_ok_def thread_view_def)
  ultimately show ?thesis
    using TResume by (simp add: thread_resume_def signals_ok_change_state)
next
  case (TWrite f)
  assume "thread_signals_ok t"
  with TWrite show ?thesis
    by (auto simp: write_state_def signals_ok_context_Some case_prod_unfold split: option.split)
qed (simp_all add: stop_def thread_suspend_def put_context_def blocking_begin_def blocking_end_def
      dying_begin_def thread_terminate_def signals_ok_change_state signals_ok_user)

lemma signals_ok_new: "thread_signals_ok (fst (thread_new name c koid))"
  by (simp add: thread_new_def kobject_with_name_def case_prod_unfold thread_signals_ok_def
      thread_view_def runs_def thread_signal_simps)

lemma signals_ok_run: "thread_signals_ok t \<Longrightarrow> thread_signals_ok (run_ops thread_exec xs t)"
  by (induction xs arbitrary: t) (simp_all add: signals_ok_exec)

text \<open>
  C17. The three signals of a thread always tell its state: after any run of starts, kills, exits,
  suspensions, resumptions, context handovers, blocking waits and user signals on a new thread,
  \<open>THREAD_RUNNING\<close> is set exactly in the running and blocked states, \<open>THREAD_SUSPENDED\<close> exactly when
  the thread is observably suspended, and \<open>THREAD_TERMINATED\<close> exactly when it is dead; so no two of
  them are ever set together.
\<close>

theorem thread_signals_agree:
  "let t = run_ops thread_exec ops (fst (thread_new name c koid)) :: ('c, 'x) thread;
       s = kobj_signal (th_base t)
   in (contains s SIG_THREAD_RUNNING \<longleftrightarrow> thread_view t \<notin> {TNew, TDying, TDead, TSuspended})
      \<and> (contains s SIG_THREAD_SUSPENDED \<longleftrightarrow> thread_view t = TSuspended)
      \<and> (contains s SIG_THREAD_TERMINATED \<longleftrightarrow> thread_view t = TDead)"
  using signals_ok_run [OF signals_ok_new, of ops name c koid]
  by (simp add: thread_signals_ok_def runs_def)

section \<open>Interrupting a blocked thread\<close>

text \<open>What others may do to a blocked thread without ending its wait.\<close>

fun passive_op :: "'c thread_op \<Rightarrow> bool" where
  "passive_op TSuspend = True"
| "passive_op TResume = True"
| "passive_op (TPut c) = True"
| "passive_op (TWrite f) = True"
| "passive_op (TSignal c s) = True"
| "passive_op _ = False"

lemma passive_exec:
  "passive_op x \<Longrightarrow> th_state (thread_exec x t) = th_state t \<and> th_killer (thread_exec x t) = th_killer t"
  by (cases x) (auto simp: thread_suspend_def thread_resume_def put_context_def write_state_def
      case_prod_unfold split: option.split)

lemma passive_run:
  "list_all passive_op xs \<Longrightarrow>
     th_state (run_ops thread_exec xs t) = th_state t \<and> th_killer (run_ops thread_exec xs t) = th_killer t"
  by (induction xs arbitrary: t) (simp_all add: passive_exec)

lemma thread_view_dying [simp]: "th_state t = TDying \<Longrightarrow> thread_view t = TDying"
  by (simp add: thread_view_def)

text \<open>
  C18. A kill always reaches a blocked thread: whatever suspensions, resumptions, state writes and
  signals happen to a thread after it blocked, killing it sends the message its wait selects on; if
  the awaited future is not ready the wait ends with \<open>STOP\<close>, and ending the wait leaves the thread
  dying, without a panic and without reviving it.
\<close>

theorem kill_interrupts_blocked_thread:
  fixes t :: "('c, 'x) thread"
  assumes "blocking_begin st k t = (Ok old, t1)" and "st \<noteq> TDying" and "st \<noteq> TDead"
    and "list_all passive_op ops"
    and "thread_kill (run_ops thread_exec ops t1) = (t2, ev)"
  shows "SendKill k \<in> set ev \<and> blocking_select (None :: unit zx_result option) True timed_out canceled = Some (Err STOP)
         \<and> (\<exists>t3. blocking_end old st (Err STOP :: unit zx_result) t2 = (Err STOP, t3) \<and> thread_view t3 = TDying)"
proof -
  have t1: "th_state t1 = st" "th_killer t1 = Some k"
    using assms(1) by (auto simp: blocking_begin_def split: if_splits)
  let ?u = "run_ops thread_exec ops t1"
  have u: "th_state ?u = st" "th_killer ?u = Some k"
    using passive_run [OF assms(4), of t1] t1 by simp_all
  have ev: "SendKill k \<in> set ev" and t2: "th_state t2 = TDying"
    using assms(2,3,5) u by (auto simp: thread_kill_def stop_def)
  have "blocking_end old st (Err STOP :: unit zx_result) t2 = (Err STOP, t2\<lparr>th_killer := None\<rparr>)"
    using t2 by (simp add: blocking_end_def)
  moreover have "thread_view (t2\<lparr>th_killer := None\<rparr>) = TDying" using t2 by simp
  ultimately show ?thesis using ev by (simp add: blocking_select_def)
qed

definition sample_thread :: "(nat, nat) thread" where
  "sample_thread = thread_exec (TStart (\<lambda>c. c)) (fst (thread_new ''t'' 7 1024))"

theorem kill_interrupts_blocked_thread_witness:
  "SendKill 5 \<in> set (snd (thread_kill (run_ops thread_exec [TSuspend, TResume]
     (snd (blocking_begin BlockedFutex 5 sample_thread)))))"
proof -
  have "blocking_begin BlockedFutex 5 sample_thread
          = (Ok TRunning, snd (blocking_begin BlockedFutex 5 sample_thread))"
    by (simp add: blocking_begin_def sample_thread_def start_with_entry_def with_context_def
        thread_new_def kobject_with_name_def case_prod_unfold thread_start_def thread_view_def)
  from kill_interrupts_blocked_thread [OF this, of "[TSuspend, TResume]"
      "fst (thread_kill (run_ops thread_exec [TSuspend, TResume] (snd (blocking_begin BlockedFutex 5 sample_thread))))"
      "snd (thread_kill (run_ops thread_exec [TSuspend, TResume] (snd (blocking_begin BlockedFutex 5 sample_thread))))" False False]
  show ?thesis by simp
qed

section \<open>Starting a thread\<close>

text \<open>
  \<^verbatim>\<open>start_with_entry\<close> never looks at the state of the thread. A thread whose context is not taken
  is made running whatever it was: a dead thread loses \<open>THREAD_TERMINATED\<close> and is observably alive
  again, a dying one forgets that it was stopped, and a thread blocked in an exception is made
  running under its wait, so that the assertion at the end of the wait panics.
\<close>

theorem start_ignores_state:
  fixes t :: "('c, 'x) thread"
  assumes "th_context t = Some c"
  shows "\<exists>t'. start_with_entry f t = (Ok (), t') \<and> th_state t' = TRunning
              \<and> \<not> contains (kobj_signal (th_base t')) SIG_THREAD_TERMINATED
              \<and> fst (blocking_end old BlockedException r t') = Panic"
proof -
  let ?t = "change_state TRunning (t\<lparr>th_context := Some (f c)\<rparr>)"
  have v: "thread_view ?t \<noteq> TDead" "thread_view ?t \<noteq> TDying" by (simp_all add: thread_view_def)
  have "fst (blocking_end old BlockedException r ?t) = Panic"
    by (simp add: blocking_end_def thread_view_def)
  moreover have "\<not> contains (kobj_signal (th_base ?t)) SIG_THREAD_TERMINATED"
    using v signals_ok_change_state [of TRunning "t\<lparr>th_context := Some (f c)\<rparr>"]
    by (simp only: thread_signals_ok_def Let_def) simp
  ultimately show ?thesis
    using assms by (simp add: start_with_entry_def with_context_def thread_start_def)
qed

definition dead_thread :: "(nat, nat) thread" where
  "dead_thread = run_ops thread_exec [TStart (\<lambda>c. c), TStop True, TTerminate] (fst (thread_new ''t'' 7 1024))"

theorem start_ignores_state_witness:
  "thread_view dead_thread = TDead
   \<and> (\<exists>t'. start_with_entry (\<lambda>c. c) dead_thread = (Ok (), t') \<and> th_state t' = TRunning
           \<and> \<not> contains (kobj_signal (th_base t')) SIG_THREAD_TERMINATED)"
proof -
  have d: "th_context dead_thread = Some 7" "thread_view dead_thread = TDead"
    by (simp_all add: dead_thread_def start_with_entry_def with_context_def thread_new_def
        kobject_with_name_def case_prod_unfold thread_start_def thread_terminate_def stop_def thread_view_def)
  show ?thesis
    using start_ignores_state [OF d(1), of "\<lambda>c. c" TRunning "Ok ()"] d(2) by blast
qed

end
