(* ===== verification/Task_Tree.thy ===== *)
theory Task_Tree
  imports Job Thread
begin

text \<open>
  The tree of tasks: processes (\<^verbatim>\<open>zircon-object/src/task/process.rs\<close>), and how jobs, processes and threads act on
  each other when they are killed, exit or terminate (\<^verbatim>\<open>job.rs\<close>, \<^verbatim>\<open>process.rs\<close>, \<^verbatim>\<open>thread.rs\<close>).

  Jobs, processes and threads live in the store \<open>tasks\<close>, each kind numbered in order of creation. The
  methods that call one another across objects are written as a machine: \<open>task_step\<close> runs the body of
  one \<open>task_call\<close> and returns the calls the body makes, in order; \<open>run_calls\<close> runs a stack of calls
  until it is empty, which is the nesting of the calls in the source. That the machine always stops
  is a theorem, not a fuel bound.
\<close>

section \<open>Processes\<close>

datatype status = PInit | PRunning | PExited int

record process =
  p_base :: kobj
  p_job :: nat
  p_policy :: job_policy
  p_exceptionate :: exceptionate
  p_debug_exceptionate :: exceptionate
  p_status :: status
  p_table :: handle_table
  p_threads :: "nat list"
  p_debug_addr :: usize
  p_dyn_break_on_load :: usize
  p_critical :: "(nat \<times> bool) option"

definition process_new :: "string \<Rightarrow> nat \<Rightarrow> job \<Rightarrow> u64 \<Rightarrow> process" where
  "process_new name j jb koid =
     \<lparr>p_base = fst (kobject_with_name name koid), p_job = j, p_policy = job_effective_policy jb,
      p_exceptionate = exceptionate_new, p_debug_exceptionate = exceptionate_new, p_status = PInit,
      p_table = empty_table, p_threads = [], p_debug_addr = 0, p_dyn_break_on_load = 0, p_critical = None\<rparr>"

definition check_policy :: "policy_condition \<Rightarrow> process \<Rightarrow> unit zx_result" where
  "check_policy c p =
     (case (case get_action c (p_policy p) of Some a \<Rightarrow> a | None \<Rightarrow> Allow) of
        Allow \<Rightarrow> Ok ()
      | Deny \<Rightarrow> Err ACCESS_DENIED
      | _ \<Rightarrow> Panic)"

fun exited :: "status \<Rightarrow> bool" where
  "exited (PExited c) = True"
| "exited _ = False"

definition exit_code :: "process \<Rightarrow> int option" where
  "exit_code p = (case p_status p of PExited c \<Rightarrow> Some c | _ \<Rightarrow> None)"

definition add_thread :: "nat \<Rightarrow> process \<Rightarrow> unit zx_result \<times> process" where
  "add_thread t p =
     (if exited (p_status p) then (Err BAD_STATE, p) else (Ok (), p\<lparr>p_threads := p_threads p @ [t]\<rparr>))"

record process_info =
  pi_return_code :: int
  pi_started :: bool
  pi_has_exited :: bool
  pi_debugger_attached :: bool

definition process_get_info :: "process \<Rightarrow> process_info" where
  "process_get_info p =
     (let d = has_channel (p_debug_exceptionate p)
      in case p_status p of
           PInit \<Rightarrow> \<lparr>pi_return_code = 0, pi_started = False, pi_has_exited = False, pi_debugger_attached = d\<rparr>
         | PRunning \<Rightarrow> \<lparr>pi_return_code = 0, pi_started = True, pi_has_exited = False, pi_debugger_attached = d\<rparr>
         | PExited r \<Rightarrow> \<lparr>pi_return_code = r, pi_started = True, pi_has_exited = True, pi_debugger_attached = d\<rparr>)"

section \<open>The store\<close>

record ('c, 'x) tasks =
  jobs :: "nat \<Rightarrow> job option"
  procs :: "nat \<Rightarrow> process option"
  threads :: "nat \<Rightarrow> (nat \<times> ('c, 'x) thread) option"
  next_job :: nat
  next_proc :: nat
  next_thread :: nat

definition upd_job :: "nat \<Rightarrow> job \<Rightarrow> ('c, 'x) tasks \<Rightarrow> ('c, 'x) tasks" where
  "upd_job j jb s = s\<lparr>jobs := (jobs s)(j := Some jb)\<rparr>"

definition upd_proc :: "nat \<Rightarrow> process \<Rightarrow> ('c, 'x) tasks \<Rightarrow> ('c, 'x) tasks" where
  "upd_proc p pr s = s\<lparr>procs := (procs s)(p := Some pr)\<rparr>"

definition upd_thread :: "nat \<Rightarrow> nat \<Rightarrow> ('c, 'x) thread \<Rightarrow> ('c, 'x) tasks \<Rightarrow> ('c, 'x) tasks" where
  "upd_thread t p th s = s\<lparr>threads := (threads s)(t := Some (p, th))\<rparr>"

section \<open>Killing, exiting, terminating\<close>

definition TASK_RETCODE_SYSCALL_KILL :: int where
  "TASK_RETCODE_SYSCALL_KILL = - 1028"

datatype task_call =
    JobKill nat
  | JobTerminate nat
  | JobRemoveChild nat nat
  | JobRemoveProcess nat nat
  | ProcExit nat int
  | ProcClearHandles nat
  | ProcTerminate nat
  | ProcCritical nat
  | ProcRemoveThread nat nat
  | ThreadStop nat bool
  | ThreadTerminate nat

definition job_kill :: "nat \<Rightarrow> ('c, 'x) tasks \<Rightarrow> task_call list \<times> ('c, 'x) tasks" where
  "job_kill j s =
     (case jobs s j of
        None \<Rightarrow> ([], s)
      | Some jb \<Rightarrow>
          if job_killed jb then ([], s)
          else (if job_children jb = [] \<and> job_processes jb = [] then [JobTerminate j]
                else map JobKill (job_children jb)
                     @ map (\<lambda>p. ProcExit p TASK_RETCODE_SYSCALL_KILL) (job_processes jb),
                upd_job j (jb\<lparr>job_killed := True\<rparr>) s))"

definition job_terminate :: "nat \<Rightarrow> ('c, 'x) tasks \<Rightarrow> task_call list \<times> ('c, 'x) tasks" where
  "job_terminate j s =
     (case jobs s j of
        None \<Rightarrow> ([], s)
      | Some jb \<Rightarrow>
          (case job_parent jb of Some p \<Rightarrow> [JobRemoveChild p j] | None \<Rightarrow> [],
           upd_job j (jb\<lparr>job_exceptionate := fst (exceptionate_shutdown (job_exceptionate jb)),
                         job_debug_exceptionate := fst (exceptionate_shutdown (job_debug_exceptionate jb)),
                         job_base := kset SIG_JOB_TERMINATED (job_base jb)\<rparr>) s))"

definition terminate_if_done :: "nat \<Rightarrow> job \<Rightarrow> task_call list" where
  "terminate_if_done j jb =
     (if job_killed jb \<and> job_processes jb = [] \<and> job_children jb = [] then [JobTerminate j] else [])"

definition job_remove_child :: "nat \<Rightarrow> nat \<Rightarrow> ('c, 'x) tasks \<Rightarrow> task_call list \<times> ('c, 'x) tasks" where
  "job_remove_child j c s =
     (case jobs s j of
        None \<Rightarrow> ([], s)
      | Some jb \<Rightarrow>
          (let jb' = jb\<lparr>job_children := filter (\<lambda>x. x \<noteq> c) (job_children jb)\<rparr>
           in (terminate_if_done j jb', upd_job j jb' s)))"

definition job_remove_process :: "nat \<Rightarrow> nat \<Rightarrow> ('c, 'x) tasks \<Rightarrow> task_call list \<times> ('c, 'x) tasks" where
  "job_remove_process j p s =
     (case jobs s j of
        None \<Rightarrow> ([], s)
      | Some jb \<Rightarrow>
          (let jb' = jb\<lparr>job_processes := filter (\<lambda>x. x \<noteq> p) (job_processes jb)\<rparr>
           in (terminate_if_done j jb', upd_job j jb' s)))"

text \<open>
  Clearing the handles drops every handle of the table; what that does to the objects is not part of
  this model.
\<close>

definition clear_handles :: "process \<Rightarrow> process" where
  "clear_handles pr = pr\<lparr>p_table := (p_table pr)\<lparr>handles := (\<lambda>_. None)\<rparr>\<rparr>"

definition process_exit :: "nat \<Rightarrow> int \<Rightarrow> ('c, 'x) tasks \<Rightarrow> task_call list \<times> ('c, 'x) tasks" where
  "process_exit p retcode s =
     (case procs s p of
        None \<Rightarrow> ([], s)
      | Some pr \<Rightarrow>
          if exited (p_status pr) then ([], s)
          else
            (let pr1 = pr\<lparr>p_status := PExited retcode\<rparr>
             in if p_threads pr = [] then ([ProcTerminate p], upd_proc p (clear_handles pr1) s)
                else (map (\<lambda>t. ThreadStop t True) (p_threads pr) @ [ProcClearHandles p], upd_proc p pr1 s)))"

definition process_terminate :: "nat \<Rightarrow> ('c, 'x) tasks \<Rightarrow> task_call list \<times> ('c, 'x) tasks" where
  "process_terminate p s =
     (case procs s p of
        None \<Rightarrow> ([], s)
      | Some pr \<Rightarrow>
          ([JobRemoveProcess (p_job pr) p, ProcCritical p],
           upd_proc p (pr\<lparr>p_status := if exited (p_status pr) then p_status pr else PExited 0,
                          p_base := kset SIG_PROCESS_TERMINATED (p_base pr),
                          p_exceptionate := fst (exceptionate_shutdown (p_exceptionate pr)),
                          p_debug_exceptionate := fst (exceptionate_shutdown (p_debug_exceptionate pr))\<rparr>) s))"

text \<open>The end of \<^verbatim>\<open>Process::terminate\<close>, after the job has forgotten the process.\<close>

definition process_critical :: "nat \<Rightarrow> ('c, 'x) tasks \<Rightarrow> task_call list \<times> ('c, 'x) tasks" where
  "process_critical p s =
     (case procs s p of
        None \<Rightarrow> ([], s)
      | Some pr \<Rightarrow>
          (case p_critical pr of
             Some (j, retcode_nonzero) \<Rightarrow>
               if \<not> retcode_nonzero \<or> p_status pr \<noteq> PExited 0 then [JobKill j] else []
           | None \<Rightarrow> [], s))"

definition process_remove_thread :: "nat \<Rightarrow> nat \<Rightarrow> ('c, 'x) tasks \<Rightarrow> task_call list \<times> ('c, 'x) tasks" where
  "process_remove_thread p t s =
     (case procs s p of
        None \<Rightarrow> ([], s)
      | Some pr \<Rightarrow>
          (let pr' = pr\<lparr>p_threads := filter (\<lambda>x. x \<noteq> t) (p_threads pr)\<rparr>
           in (if p_threads pr' = [] then [ProcTerminate p] else [], upd_proc p pr' s)))"

fun task_step :: "task_call \<Rightarrow> ('c, 'x) tasks \<Rightarrow> task_call list \<times> ('c, 'x) tasks" where
  "task_step (JobKill j) s = job_kill j s"
| "task_step (JobTerminate j) s = job_terminate j s"
| "task_step (JobRemoveChild j c) s = job_remove_child j c s"
| "task_step (JobRemoveProcess j p) s = job_remove_process j p s"
| "task_step (ProcExit p r) s = process_exit p r s"
| "task_step (ProcClearHandles p) s =
     (case procs s p of None \<Rightarrow> ([], s) | Some pr \<Rightarrow> ([], upd_proc p (clear_handles pr) s))"
| "task_step (ProcTerminate p) s = process_terminate p s"
| "task_step (ProcCritical p) s = process_critical p s"
| "task_step (ProcRemoveThread p t) s = process_remove_thread p t s"
| "task_step (ThreadStop t k) s =
     (case threads s t of None \<Rightarrow> ([], s) | Some (p, th) \<Rightarrow> ([], upd_thread t p (fst (stop k th)) s))"
| "task_step (ThreadTerminate t) s =
     (case threads s t of
        None \<Rightarrow> ([], s)
      | Some (p, th) \<Rightarrow> ([ProcRemoveThread p t], upd_thread t p (thread_terminate th) s))"

partial_function (option) run_calls :: "task_call list \<Rightarrow> ('c, 'x) tasks \<Rightarrow> ('c, 'x) tasks option" where
  "run_calls cs s =
     (case cs of
        [] \<Rightarrow> Some s
      | c # cs' \<Rightarrow> (case task_step c s of (new, s') \<Rightarrow> run_calls (new @ cs') s'))"

lemma run_calls_simps [simp]:
  "run_calls [] s = Some s"
  "run_calls (c # cs) s = run_calls (fst (task_step c s) @ cs) (snd (task_step c s))"
  by (simp_all add: run_calls.simps [of "[]"] run_calls.simps [of "c # cs"] case_prod_unfold)


section \<open>Operations from outside\<close>

text \<open>Creation: the new object gets the next number. A process is dropped again when its job is killed.\<close>

definition tree_create_job :: "nat \<Rightarrow> u64 \<Rightarrow> ('c, 'x) tasks \<Rightarrow> nat zx_result \<times> ('c, 'x) tasks" where
  "tree_create_job p koid s =
     (case jobs s p of
        None \<Rightarrow> (Err BAD_HANDLE, s)
      | Some jb \<Rightarrow>
          (case create_child p (next_job s) koid jb of
             (Ok child, jb') \<Rightarrow>
               (Ok (next_job s), (upd_job (next_job s) child (upd_job p jb' s))\<lparr>next_job := next_job s + 1\<rparr>)
           | (Err e, _) \<Rightarrow> (Err e, s)
           | (Panic, _) \<Rightarrow> (Panic, s)))"

definition process_create :: "string \<Rightarrow> nat \<Rightarrow> u64 \<Rightarrow> ('c, 'x) tasks \<Rightarrow> nat zx_result \<times> ('c, 'x) tasks" where
  "process_create name j koid s =
     (case jobs s j of
        None \<Rightarrow> (Err BAD_HANDLE, s)
      | Some jb \<Rightarrow>
          (case job_add_process (next_proc s) jb of
             (Ok _, jb') \<Rightarrow>
               (Ok (next_proc s),
                (upd_proc (next_proc s) (process_new name j jb koid) (upd_job j jb' s))\<lparr>next_proc := next_proc s + 1\<rparr>)
           | (Err e, _) \<Rightarrow> (Err e, s)
           | (Panic, _) \<Rightarrow> (Panic, s)))"

definition thread_create :: "string \<Rightarrow> nat \<Rightarrow> 'c \<Rightarrow> u64 \<Rightarrow> ('c, 'x) tasks \<Rightarrow> nat zx_result \<times> ('c, 'x) tasks" where
  "thread_create name p fresh koid s =
     (case procs s p of
        None \<Rightarrow> (Err BAD_HANDLE, s)
      | Some pr \<Rightarrow>
          (case add_thread (next_thread s) pr of
             (Ok _, pr') \<Rightarrow>
               (Ok (next_thread s),
                (upd_thread (next_thread s) p (fst (thread_new name fresh koid)) (upd_proc p pr' s))
                  \<lparr>next_thread := next_thread s + 1\<rparr>)
           | (Err e, _) \<Rightarrow> (Err e, s)
           | (Panic, _) \<Rightarrow> (Panic, s)))"

text \<open>
  \<^verbatim>\<open>Process::start\<close>: \<open>setup h\<close> is \<^verbatim>\<open>setup_uspace\<close> with the entry arguments and the handle value \<open>h\<close> of
  the first argument in the new process.
\<close>

definition process_start ::
  "nat \<Rightarrow> nat \<Rightarrow> handle option \<Rightarrow> (handle_value \<Rightarrow> 'c \<Rightarrow> 'c) \<Rightarrow> ('c, 'x) tasks
     \<Rightarrow> unit zx_result \<times> ('c, 'x) tasks" where
  "process_start p t arg1 setup s =
     (case (procs s p, threads s t) of
        (Some pr, Some (q, th)) \<Rightarrow>
          if t \<notin> set (p_threads pr) then (Err ACCESS_DENIED, s)
          else if p_status pr \<noteq> PInit then (Err BAD_STATE, s)
          else
            (let (h, tbl) = (case arg1 of None \<Rightarrow> (INVALID_HANDLE, p_table pr) | Some a \<Rightarrow> add_handle a (p_table pr));
                 pr1 = pr\<lparr>p_status := PRunning, p_table := tbl\<rparr>;
                 (r, th1) = start_with_entry (setup h) (set_first_thread th);
                 pr2 = (if r \<noteq> Ok () \<and> h \<noteq> INVALID_HANDLE
                        then pr1\<lparr>p_table := snd (remove_handle h tbl)\<rparr> else pr1)
             in (r, upd_thread t q th1 (upd_proc p pr2 s)))
      | _ \<Rightarrow> (Err BAD_HANDLE, s))"

text \<open>The walk of \<^verbatim>\<open>set_critical_at_job\<close> from the process's job to the root.\<close>

partial_function (option) find_ancestor :: "('c, 'x) tasks \<Rightarrow> nat \<Rightarrow> nat \<Rightarrow> bool option" where
  "find_ancestor s target j =
     (if j = target then Some True
      else case jobs s j of
             None \<Rightarrow> Some False
           | Some jb \<Rightarrow> (case job_parent jb of None \<Rightarrow> Some False | Some p \<Rightarrow> find_ancestor s target p))"

definition set_critical_at_job ::
  "nat \<Rightarrow> nat \<Rightarrow> bool \<Rightarrow> ('c, 'x) tasks \<Rightarrow> (unit zx_result \<times> ('c, 'x) tasks) option" where
  "set_critical_at_job p j retcode_nonzero s =
     (case procs s p of
        None \<Rightarrow> Some (Err BAD_HANDLE, s)
      | Some pr \<Rightarrow>
          if p_critical pr \<noteq> None then Some (Err ALREADY_BOUND, s)
          else map_option (\<lambda>found.
                 if found then (Ok (), upd_proc p (pr\<lparr>p_critical := Some (j, retcode_nonzero)\<rparr>) s)
                 else (Err INVALID_ARGS, s)) (find_ancestor s j (p_job pr)))"

text \<open>
  \<^verbatim>\<open>Drop for Job\<close>: possible once no child job and no process holds the job; the object is gone, and
  its parent forgets it.
\<close>

definition job_drop :: "nat \<Rightarrow> ('c, 'x) tasks \<Rightarrow> ('c, 'x) tasks option" where
  "job_drop j s =
     (case jobs s j of
        None \<Rightarrow> Some s
      | Some jb \<Rightarrow>
          run_calls (case job_parent jb of Some p \<Rightarrow> [JobRemoveChild p j] | None \<Rightarrow> [])
            (s\<lparr>jobs := (jobs s)(j := None)\<rparr>))"

definition job_unreferenced :: "nat \<Rightarrow> ('c, 'x) tasks \<Rightarrow> bool" where
  "job_unreferenced j s \<longleftrightarrow>
     list_all (\<lambda>c. case jobs s c of Some jb \<Rightarrow> job_parent jb \<noteq> Some j | None \<Rightarrow> True) [0..<next_job s]
     \<and> list_all (\<lambda>p. case procs s p of Some pr \<Rightarrow> p_job pr \<noteq> j | None \<Rightarrow> True) [0..<next_proc s]"

datatype 'c task_op =
    OCreateJob nat u64
  | OCreateProcess string nat u64
  | OCreateThread string nat 'c u64
  | OStart nat nat "handle option" "handle_value \<Rightarrow> 'c \<Rightarrow> 'c"
  | OCritical nat nat bool
  | OPolicy nat policy_op
  | OKillJob nat
  | OExitProcess nat int
  | OStopThread nat bool
  | OThreadEnds nat
  | ODropJob nat

fun task_exec :: "'c task_op \<Rightarrow> ('c, 'x) tasks \<Rightarrow> ('c, 'x) tasks option" where
  "task_exec (OCreateJob p k) s = Some (snd (tree_create_job p k s))"
| "task_exec (OCreateProcess n j k) s = Some (snd (process_create n j k s))"
| "task_exec (OCreateThread n p c k) s = Some (snd (thread_create n p c k s))"
| "task_exec (OStart p t a f) s = Some (snd (process_start p t a f s))"
| "task_exec (OCritical p j b) s = map_option snd (set_critical_at_job p j b s)"
| "task_exec (OPolicy j x) s =
     Some (case jobs s j of None \<Rightarrow> s | Some jb \<Rightarrow> upd_job j (policy_exec x jb) s)"
| "task_exec (OKillJob j) s = run_calls [JobKill j] s"
| "task_exec (OExitProcess p r) s = run_calls [ProcExit p r] s"
| "task_exec (OStopThread t k) s = run_calls [ThreadStop t k] s"
| "task_exec (OThreadEnds t) s = run_calls [ThreadTerminate t] s"
| "task_exec (ODropJob j) s = (if job_unreferenced j s then job_drop j s else Some s)"

definition tree_init :: "u64 \<Rightarrow> ('c, 'x) tasks" where
  "tree_init koid =
     \<lparr>jobs = (\<lambda>_. None)(0 := Some (job_root koid)), procs = (\<lambda>_. None), threads = (\<lambda>_. None),
      next_job = 1, next_proc = 0, next_thread = 0\<rparr>"

inductive task_reachable :: "('c, 'x) tasks \<Rightarrow> bool" where
  init: "task_reachable (tree_init koid)"
| step: "task_reachable s \<Longrightarrow> task_exec x s = Some s' \<Longrightarrow> task_reachable s'"

section \<open>The invariant\<close>

definition job_terminated :: "job \<Rightarrow> bool" where
  "job_terminated jb \<longleftrightarrow> contains (kobj_signal (job_base jb)) SIG_JOB_TERMINATED"

definition proc_terminated :: "process \<Rightarrow> bool" where
  "proc_terminated pr \<longleftrightarrow> contains (kobj_signal (p_base pr)) SIG_PROCESS_TERMINATED"

text \<open>
  \<open>cs\<close> are the calls still to be made. Every clause holds as it stands when there are none; while a
  call runs, what it has not done yet is among \<open>cs\<close>.
\<close>

definition parent_good :: "task_call list \<Rightarrow> nat \<Rightarrow> job \<Rightarrow> nat \<Rightarrow> job \<Rightarrow> bool" where
  "parent_good cs j jb p jp \<longleftrightarrow>
     (\<not> job_killed jb \<longrightarrow> j \<in> set (job_children jp))
     \<and> (job_killed jp \<longrightarrow> job_killed jb \<or> JobKill j \<in> set cs)
     \<and> (job_terminated jb \<longrightarrow> j \<notin> set (job_children jp) \<or> JobRemoveChild p j \<in> set cs)"

definition job_good :: "task_call list \<Rightarrow> (nat \<Rightarrow> job option) \<Rightarrow> nat \<Rightarrow> job \<Rightarrow> bool" where
  "job_good cs js j jb \<longleftrightarrow>
     (job_terminated jb \<longrightarrow> job_killed jb \<and> job_is_empty jb)
     \<and> (job_killed jb \<and> job_is_empty jb \<longrightarrow> job_terminated jb \<or> JobTerminate j \<in> set cs)
     \<and> (\<forall>p. job_parent jb = Some p \<longrightarrow> p < j \<and> (\<exists>jp. js p = Some jp \<and> parent_good cs j jb p jp))"

definition proc_good :: "task_call list \<Rightarrow> (nat \<Rightarrow> job option) \<Rightarrow> nat \<Rightarrow> process \<Rightarrow> bool" where
  "proc_good cs js p pr \<longleftrightarrow>
     (proc_terminated pr \<longrightarrow> exited (p_status pr) \<and> p_threads pr = [])
     \<and> (exited (p_status pr) \<and> p_threads pr = [] \<longrightarrow> proc_terminated pr \<or> ProcTerminate p \<in> set cs)
     \<and> (\<exists>jb. js (p_job pr) = Some jb
          \<and> (\<not> exited (p_status pr) \<longrightarrow> p \<in> set (job_processes jb))
          \<and> (job_killed jb \<longrightarrow> exited (p_status pr) \<or> (\<exists>r. ProcExit p r \<in> set cs))
          \<and> (proc_terminated pr \<longrightarrow>
               p \<notin> set (job_processes jb) \<or> JobRemoveProcess (p_job pr) p \<in> set cs))"

fun call_good :: "(nat \<Rightarrow> job option) \<Rightarrow> (nat \<Rightarrow> process option) \<Rightarrow> task_call \<Rightarrow> bool" where
  "call_good js ps (JobTerminate j) \<longleftrightarrow> (\<forall>jb. js j = Some jb \<longrightarrow> job_killed jb \<and> job_is_empty jb)"
| "call_good js ps (JobRemoveChild j c) \<longleftrightarrow> (\<forall>jb. js c = Some jb \<longrightarrow> job_killed jb)"
| "call_good js ps (JobRemoveProcess j p) \<longleftrightarrow> (\<forall>pr. ps p = Some pr \<longrightarrow> exited (p_status pr))"
| "call_good js ps (ProcTerminate p) \<longleftrightarrow> (\<forall>pr. ps p = Some pr \<longrightarrow> p_threads pr = [])"
| "call_good js ps _ \<longleftrightarrow> True"

definition tree_inv :: "task_call list \<Rightarrow> ('c, 'x) tasks \<Rightarrow> bool" where
  "tree_inv cs s \<longleftrightarrow>
     (\<forall>j jb. jobs s j = Some jb \<longrightarrow> j < next_job s \<and> job_good cs (jobs s) j jb)
     \<and> (\<forall>p pr. procs s p = Some pr \<longrightarrow> p < next_proc s \<and> proc_good cs (jobs s) p pr)
     \<and> list_all (call_good (jobs s) (procs s)) cs"


section \<open>Keeping the invariant\<close>

lemma parent_good_mono: "parent_good cs j jb p jp \<Longrightarrow> set cs \<subseteq> set cs' \<Longrightarrow> parent_good cs' j jb p jp"
  by (auto simp: parent_good_def)

lemma job_good_mono: "job_good cs js j jb \<Longrightarrow> set cs \<subseteq> set cs' \<Longrightarrow> job_good cs' js j jb"
  unfolding job_good_def by (meson parent_good_mono subsetD)

lemma proc_good_mono: "proc_good cs js p pr \<Longrightarrow> set cs \<subseteq> set cs' \<Longrightarrow> proc_good cs' js p pr"
  unfolding proc_good_def by (meson subsetD)

lemma tree_inv_jobD: "tree_inv cs s \<Longrightarrow> jobs s j = Some jb \<Longrightarrow> j < next_job s \<and> job_good cs (jobs s) j jb"
  by (simp add: tree_inv_def)

lemma tree_inv_procD: "tree_inv cs s \<Longrightarrow> procs s p = Some pr \<Longrightarrow> p < next_proc s \<and> proc_good cs (jobs s) p pr"
  by (simp add: tree_inv_def)

lemma tree_inv_callD: "tree_inv cs s \<Longrightarrow> c \<in> set cs \<Longrightarrow> call_good (jobs s) (procs s) c"
  by (simp add: tree_inv_def list_all_iff)

lemma tree_inv_push:
  "tree_inv cs s \<Longrightarrow> set cs \<subseteq> set cs' \<Longrightarrow> list_all (call_good (jobs s) (procs s)) cs' \<Longrightarrow> tree_inv cs' s"
  unfolding tree_inv_def using job_good_mono proc_good_mono by blast

lemma tree_inv_threads: "tree_inv cs (s\<lparr>threads := ts\<rparr>) = tree_inv cs s"
  by (simp add: tree_inv_def)

text \<open>A call may be taken off the stack once it has achieved what its entry stood for.\<close>

fun achieved :: "('c, 'x) tasks \<Rightarrow> task_call \<Rightarrow> bool" where
  "achieved s (JobKill j) \<longleftrightarrow> (\<forall>jb. jobs s j = Some jb \<longrightarrow> job_killed jb)"
| "achieved s (JobTerminate j) \<longleftrightarrow> (\<forall>jb. jobs s j = Some jb \<longrightarrow> job_terminated jb)"
| "achieved s (JobRemoveChild j c) \<longleftrightarrow> (\<forall>jb. jobs s j = Some jb \<longrightarrow> c \<notin> set (job_children jb))"
| "achieved s (JobRemoveProcess j p) \<longleftrightarrow> (\<forall>jb. jobs s j = Some jb \<longrightarrow> p \<notin> set (job_processes jb))"
| "achieved s (ProcExit p r) \<longleftrightarrow> (\<forall>pr. procs s p = Some pr \<longrightarrow> exited (p_status pr))"
| "achieved s (ProcTerminate p) \<longleftrightarrow> (\<forall>pr. procs s p = Some pr \<longrightarrow> proc_terminated pr)"
| "achieved s _ \<longleftrightarrow> True"

lemma job_good_pop:
  "job_good (c # cs) (jobs s) j jb \<Longrightarrow> jobs s j = Some jb \<Longrightarrow> achieved s c \<Longrightarrow> job_good cs (jobs s) j jb"
  by (cases c) (fastforce simp: job_good_def parent_good_def)+

lemma proc_good_pop:
  "proc_good (c # cs) (jobs s) p pr \<Longrightarrow> procs s p = Some pr \<Longrightarrow> achieved s c \<Longrightarrow> proc_good cs (jobs s) p pr"
  by (cases c) (fastforce simp: proc_good_def)+

lemma tree_inv_pop: "tree_inv (c # cs) s \<Longrightarrow> achieved s c \<Longrightarrow> tree_inv cs s"
  unfolding tree_inv_def using job_good_pop proc_good_pop by (metis list.pred_inject(2))

lemma call_good_job:
  assumes "call_good (jobs s) (procs s) c" "jobs s j = Some jb"
    and "job_killed jb \<Longrightarrow> job_killed jb'"
    and "set (job_children jb') \<subseteq> set (job_children jb)" "set (job_processes jb') \<subseteq> set (job_processes jb)"
  shows "call_good ((jobs s)(j := Some jb')) (procs s) c"
  using assms by (cases c) (auto simp: job_is_empty_def)

lemma call_good_proc:
  assumes "call_good (jobs s) (procs s) c" "procs s p = Some pr"
    and "exited (p_status pr) \<Longrightarrow> exited (p_status pr')" "p_threads pr = [] \<Longrightarrow> p_threads pr' = []"
  shows "call_good (jobs s) ((procs s)(p := Some pr')) c"
  using assms by (cases c) auto

text \<open>Replacing one job by one with fewer members.\<close>

definition proc_member_good :: "task_call list \<Rightarrow> nat \<Rightarrow> process \<Rightarrow> job \<Rightarrow> bool" where
  "proc_member_good cs p pr jb \<longleftrightarrow>
     (\<not> exited (p_status pr) \<longrightarrow> p \<in> set (job_processes jb))
     \<and> (job_killed jb \<longrightarrow> exited (p_status pr) \<or> (\<exists>r. ProcExit p r \<in> set cs))
     \<and> (proc_terminated pr \<longrightarrow> p \<notin> set (job_processes jb) \<or> JobRemoveProcess (p_job pr) p \<in> set cs)"

lemma proc_good_eq:
  "proc_good cs js p pr \<longleftrightarrow>
     (proc_terminated pr \<longrightarrow> exited (p_status pr) \<and> p_threads pr = [])
     \<and> (exited (p_status pr) \<and> p_threads pr = [] \<longrightarrow> proc_terminated pr \<or> ProcTerminate p \<in> set cs)
     \<and> (\<exists>jb. js (p_job pr) = Some jb \<and> proc_member_good cs p pr jb)"
  by (simp add: proc_good_def proc_member_good_def)

lemma proc_member_good_mono:
  "proc_member_good cs p pr jb \<Longrightarrow> set cs \<subseteq> set cs' \<Longrightarrow> proc_member_good cs' p pr jb"
  unfolding proc_member_good_def by blast

lemma tree_inv_upd_job:
  assumes inv: "tree_inv cs s" and j: "jobs s j = Some jb" and sub: "set cs \<subseteq> set cs'"
    and par: "job_parent jb' = job_parent jb" and killed: "job_killed jb \<Longrightarrow> job_killed jb'"
    and ch: "set (job_children jb') \<subseteq> set (job_children jb)"
    and pr: "set (job_processes jb') \<subseteq> set (job_processes jb)"
    and new: "list_all (call_good ((jobs s)(j := Some jb')) (procs s)) cs'"
    and t1: "job_terminated jb' \<Longrightarrow> job_killed jb' \<and> job_is_empty jb'"
    and t2: "job_killed jb' \<and> job_is_empty jb' \<Longrightarrow> job_terminated jb' \<or> JobTerminate j \<in> set cs'"
    and up: "\<And>p jp. job_parent jb = Some p \<Longrightarrow> parent_good cs j jb p jp \<Longrightarrow> parent_good cs' j jb' p jp"
    and down: "\<And>c jc. jobs s c = Some jc \<Longrightarrow> c \<noteq> j \<Longrightarrow> parent_good cs c jc j jb \<Longrightarrow> parent_good cs' c jc j jb'"
    and mem: "\<And>p pr. procs s p = Some pr \<Longrightarrow> p_job pr = j \<Longrightarrow> proc_member_good cs p pr jb \<Longrightarrow> proc_member_good cs' p pr jb'"
  shows "tree_inv cs' (upd_job j jb' s)"
proof -
  have jobs: "job_good cs' ((jobs s)(j := Some jb')) k jk'" and bound: "k < next_job s"
    if jk: "((jobs s)(j := Some jb')) k = Some jk'" for k jk'
  proof -
    obtain jk where k: "jobs s k = Some jk" "jk' = (if k = j then jb' else jk)"
      using jk j by (auto split: if_splits)
    from inv k(1) have g: "k < next_job s" "job_good cs (jobs s) k jk" by (auto dest: tree_inv_jobD)
    then show "k < next_job s" by simp
    show "job_good cs' ((jobs s)(j := Some jb')) k jk'"
    proof (cases "k = j")
      case True
      with k j have e: "jk = jb" "jk' = jb'" by simp_all
      have "p < j \<and> (\<exists>jp. ((jobs s)(j := Some jb')) p = Some jp \<and> parent_good cs' j jb' p jp)"
        if "job_parent jb' = Some p" for p
        using that g(2) e True par up by (auto simp: job_good_def)
      with t1 t2 True e show ?thesis by (auto simp: job_good_def)
    next
      case False
      with k have e: "jk' = jk" by simp
      have "p < k \<and> (\<exists>jp. ((jobs s)(j := Some jb')) p = Some jp \<and> parent_good cs' k jk p jp)"
        if parent: "job_parent jk = Some p" for p
      proof -
        obtain jp where jp: "p < k" "jobs s p = Some jp" "parent_good cs k jk p jp"
          using parent g(2) by (auto simp: job_good_def)
        show ?thesis
        proof (cases "p = j")
          case True
          then show ?thesis using jp down [OF k(1) False] j by simp
        next
          case False
          then show ?thesis using jp parent_good_mono [OF jp(3) sub] by simp
        qed
      qed
      moreover have "job_terminated jk \<longrightarrow> job_killed jk \<and> job_is_empty jk"
        "job_killed jk \<and> job_is_empty jk \<longrightarrow> job_terminated jk \<or> JobTerminate k \<in> set cs'"
        using g(2) sub by (auto simp: job_good_def)
      ultimately show ?thesis unfolding e by (simp add: job_good_def)
    qed
  qed
  have procs: "p < next_proc s \<and> proc_good cs' ((jobs s)(j := Some jb')) p pr" if p: "procs s p = Some pr" for p pr
  proof -
    from inv p have g: "p < next_proc s" "proc_good cs (jobs s) p pr" by (auto dest: tree_inv_procD)
    then obtain jq where q: "jobs s (p_job pr) = Some jq" "proc_member_good cs p pr jq"
      by (auto simp: proc_good_eq)
    have "proc_member_good cs' p pr (if p_job pr = j then jb' else jq)"
      using q mem [OF p] j proc_member_good_mono [OF _ sub] by auto
    with g q sub show ?thesis by (auto simp: proc_good_eq)
  qed
  show ?thesis using jobs bound procs new by (auto simp: tree_inv_def upd_job_def)
qed

lemma tree_inv_upd_proc:
  assumes inv: "tree_inv cs s" and p: "procs s p = Some pr" and sub: "set cs \<subseteq> set cs'"
    and new: "list_all (call_good (jobs s) ((procs s)(p := Some pr'))) cs'"
    and good: "proc_good cs (jobs s) p pr \<Longrightarrow> proc_good cs' (jobs s) p pr'"
  shows "tree_inv cs' (upd_proc p pr' s)"
proof -
  have "q < next_proc s \<and> proc_good cs' (jobs s) q prq" if "((procs s)(p := Some pr')) q = Some prq" for q prq
    using that inv p good sub
    by (cases "q = p") (auto dest: tree_inv_procD intro: proc_good_mono)
  moreover have "j < next_job s \<and> job_good cs' (jobs s) j jb" if "jobs s j = Some jb" for j jb
    using that inv sub by (auto dest: tree_inv_jobD intro: job_good_mono)
  ultimately show ?thesis using new by (simp add: tree_inv_def upd_proc_def)
qed


text \<open>The calls, one by one: push what the body calls, then take the call off the stack.\<close>

lemma not_terminated_if_unkilled:
  "tree_inv cs s \<Longrightarrow> jobs s j = Some jb \<Longrightarrow> \<not> job_killed jb \<Longrightarrow> \<not> job_terminated jb"
  by (auto dest!: tree_inv_jobD simp: job_good_def)

lemma callees_good:
  "list_all (call_good js ps) new \<Longrightarrow> (\<And>c. c \<in> set cs \<Longrightarrow> call_good js ps c) \<Longrightarrow>
     list_all (call_good js ps) (d # new @ cs) \<longleftrightarrow> call_good js ps d"
  by (auto simp: list_all_iff)

lemma job_kill_inv:
  assumes "tree_inv (JobKill j # cs) s"
  shows "tree_inv (fst (job_kill j s) @ cs) (snd (job_kill j s))"
proof (cases "\<exists>jb. jobs s j = Some jb \<and> \<not> job_killed jb")
  case True
  then obtain jb where jb: "jobs s j = Some jb" "\<not> job_killed jb" by blast
  let ?jb = "jb\<lparr>job_killed := True\<rparr>"
  let ?new = "if job_children jb = [] \<and> job_processes jb = [] then [JobTerminate j]
     else map JobKill (job_children jb) @ map (\<lambda>p. ProcExit p TASK_RETCODE_SYSCALL_KILL) (job_processes jb)"
  have nt: "\<not> job_terminated jb" using not_terminated_if_unkilled [OF assms jb] .
  then have nt': "\<not> job_terminated ?jb" by (simp add: job_terminated_def)
  have "tree_inv (JobKill j # ?new @ cs) (upd_job j ?jb s)"
  proof (rule tree_inv_upd_job [OF assms jb(1)])
    show "list_all (call_good ((jobs s)(j := Some ?jb)) (procs s)) (JobKill j # ?new @ cs)"
      using tree_inv_callD [OF assms] call_good_job [OF _ jb(1), of _ ?jb]
      by (auto simp: list_all_iff job_is_empty_def)
    show "parent_good (JobKill j # ?new @ cs) c jc j ?jb" if "parent_good (JobKill j # cs) c jc j jb" for c jc
      using that jb(2) by (auto simp: parent_good_def)
    show "proc_member_good (JobKill j # ?new @ cs) p pr ?jb" if "proc_member_good (JobKill j # cs) p pr jb" for p pr
      using that jb(2) by (auto simp: proc_member_good_def)
  qed (use nt' in \<open>auto simp: parent_good_def job_is_empty_def\<close>)
  then have "tree_inv (?new @ cs) (upd_job j ?jb s)"
    by (rule tree_inv_pop) (simp add: upd_job_def)
  with jb show ?thesis by (simp add: job_kill_def)
next
  case False
  then have "job_kill j s = ([], s)" by (auto simp: job_kill_def split: option.split)
  with False assms show ?thesis by (auto intro: tree_inv_pop)
qed

lemma job_terminate_inv:
  assumes "tree_inv (JobTerminate j # cs) s"
  shows "tree_inv (fst (job_terminate j s) @ cs) (snd (job_terminate j s))"
proof (cases "jobs s j")
  case (Some jb)
  let ?jb = "jb\<lparr>job_exceptionate := fst (exceptionate_shutdown (job_exceptionate jb)),
                 job_debug_exceptionate := fst (exceptionate_shutdown (job_debug_exceptionate jb)),
                 job_base := kset SIG_JOB_TERMINATED (job_base jb)\<rparr>"
  let ?new = "case job_parent jb of Some p \<Rightarrow> [JobRemoveChild p j] | None \<Rightarrow> []"
  have k: "job_killed jb" "job_is_empty jb" using tree_inv_callD [OF assms, of "JobTerminate j"] Some by auto
  have t: "job_terminated ?jb" by (simp add: job_terminated_def SIG_JOB_TERMINATED_def flag_simps)
  have "tree_inv (JobTerminate j # ?new @ cs) (upd_job j ?jb s)"
  proof (rule tree_inv_upd_job [OF assms Some])
    show "list_all (call_good ((jobs s)(j := Some ?jb)) (procs s)) (JobTerminate j # ?new @ cs)"
      using tree_inv_callD [OF assms] call_good_job [OF _ Some, of _ ?jb] k
      by (auto simp: list_all_iff job_is_empty_def split: option.splits)
    show "parent_good (JobTerminate j # ?new @ cs) j ?jb p jp"
      if "job_parent jb = Some p" "parent_good (JobTerminate j # cs) j jb p jp" for p jp
      using that k t by (auto simp: parent_good_def)
    show "parent_good (JobTerminate j # ?new @ cs) c jc j ?jb" if "parent_good (JobTerminate j # cs) c jc j jb" for c jc
      using that by (auto simp: parent_good_def)
    show "proc_member_good (JobTerminate j # ?new @ cs) p pr ?jb"
      if "proc_member_good (JobTerminate j # cs) p pr jb" for p pr
      using that by (auto simp: proc_member_good_def)
  qed (use t k in \<open>auto simp: job_is_empty_def\<close>)
  then have "tree_inv (?new @ cs) (upd_job j ?jb s)"
    by (rule tree_inv_pop) (use t in \<open>simp add: upd_job_def\<close>)
  with Some show ?thesis by (simp add: job_terminate_def)
next
  case None
  with assms show ?thesis by (auto simp: job_terminate_def intro: tree_inv_pop)
qed


lemma terminate_if_done_good:
  "call_good js ps c \<Longrightarrow> js j = Some jb \<Longrightarrow> list_all (call_good js ps) (terminate_if_done j jb)"
  by (simp add: terminate_if_done_def job_is_empty_def)

lemma terminate_if_done_member:
  "job_killed jb \<and> job_is_empty jb \<Longrightarrow> JobTerminate j \<in> set (terminate_if_done j jb)"
  by (simp add: terminate_if_done_def job_is_empty_def)

lemma job_remove_child_inv:
  assumes "tree_inv (JobRemoveChild j c # cs) s"
  shows "tree_inv (fst (job_remove_child j c s) @ cs) (snd (job_remove_child j c s))"
proof (cases "jobs s j")
  case (Some jb)
  let ?jb = "jb\<lparr>job_children := filter (\<lambda>x. x \<noteq> c) (job_children jb)\<rparr>"
  let ?new = "terminate_if_done j ?jb"
  let ?cs = "JobRemoveChild j c # ?new @ cs"
  have c: "job_killed jc" if "jobs s c = Some jc" for jc
    using that tree_inv_callD [OF assms, of "JobRemoveChild j c"] by auto
  have g: "job_good (JobRemoveChild j c # cs) (jobs s) j jb" using tree_inv_jobD [OF assms Some] by simp
  have "tree_inv ?cs (upd_job j ?jb s)"
  proof (rule tree_inv_upd_job [OF assms Some])
    show "list_all (call_good ((jobs s)(j := Some ?jb)) (procs s)) ?cs"
      using tree_inv_callD [OF assms] call_good_job [OF _ Some, of _ ?jb] c Some
      by (auto simp: list_all_iff job_is_empty_def terminate_if_done_def)
    show "job_terminated ?jb \<Longrightarrow> job_killed ?jb \<and> job_is_empty ?jb"
      using g by (auto simp: job_good_def job_terminated_def job_is_empty_def)
    show "job_killed ?jb \<and> job_is_empty ?jb \<Longrightarrow> job_terminated ?jb \<or> JobTerminate j \<in> set ?cs"
      using terminate_if_done_member [of ?jb j] by simp
    show "parent_good ?cs j ?jb p jp" if "parent_good (JobRemoveChild j c # cs) j jb p jp" for p jp
      using that by (auto simp: parent_good_def job_terminated_def)
    show "parent_good ?cs k jk j ?jb"
      if "jobs s k = Some jk" "parent_good (JobRemoveChild j c # cs) k jk j jb" for k jk
      using that c by (cases "k = c") (auto simp: parent_good_def)
    show "proc_member_good ?cs p pr ?jb" if "proc_member_good (JobRemoveChild j c # cs) p pr jb" for p pr
      using that by (auto simp: proc_member_good_def)
  qed auto
  then have "tree_inv (?new @ cs) (upd_job j ?jb s)"
    by (rule tree_inv_pop) (simp add: upd_job_def)
  with Some show ?thesis by (simp add: job_remove_child_def)
next
  case None
  with assms show ?thesis by (auto simp: job_remove_child_def intro: tree_inv_pop)
qed

lemma job_remove_process_inv:
  assumes "tree_inv (JobRemoveProcess j p # cs) s"
  shows "tree_inv (fst (job_remove_process j p s) @ cs) (snd (job_remove_process j p s))"
proof (cases "jobs s j")
  case (Some jb)
  let ?jb = "jb\<lparr>job_processes := filter (\<lambda>x. x \<noteq> p) (job_processes jb)\<rparr>"
  let ?new = "terminate_if_done j ?jb"
  let ?cs = "JobRemoveProcess j p # ?new @ cs"
  have p: "exited (p_status pr)" if "procs s p = Some pr" for pr
    using that tree_inv_callD [OF assms, of "JobRemoveProcess j p"] by auto
  have g: "job_good (JobRemoveProcess j p # cs) (jobs s) j jb" using tree_inv_jobD [OF assms Some] by simp
  have "tree_inv ?cs (upd_job j ?jb s)"
  proof (rule tree_inv_upd_job [OF assms Some])
    show "list_all (call_good ((jobs s)(j := Some ?jb)) (procs s)) ?cs"
      using tree_inv_callD [OF assms] call_good_job [OF _ Some, of _ ?jb] p
      by (auto simp: list_all_iff job_is_empty_def terminate_if_done_def)
    show "job_terminated ?jb \<Longrightarrow> job_killed ?jb \<and> job_is_empty ?jb"
      using g by (auto simp: job_good_def job_terminated_def job_is_empty_def)
    show "job_killed ?jb \<and> job_is_empty ?jb \<Longrightarrow> job_terminated ?jb \<or> JobTerminate j \<in> set ?cs"
      using terminate_if_done_member [of ?jb j] by simp
    show "parent_good ?cs j ?jb q jq" if "parent_good (JobRemoveProcess j p # cs) j jb q jq" for q jq
      using that by (auto simp: parent_good_def job_terminated_def)
    show "parent_good ?cs k jk j ?jb" if "parent_good (JobRemoveProcess j p # cs) k jk j jb" for k jk
      using that by (auto simp: parent_good_def)
    show "proc_member_good ?cs q pr ?jb"
      if "procs s q = Some pr" "proc_member_good (JobRemoveProcess j p # cs) q pr jb" for q pr
      using that p by (cases "q = p") (auto simp: proc_member_good_def)
  qed auto
  then have "tree_inv (?new @ cs) (upd_job j ?jb s)"
    by (rule tree_inv_pop) (simp add: upd_job_def)
  with Some show ?thesis by (simp add: job_remove_process_def)
next
  case None
  with assms show ?thesis by (auto simp: job_remove_process_def intro: tree_inv_pop)
qed

lemma clear_handles_simps [simp]:
  "p_status (clear_handles pr) = p_status pr" "p_threads (clear_handles pr) = p_threads pr"
  "p_job (clear_handles pr) = p_job pr" "p_base (clear_handles pr) = p_base pr"
  by (simp_all add: clear_handles_def)

lemma call_good_procD:
  "tree_inv cs s \<Longrightarrow> procs s p = Some pr \<Longrightarrow> (exited (p_status pr) \<Longrightarrow> exited (p_status pr')) \<Longrightarrow>
     (p_threads pr = [] \<Longrightarrow> p_threads pr' = []) \<Longrightarrow> c \<in> set cs \<Longrightarrow>
     call_good (jobs s) ((procs s)(p := Some pr')) c"
  using call_good_proc tree_inv_callD by blast

lemma process_exit_inv:
  assumes "tree_inv (ProcExit p r # cs) s"
  shows "tree_inv (fst (process_exit p r s) @ cs) (snd (process_exit p r s))"
proof (cases "\<exists>pr. procs s p = Some pr \<and> \<not> exited (p_status pr)")
  case True
  then obtain pr where pr: "procs s p = Some pr" "\<not> exited (p_status pr)" by blast
  let ?pr1 = "pr\<lparr>p_status := PExited r\<rparr>"
  let ?pr = "if p_threads pr = [] then clear_handles ?pr1 else ?pr1"
  let ?new = "if p_threads pr = [] then [ProcTerminate p]
     else map (\<lambda>t. ThreadStop t True) (p_threads pr) @ [ProcClearHandles p]"
  have "tree_inv (ProcExit p r # ?new @ cs) (upd_proc p ?pr s)"
  proof (rule tree_inv_upd_proc [OF assms pr(1)])
    show "list_all (call_good (jobs s) ((procs s)(p := Some ?pr))) (ProcExit p r # ?new @ cs)"
      using call_good_procD [OF assms pr(1), of ?pr] by (auto simp: list_all_iff)
    show "proc_good (ProcExit p r # cs) (jobs s) p pr \<Longrightarrow> proc_good (ProcExit p r # ?new @ cs) (jobs s) p ?pr"
      using pr(2) by (auto simp: proc_good_def proc_terminated_def)
  qed auto
  then have "tree_inv (?new @ cs) (upd_proc p ?pr s)"
    by (rule tree_inv_pop) (simp add: upd_proc_def)
  with pr show ?thesis by (cases "p_threads pr = []") (simp_all add: process_exit_def)
next
  case False
  then have "process_exit p r s = ([], s)" by (auto simp: process_exit_def split: option.split)
  with False assms show ?thesis by (auto intro: tree_inv_pop)
qed

lemma process_terminate_inv:
  assumes "tree_inv (ProcTerminate p # cs) s"
  shows "tree_inv (fst (process_terminate p s) @ cs) (snd (process_terminate p s))"
proof (cases "procs s p")
  case (Some pr)
  let ?pr = "pr\<lparr>p_status := if exited (p_status pr) then p_status pr else PExited 0,
                 p_base := kset SIG_PROCESS_TERMINATED (p_base pr),
                 p_exceptionate := fst (exceptionate_shutdown (p_exceptionate pr)),
                 p_debug_exceptionate := fst (exceptionate_shutdown (p_debug_exceptionate pr))\<rparr>"
  let ?cs = "ProcTerminate p # [JobRemoveProcess (p_job pr) p, ProcCritical p] @ cs"
  have th: "p_threads pr = []" using tree_inv_callD [OF assms, of "ProcTerminate p"] Some by auto
  have t: "proc_terminated ?pr" by (simp add: proc_terminated_def SIG_PROCESS_TERMINATED_def flag_simps)
  have "tree_inv ?cs (upd_proc p ?pr s)"
  proof (rule tree_inv_upd_proc [OF assms Some])
    show "list_all (call_good (jobs s) ((procs s)(p := Some ?pr))) ?cs"
      using call_good_procD [OF assms Some, of ?pr] th by (auto simp: list_all_iff)
    show "proc_good (ProcTerminate p # cs) (jobs s) p pr \<Longrightarrow> proc_good ?cs (jobs s) p ?pr"
      using t th by (auto simp: proc_good_def)
  qed auto
  then have "tree_inv ([JobRemoveProcess (p_job pr) p, ProcCritical p] @ cs) (upd_proc p ?pr s)"
    unfolding append_Cons by (rule tree_inv_pop) (use t in \<open>simp add: upd_proc_def\<close>)
  with Some show ?thesis by (simp add: process_terminate_def)
next
  case None
  with assms show ?thesis by (auto simp: process_terminate_def intro: tree_inv_pop)
qed

lemma process_remove_thread_inv:
  assumes "tree_inv (ProcRemoveThread p t # cs) s"
  shows "tree_inv (fst (process_remove_thread p t s) @ cs) (snd (process_remove_thread p t s))"
proof (cases "procs s p")
  case (Some pr)
  let ?pr = "pr\<lparr>p_threads := filter (\<lambda>x. x \<noteq> t) (p_threads pr)\<rparr>"
  let ?new = "if p_threads ?pr = [] then [ProcTerminate p] else []"
  have "tree_inv (ProcRemoveThread p t # ?new @ cs) (upd_proc p ?pr s)"
  proof (rule tree_inv_upd_proc [OF assms Some])
    show "list_all (call_good (jobs s) ((procs s)(p := Some ?pr))) (ProcRemoveThread p t # ?new @ cs)"
      using call_good_procD [OF assms Some, of ?pr] by (auto simp: list_all_iff)
    show "proc_good (ProcRemoveThread p t # cs) (jobs s) p pr \<Longrightarrow>
        proc_good (ProcRemoveThread p t # ?new @ cs) (jobs s) p ?pr"
      by (auto simp: proc_good_def proc_terminated_def)
  qed auto
  then have "tree_inv (?new @ cs) (upd_proc p ?pr s)"
    by (rule tree_inv_pop) simp
  with Some show ?thesis by (simp add: process_remove_thread_def)
next
  case None
  with assms show ?thesis by (auto simp: process_remove_thread_def intro: tree_inv_pop)
qed


lemma task_step_inv:
  assumes "tree_inv (c # cs) s"
  shows "tree_inv (fst (task_step c s) @ cs) (snd (task_step c s))"
proof (cases c)
  case (ProcClearHandles p)
  note pop = tree_inv_pop [OF assms]
  show ?thesis
  proof (cases "procs s p")
    case (Some pr)
    have "tree_inv cs (upd_proc p (clear_handles pr) s)"
    proof (rule tree_inv_upd_proc [OF pop Some])
      show "list_all (call_good (jobs s) ((procs s)(p := Some (clear_handles pr)))) cs"
        using call_good_procD [OF assms Some, of "clear_handles pr"] by (auto simp: list_all_iff)
      show "proc_good cs (jobs s) p pr \<Longrightarrow> proc_good cs (jobs s) p (clear_handles pr)"
        by (simp add: proc_good_def proc_terminated_def)
    qed (simp_all add: ProcClearHandles)
    with Some ProcClearHandles show ?thesis by simp
  qed (use pop ProcClearHandles in simp)
next
  case (ProcCritical p)
  have inv: "tree_inv cs s" using assms ProcCritical by (auto intro: tree_inv_pop)
  then have "tree_inv ((case procs s p of None \<Rightarrow> [] | Some pr \<Rightarrow> fst (process_critical p s)) @ cs) s"
    by (rule tree_inv_push)
      (use inv in \<open>auto simp: tree_inv_def process_critical_def split: option.splits\<close>)
  with ProcCritical show ?thesis by (auto simp: process_critical_def split: option.splits)
next
  case (ThreadStop t k)
  have "tree_inv cs s" using assms ThreadStop by (auto intro: tree_inv_pop)
  with ThreadStop show ?thesis by (auto simp: upd_thread_def tree_inv_threads split: option.split)
next
  case (ThreadTerminate t)
  have "tree_inv cs s" using assms ThreadTerminate by (auto intro: tree_inv_pop)
  then have "tree_inv (ProcRemoveThread p t # cs) s" for p
    by (rule tree_inv_push) (use \<open>tree_inv cs s\<close> in \<open>auto simp: tree_inv_def\<close>)
  with ThreadTerminate \<open>tree_inv cs s\<close> show ?thesis
    by (auto simp: upd_thread_def tree_inv_threads split: option.split)
qed (use assms job_kill_inv job_terminate_inv job_remove_child_inv job_remove_process_inv process_exit_inv
    process_terminate_inv process_remove_thread_inv in auto)

lemma run_calls_induct [consumes 1, case_names Nil Cons]:
  assumes "run_calls cs s = Some s'"
    and "\<And>s. P [] s s"
    and "\<And>c cs s s'. P (fst (task_step c s) @ cs) (snd (task_step c s)) s' \<Longrightarrow> P (c # cs) s s'"
  shows "P cs s s'"
  using assms(1)
proof (rule run_calls.raw_induct [rotated])
  fix run and cs :: "task_call list" and s s' :: "('a, 'b) tasks"
  assume ih: "\<And>cs s y. run cs s = Some y \<Longrightarrow> P cs s y"
    and "(case cs of [] \<Rightarrow> Some s | c # cs' \<Rightarrow> (case task_step c s of (new, s') \<Rightarrow> run (new @ cs') s')) = Some s'"
  then show "P cs s s'"
    by (cases cs) (auto simp: case_prod_unfold intro: assms(2,3))
qed

lemma run_calls_inv: "run_calls cs s = Some s' \<Longrightarrow> tree_inv cs s \<Longrightarrow> tree_inv [] s'"
  by (induction cs s s' rule: run_calls_induct) (auto dest: task_step_inv)

section \<open>Every call returns\<close>

text \<open>
  The measure of a stack: jobs not yet killed, processes not yet exited, and the weight of the calls,
  in this order. A call that is not the first kill of a job or the first exit of a process makes only
  lighter calls.
\<close>

definition tree_ok :: "('c, 'x) tasks \<Rightarrow> bool" where
  "tree_ok s \<longleftrightarrow>
     (\<forall>j jb. jobs s j = Some jb \<longrightarrow> j < next_job s \<and> (\<forall>p. job_parent jb = Some p \<longrightarrow> p < j))
     \<and> (\<forall>p pr. procs s p = Some pr \<longrightarrow> p < next_proc s \<and> p_job pr < next_job s)"

definition unkilled :: "('c, 'x) tasks \<Rightarrow> nat set" where
  "unkilled s = {j. \<exists>jb. jobs s j = Some jb \<and> \<not> job_killed jb}"

definition unexited :: "('c, 'x) tasks \<Rightarrow> nat set" where
  "unexited s = {p. \<exists>pr. procs s p = Some pr \<and> \<not> exited (p_status pr)}"

fun call_weight :: "nat \<Rightarrow> task_call \<Rightarrow> nat" where
  "call_weight n (JobTerminate j) = 2 * j + 1"
| "call_weight n (JobRemoveChild j c) = 2 * j + 2"
| "call_weight n (JobRemoveProcess j p) = 2 * j + 2"
| "call_weight n (ProcTerminate p) = 2 * n + 5"
| "call_weight n (ProcCritical p) = 2"
| "call_weight n (ProcRemoveThread p t) = 2 * n + 6"
| "call_weight n (ThreadTerminate t) = 2 * n + 7"
| "call_weight n _ = 1"

definition stack_weight :: "nat \<Rightarrow> task_call list \<Rightarrow> nat" where
  "stack_weight n cs = sum_list (map (call_weight n) cs)"

lemma tree_ok_finite: "tree_ok s \<Longrightarrow> finite (unkilled s) \<and> finite (unexited s)"
proof -
  assume "tree_ok s"
  then have "unkilled s \<subseteq> {..<next_job s}" "unexited s \<subseteq> {..<next_proc s}"
    by (auto simp: tree_ok_def unkilled_def unexited_def)
  then show ?thesis by (meson finite_lessThan finite_subset)
qed

text \<open>A step keeps the shape, and decreases the measure.\<close>

lemma tree_ok_upd_job:
  "tree_ok s \<Longrightarrow> jobs s j = Some jb \<Longrightarrow> job_parent jb' = job_parent jb \<Longrightarrow> tree_ok (upd_job j jb' s)"
  by (auto simp: tree_ok_def upd_job_def)

lemma tree_ok_upd_proc:
  "tree_ok s \<Longrightarrow> procs s p = Some pr \<Longrightarrow> p_job pr' = p_job pr \<Longrightarrow> tree_ok (upd_proc p pr' s)"
  by (auto simp: tree_ok_def upd_proc_def)

lemma tree_ok_upd_thread: "tree_ok (upd_thread t p th s) = tree_ok s"
  by (simp add: tree_ok_def upd_thread_def)

lemma tree_ok_step: "tree_ok s \<Longrightarrow> tree_ok (snd (task_step c s))"
  by (cases c)
    (auto simp: job_kill_def job_terminate_def job_remove_child_def job_remove_process_def process_exit_def
      process_terminate_def process_critical_def process_remove_thread_def tree_ok_upd_thread
      intro!: tree_ok_upd_job tree_ok_upd_proc split: option.split)

lemma step_next_job [simp]: "next_job (snd (task_step c s)) = next_job s"
  by (cases c)
    (auto simp: job_kill_def job_terminate_def job_remove_child_def job_remove_process_def process_exit_def
      process_terminate_def process_critical_def process_remove_thread_def upd_job_def upd_proc_def
      upd_thread_def split: option.split)

lemma step_unkilled: "unkilled (snd (task_step c s)) \<subseteq> unkilled s"
  by (cases c)
    (auto simp: unkilled_def job_kill_def job_terminate_def job_remove_child_def job_remove_process_def process_exit_def
      process_terminate_def process_critical_def process_remove_thread_def upd_job_def upd_proc_def
      upd_thread_def split: option.splits if_splits)

lemma step_unexited: "unexited (snd (task_step c s)) \<subseteq> unexited s"
  by (cases c)
    (auto simp: unexited_def job_kill_def job_terminate_def job_remove_child_def job_remove_process_def process_exit_def
      process_terminate_def process_critical_def process_remove_thread_def upd_job_def upd_proc_def
      upd_thread_def split: option.splits if_splits)

lemma terminate_if_done_weight: "stack_weight n (terminate_if_done j jb) \<le> 2 * j + 1"
  by (simp add: stack_weight_def terminate_if_done_def)

lemma step_lighter:
  assumes "tree_ok s"
  shows "unkilled (snd (task_step c s)) \<subset> unkilled s
         \<or> unexited (snd (task_step c s)) \<subset> unexited s
         \<or> stack_weight (next_job s) (fst (task_step c s)) < call_weight (next_job s) c"
proof (cases c)
  case (JobKill j)
  then show ?thesis
    by (auto simp: job_kill_def stack_weight_def unkilled_def upd_job_def split: option.splits)
next
  case (JobTerminate j)
  then show ?thesis
    using assms by (fastforce simp: job_terminate_def stack_weight_def tree_ok_def split: option.splits)
next
  case (JobRemoveChild j k)
  then show ?thesis
    using terminate_if_done_weight by (auto simp: job_remove_child_def stack_weight_def le_imp_less_Suc split: option.splits)
next
  case (JobRemoveProcess j p)
  then show ?thesis
    using terminate_if_done_weight by (auto simp: job_remove_process_def stack_weight_def le_imp_less_Suc split: option.splits)
next
  case (ProcExit p r)
  then show ?thesis
    by (auto simp: process_exit_def stack_weight_def unexited_def upd_proc_def split: option.splits)
next
  case (ProcTerminate p)
  then show ?thesis
    using assms by (fastforce simp: process_terminate_def stack_weight_def tree_ok_def split: option.splits)
qed (auto simp: process_critical_def process_remove_thread_def stack_weight_def split: option.splits)

lemma run_calls_returns: "tree_ok s \<Longrightarrow> \<exists>s'. run_calls cs s = Some s'"
proof (induction "(card (unkilled s), card (unexited s), stack_weight (next_job s) cs)" arbitrary: cs s
    rule: wf_induct_rule [OF wf_lex_prod [OF wf_less_than wf_lex_prod [OF wf_less_than wf_less_than]]])
  case (1 cs s)
  show ?case
  proof (cases cs)
    case (Cons c cs')
    let ?s = "snd (task_step c s)" and ?new = "fst (task_step c s)"
    have ok: "tree_ok ?s" by (rule tree_ok_step [OF \<open>tree_ok s\<close>])
    have fin: "finite (unkilled s)" "finite (unexited s)" using tree_ok_finite [OF \<open>tree_ok s\<close>] by auto
    have le: "card (unkilled ?s) \<le> card (unkilled s)" "card (unexited ?s) \<le> card (unexited s)"
      by (rule card_mono [OF fin(1) step_unkilled], rule card_mono [OF fin(2) step_unexited])
    have "card (unkilled ?s) < card (unkilled s) \<or> card (unexited ?s) < card (unexited s)
        \<or> stack_weight (next_job ?s) (?new @ cs') < stack_weight (next_job s) cs"
      using step_lighter [OF \<open>tree_ok s\<close>, of c]
    proof (elim disjE)
      assume "stack_weight (next_job s) ?new < call_weight (next_job s) c"
      then show ?thesis by (simp add: Cons stack_weight_def)
    qed (use psubset_card_mono [OF fin(1)] psubset_card_mono [OF fin(2)] in blast)+
    then have "\<exists>s'. run_calls (?new @ cs') ?s = Some s'"
      using le by (intro "1.hyps" ok) auto
    with Cons show ?thesis by simp
  qed simp
qed

end
