(* ===== verification/Task_Kill.thy ===== *)
theory Task_Kill
  imports Task_Tree
begin

text \<open>
  What killing does to the task tree: the invariant of the tree holds in every reachable state, every
  kill returns, reaches all descendants, and the killed job terminates when the last thread below it
  has gone.
\<close>

section \<open>Operations from outside keep the invariant\<close>

lemma tree_inv_ok:
  assumes "tree_inv cs s"
  shows "tree_ok s"
  unfolding tree_ok_def
proof (intro conjI allI impI)
  fix p pr assume "procs s p = Some pr"
  with assms show "p < next_proc s" "p_job pr < next_job s"
    by (auto dest!: tree_inv_procD simp: proc_good_def intro: tree_inv_jobD [OF assms, THEN conjunct1])
qed (use assms in \<open>auto dest!: tree_inv_jobD simp: job_good_def\<close>)

lemma tree_inv_fresh:
  assumes "tree_inv cs s"
  shows "jobs s (next_job s) = None" "procs s (next_proc s) = None"
  using tree_inv_jobD [OF assms] tree_inv_procD [OF assms] by (meson less_irrefl not_Some_eq)+

lemma call_pushed:
  "tree_inv [] s \<Longrightarrow> call_good (jobs s) (procs s) c \<Longrightarrow> tree_inv [c] s"
  by (erule tree_inv_push) simp_all

lemma job_kobject_fresh: "\<not> job_terminated (job_new p q k)" "\<not> proc_terminated (process_new n j jb k)"
  by (simp_all add: job_terminated_def proc_terminated_def job_new_def process_new_def kobject_new_def
      kobject_with_name_def SIG_JOB_TERMINATED_def SIG_PROCESS_TERMINATED_def flag_simps)

lemma job_good_parent:
  "job_good cs js k jk \<Longrightarrow> job_parent jk = Some q \<Longrightarrow> q < k \<and> (\<exists>jq. js q = Some jq \<and> parent_good cs k jk q jq)"
  by (simp add: job_good_def)

lemma parent_good_cong:
  "job_killed jk = job_killed jo \<Longrightarrow> job_terminated jk = job_terminated jo \<Longrightarrow>
     parent_good cs k jk q jq = parent_good cs k jo q jq"
  by (simp add: parent_good_def)

lemma job_good_Nil:
  "job_good [] js k jk \<longleftrightarrow>
     (job_terminated jk \<longleftrightarrow> job_killed jk \<and> job_is_empty jk)
     \<and> (\<forall>q. job_parent jk = Some q \<longrightarrow> q < k \<and> (\<exists>jq. js q = Some jq \<and> parent_good [] k jk q jq))"
  unfolding job_good_def by auto

lemma proc_good_Nil:
  "proc_good [] js q pr \<longleftrightarrow>
     (proc_terminated pr \<longleftrightarrow> exited (p_status pr) \<and> p_threads pr = [])
     \<and> (\<exists>jb. js (p_job pr) = Some jb \<and> proc_member_good [] q pr jb)"
  unfolding proc_good_eq by auto

lemma proc_good_job:
  assumes "proc_good [] js q pr"
    and "\<And>jb. js (p_job pr) = Some jb \<Longrightarrow> proc_member_good [] q pr jb \<Longrightarrow>
           \<exists>jb'. js' (p_job pr) = Some jb' \<and> proc_member_good [] q pr jb'"
  shows "proc_good [] js' q pr"
  using assms unfolding proc_good_Nil by blast

lemma create_job_inv:
  assumes inv: "tree_inv [] s"
  shows "tree_inv [] (snd (tree_create_job p koid s))"
proof (cases "\<exists>jb. jobs s p = Some jb \<and> \<not> job_killed jb")
  case True
  then obtain jb where jb: "jobs s p = Some jb" "\<not> job_killed jb" by blast
  let ?n = "next_job s"
  let ?jb = "jb\<lparr>job_children := job_children jb @ [?n]\<rparr>"
  let ?new = "job_new (Some p) (policy_merge (job_policy_set jb) (job_parent_policy jb)) koid"
  let ?js = "(jobs s)(p := Some ?jb, ?n := Some ?new)"
  have pn: "p < ?n" using tree_inv_jobD [OF inv jb(1)] by simp
  have nt: "\<not> job_terminated ?jb"
    using not_terminated_if_unkilled [OF inv jb] by (simp add: job_terminated_def)
  have par: "\<exists>jq. ?js q = Some jq \<and> parent_good [] k jk q jq"
    if "jobs s q = Some jq" "parent_good [] k jk q jq" "k < ?n" for k jk q jq
    using that jb pn tree_inv_fresh(1) [OF inv] by (auto simp: parent_good_def)
  have "k < Suc ?n \<and> job_good [] ?js k jk" if k: "?js k = Some jk" for k jk
  proof (cases "k = ?n")
    case True
    with k have jk: "jk = ?new" by simp
    have "parent_good [] ?n ?new p ?jb"
      using jb job_kobject_fresh by (simp add: parent_good_def job_new_def)
    with True jk pn show ?thesis
      using job_kobject_fresh(1) [of "Some p"] by (simp add: job_good_Nil) (simp add: job_new_def)
  next
    case False
    then obtain jo where jo: "jobs s k = Some jo" "job_parent jk = job_parent jo" "job_killed jk = job_killed jo"
      "k = p \<longrightarrow> jk = ?jb" "k \<noteq> p \<longrightarrow> jk = jo" "job_terminated jk = job_terminated jo"
      using k jb by (cases "k = p") (auto simp: job_terminated_def)
    have g: "k < ?n" "job_good [] (jobs s) k jo" using tree_inv_jobD [OF inv jo(1)] by auto
    have "q < k \<and> (\<exists>jq. ?js q = Some jq \<and> parent_good [] k jk q jq)" if q: "job_parent jk = Some q" for q
    proof -
      obtain jq where "q < k" "jobs s q = Some jq" "parent_good [] k jk q jq"
        using job_good_parent [OF g(2), of q] q jo(2) parent_good_cong [OF jo(3,6)] by auto
      with par [of q jq k jk] g(1) show ?thesis by simp
    qed
    moreover have "job_terminated jk \<longleftrightarrow> job_killed jk \<and> job_is_empty jk"
    proof (cases "k = p")
      case True
      then have "jk = ?jb" using jo(4,5) by simp
      then show ?thesis using nt jb(2) by simp
    next
      case False
      then have "jk = jo" using jo(4,5) by simp
      then show ?thesis using g(2) by (simp add: job_good_Nil)
    qed
    ultimately show ?thesis using g(1) by (simp add: job_good_Nil)
  qed
  moreover have "q < next_proc s \<and> proc_good [] ?js q pr" if q: "procs s q = Some pr" for q pr
  proof -
    have "\<exists>jb'. ?js (p_job pr) = Some jb' \<and> proc_member_good [] q pr jb'"
      if "jobs s (p_job pr) = Some jq" "proc_member_good [] q pr jq" for jq
      using that jb tree_inv_fresh(1) [OF inv] by (auto simp: proc_member_good_def)
    with tree_inv_procD [OF inv q] show ?thesis by (blast intro: proc_good_job)
  qed
  ultimately have "tree_inv [] ((upd_job ?n ?new (upd_job p ?jb s))\<lparr>next_job := ?n + 1\<rparr>)"
    by (simp add: tree_inv_def upd_job_def)
  with jb show ?thesis by (simp add: tree_create_job_def create_child_def)
next
  case False
  with inv show ?thesis by (auto simp: tree_create_job_def create_child_def split: option.split)
qed

lemma process_new_simps [simp]:
  "p_job (process_new n j jb k) = j" "p_status (process_new n j jb k) = PInit"
  "p_threads (process_new n j jb k) = []"
  by (simp_all add: process_new_def)

lemma process_create_inv:
  assumes inv: "tree_inv [] s"
  shows "tree_inv [] (snd (process_create name j koid s))"
proof (cases "\<exists>jb. jobs s j = Some jb \<and> \<not> job_killed jb")
  case True
  then obtain jb where jb: "jobs s j = Some jb" "\<not> job_killed jb" by blast
  let ?n = "next_proc s"
  let ?jb = "jb\<lparr>job_processes := job_processes jb @ [?n]\<rparr>"
  let ?new = "process_new name j jb koid"
  let ?js = "(jobs s)(j := Some ?jb)"
  have nt: "\<not> job_terminated ?jb"
    using not_terminated_if_unkilled [OF inv jb] by (simp add: job_terminated_def)
  have "k < next_job s \<and> job_good [] ?js k jk" if k: "?js k = Some jk" for k jk
  proof -
    obtain jo where jo: "jobs s k = Some jo" "job_parent jk = job_parent jo" "job_killed jk = job_killed jo"
      "k \<noteq> j \<longrightarrow> jk = jo" "job_terminated jk = job_terminated jo" "k = j \<longrightarrow> jk = ?jb"
      using k jb by (cases "k = j") (auto simp: job_terminated_def)
    have g: "k < next_job s" "job_good [] (jobs s) k jo" using tree_inv_jobD [OF inv jo(1)] by auto
    have "q < k \<and> (\<exists>jq. ?js q = Some jq \<and> parent_good [] k jk q jq)" if q: "job_parent jk = Some q" for q
    proof -
      obtain jq where jq: "q < k" "jobs s q = Some jq" "parent_good [] k jk q jq"
        using job_good_parent [OF g(2), of q] q jo(2) parent_good_cong [OF jo(3,5)] by auto
      have "parent_good [] k jk q (jq\<lparr>job_processes := ps\<rparr>)" for ps
        using jq(3) by (simp add: parent_good_def)
      with jq jb(1) show ?thesis by (cases "q = j") auto
    qed
    moreover have "job_terminated jk \<longleftrightarrow> job_killed jk \<and> job_is_empty jk"
    proof (cases "k = j")
      case True
      then have "jk = ?jb" using jo(4,6) by simp
      then show ?thesis using nt jb(2) by simp
    next
      case False
      then have "jk = jo" using jo(4,6) by simp
      then show ?thesis using g(2) by (simp add: job_good_Nil)
    qed
    ultimately show ?thesis using g(1) by (simp add: job_good_Nil)
  qed
  moreover have "q < Suc ?n \<and> proc_good [] ?js q pr" if q: "((procs s)(?n := Some ?new)) q = Some pr" for q pr
  proof (cases "q = ?n")
    case True
    then have "pr = ?new" using q by simp
    with jb True job_kobject_fresh(2) [of name j jb koid] show ?thesis
      by (simp add: proc_good_Nil proc_member_good_def)
  next
    case False
    with q have g: "q < ?n" "proc_good [] (jobs s) q pr" using tree_inv_procD [OF inv] by auto
    have "\<exists>jb'. ?js (p_job pr) = Some jb' \<and> proc_member_good [] q pr jb'"
      if "jobs s (p_job pr) = Some jq" "proc_member_good [] q pr jq" for jq
      using that jb g(1) by (auto simp: proc_member_good_def)
    with g show ?thesis by (blast intro: proc_good_job less_SucI)
  qed
  ultimately have "tree_inv [] ((upd_proc ?n ?new (upd_job j ?jb s))\<lparr>next_proc := ?n + 1\<rparr>)"
    by (simp add: tree_inv_def upd_job_def upd_proc_def)
  with jb show ?thesis by (simp add: process_create_def job_add_process_def)
next
  case False
  with inv show ?thesis by (auto simp: process_create_def job_add_process_def split: option.split)
qed

lemma upd_proc_inv:
  assumes "tree_inv [] s" "procs s p = Some pr" "exited (p_status pr') = exited (p_status pr)"
    and "p_job pr' = p_job pr" "p_base pr' = p_base pr"
    and "exited (p_status pr) \<Longrightarrow> p_threads pr' = p_threads pr"
  shows "tree_inv [] (upd_proc p pr' s)"
  using assms(1,2)
proof (rule tree_inv_upd_proc)
  have "proc_terminated pr' = proc_terminated pr" using assms(5) by (simp add: proc_terminated_def)
  moreover have "proc_member_good [] p pr' jb = proc_member_good [] p pr jb" for jb
    using assms(3,4) calculation by (simp add: proc_member_good_def)
  ultimately show "proc_good [] (jobs s) p pr \<Longrightarrow> proc_good [] (jobs s) p pr'"
    using assms(3,4,6) by (cases "exited (p_status pr)") (auto simp: proc_good_Nil)
qed simp_all

lemma tree_inv_thread_simps [simp]:
  "tree_inv cs (s\<lparr>next_thread := n\<rparr>) = tree_inv cs s"
  "tree_inv cs (upd_thread t p th s) = tree_inv cs s"
  by (simp_all add: tree_inv_def upd_thread_def)

lemma thread_create_inv:
  assumes "tree_inv [] s"
  shows "tree_inv [] (snd (thread_create n p c k s))"
proof (cases "procs s p")
  case (Some pr)
  have "tree_inv [] (upd_proc p (pr\<lparr>p_threads := ts\<rparr>) s)" if "\<not> exited (p_status pr)" for ts
    by (rule upd_proc_inv [OF assms Some]) (use that in simp_all)
  then show ?thesis using assms Some by (simp add: thread_create_def add_thread_def)
qed (use assms in \<open>simp add: thread_create_def\<close>)

lemma process_start_inv:
  assumes "tree_inv [] s"
  shows "tree_inv [] (snd (process_start p t a f s))"
proof (cases "procs s p")
  case (Some pr)
  have "tree_inv [] (upd_proc p (pr\<lparr>p_status := PRunning, p_table := tb\<rparr>) s)" if "p_status pr = PInit" for tb
    by (rule upd_proc_inv [OF assms Some]) (use that in simp_all)
  then show ?thesis
    using assms Some by (simp add: process_start_def case_prod_unfold split: option.split)
qed (use assms in \<open>simp add: process_start_def\<close>)

lemma set_critical_inv:
  assumes "tree_inv [] s" "set_critical_at_job p j b s = Some (r, s')"
  shows "tree_inv [] s'"
proof (cases "procs s p")
  case (Some pr)
  have "tree_inv [] (upd_proc p (pr\<lparr>p_critical := Some (j, b)\<rparr>) s)"
    by (rule upd_proc_inv [OF assms(1) Some]) simp_all
  then show ?thesis using assms Some by (auto simp: set_critical_at_job_def split: if_splits)
qed (use assms in \<open>simp add: set_critical_at_job_def\<close>)

lemma apply_policies_fields:
  "apply_policies opts bs j = (r, j') \<Longrightarrow>
     job_base j' = job_base j \<and> job_killed j' = job_killed j \<and> job_parent j' = job_parent j
     \<and> job_children j' = job_children j \<and> job_processes j' = job_processes j"
  by (induction opts bs j rule: apply_policies.induct) (auto split: if_splits set_policy_options.splits)

lemma policy_exec_fields:
  "job_base (policy_exec x j) = job_base j" "job_killed (policy_exec x j) = job_killed j"
  "job_parent (policy_exec x j) = job_parent j" "job_children (policy_exec x j) = job_children j"
  "job_processes (policy_exec x j) = job_processes j"
proof -
  have "job_base (policy_exec x j) = job_base j \<and> job_killed (policy_exec x j) = job_killed j
    \<and> job_parent (policy_exec x j) = job_parent j \<and> job_children (policy_exec x j) = job_children j
    \<and> job_processes (policy_exec x j) = job_processes j"
  proof (cases x)
    case (PBasic opts bs)
    then show ?thesis
      using apply_policies_fields [of opts bs j "fst (apply_policies opts bs j)" "snd (apply_policies opts bs j)"]
      by (simp add: set_policy_basic_def)
  qed (simp add: set_policy_timer_slack_def check_timer_policy_def)
  then show "job_base (policy_exec x j) = job_base j" "job_killed (policy_exec x j) = job_killed j"
    "job_parent (policy_exec x j) = job_parent j" "job_children (policy_exec x j) = job_children j"
    "job_processes (policy_exec x j) = job_processes j" by simp_all
qed

lemma policy_inv:
  assumes "tree_inv [] s" "jobs s j = Some jb"
  shows "tree_inv [] (upd_job j (policy_exec x jb) s)"
  using assms
proof (rule tree_inv_upd_job)
  have t: "job_terminated (policy_exec x jb) = job_terminated jb"
    by (simp add: job_terminated_def policy_exec_fields)
  have g: "job_terminated jb \<longleftrightarrow> job_killed jb \<and> job_is_empty jb"
    using tree_inv_jobD [OF assms] by (simp add: job_good_Nil)
  then show "job_terminated (policy_exec x jb) \<Longrightarrow> job_killed (policy_exec x jb) \<and> job_is_empty (policy_exec x jb)"
    "job_killed (policy_exec x jb) \<and> job_is_empty (policy_exec x jb) \<Longrightarrow>
       job_terminated (policy_exec x jb) \<or> JobTerminate j \<in> set []"
    by (simp_all add: t job_is_empty_def policy_exec_fields)
  show "parent_good [] j jb p jp \<Longrightarrow> parent_good [] j (policy_exec x jb) p jp" for p jp
    by (simp add: parent_good_def t policy_exec_fields)
qed (simp_all add: policy_exec_fields parent_good_def proc_member_good_def)

lemma job_unreferencedD:
  assumes "tree_inv [] s" "job_unreferenced j s"
  shows "jobs s c = Some jc \<Longrightarrow> job_parent jc \<noteq> Some j" and "procs s p = Some pr \<Longrightarrow> p_job pr \<noteq> j"
  using assms tree_inv_jobD [OF assms(1), of c] tree_inv_procD [OF assms(1), of p]
  by (auto simp: job_unreferenced_def list_all_iff split: option.splits)

lemma job_drop_start:
  assumes inv: "tree_inv [] s" and un: "job_unreferenced j s"
  shows "tree_inv [] (s\<lparr>jobs := (jobs s)(j := None)\<rparr>)"
proof -
  note ref = job_unreferencedD [OF inv un]
  have "k < next_job s \<and> job_good [] ((jobs s)(j := None)) k jk" if "((jobs s)(j := None)) k = Some jk" for k jk
  proof -
    have k: "jobs s k = Some jk" using that by (simp split: if_splits)
    then have "k < next_job s" "job_good [] (jobs s) k jk" using tree_inv_jobD [OF inv] by auto
    with ref(1) [OF k] show ?thesis by (auto simp: job_good_Nil)
  qed
  moreover have "p < next_proc s \<and> proc_good [] ((jobs s)(j := None)) p pr" if "procs s p = Some pr" for p pr
    using tree_inv_procD [OF inv that] ref(2) [OF that] by (simp add: proc_good_Nil)
  ultimately show ?thesis by (simp add: tree_inv_def)
qed

lemma job_drop_inv:
  assumes inv: "tree_inv [] s" and un: "job_unreferenced j s" and "job_drop j s = Some s'"
  shows "tree_inv [] s'"
proof (cases "jobs s j")
  case (Some jb)
  let ?cs = "case job_parent jb of Some p \<Rightarrow> [JobRemoveChild p j] | None \<Rightarrow> []"
  have "tree_inv ?cs (s\<lparr>jobs := (jobs s)(j := None)\<rparr>)"
    using job_drop_start [OF inv un] by (rule tree_inv_push) (simp_all split: option.split)
  with Some assms(3) show ?thesis by (auto simp: job_drop_def intro: run_calls_inv)
qed (use assms in \<open>simp add: job_drop_def\<close>)

lemma task_exec_inv: "tree_inv [] s \<Longrightarrow> task_exec x s = Some s' \<Longrightarrow> tree_inv [] s'"
proof (cases x)
  case (OCritical p j b)
  moreover assume "tree_inv [] s" "task_exec x s = Some s'"
  ultimately show ?thesis using set_critical_inv by fastforce
qed (auto simp: create_job_inv process_create_inv thread_create_inv process_start_inv policy_inv job_drop_inv
    simp del: run_calls_simps
    intro: run_calls_inv [OF _ call_pushed] split: option.splits if_splits)

lemma tree_inv_init: "tree_inv [] (tree_init koid)"
  using job_kobject_fresh(1) [of None default_policy koid]
  by (simp add: tree_inv_def tree_init_def job_good_Nil job_root_def) (simp add: job_new_def)

lemma reachable_inv: "task_reachable s \<Longrightarrow> tree_inv [] s"
  by (induction rule: task_reachable.induct) (simp_all add: tree_inv_init task_exec_inv)


section \<open>What a run of calls leaves alone\<close>

lemmas task_step_defs =
  job_kill_def job_terminate_def job_remove_child_def job_remove_process_def process_exit_def
  process_terminate_def process_critical_def process_remove_thread_def upd_job_def upd_proc_def upd_thread_def

definition same_links :: "('c, 'x) tasks \<Rightarrow> ('c, 'x) tasks \<Rightarrow> bool" where
  "same_links s s' \<longleftrightarrow>
     (\<forall>j. map_option job_parent (jobs s' j) = map_option job_parent (jobs s j))
     \<and> (\<forall>p. map_option p_job (procs s' p) = map_option p_job (procs s p))"

lemma step_links: "same_links s (snd (task_step c s))"
  by (cases c) (auto simp: same_links_def task_step_defs clear_handles_def split: option.splits)

lemma run_links: "run_calls cs s = Some s' \<Longrightarrow> same_links s s'"
proof (induction cs s s' rule: run_calls_induct)
  case (Cons c cs s s')
  then show ?case using step_links [of s c] by (simp add: same_links_def)
qed (simp add: same_links_def)

lemma run_unkilled: "run_calls cs s = Some s' \<Longrightarrow> unkilled s' \<subseteq> unkilled s"
proof (induction cs s s' rule: run_calls_induct)
  case (Cons c cs s s')
  then show ?case using step_unkilled by blast
qed simp

lemma links_job:
  "same_links s s' \<Longrightarrow> jobs s j = Some jb \<Longrightarrow> \<exists>jb'. jobs s' j = Some jb' \<and> job_parent jb' = job_parent jb"
  unfolding same_links_def by (metis map_option_eq_Some option.simps(9))

lemma links_proc:
  "same_links s s' \<Longrightarrow> procs s p = Some pr \<Longrightarrow> \<exists>pr'. procs s' p = Some pr' \<and> p_job pr' = p_job pr"
  unfolding same_links_def by (metis map_option_eq_Some option.simps(9))

section \<open>Killing reaches every descendant\<close>

inductive below :: "('c, 'x) tasks \<Rightarrow> nat \<Rightarrow> nat \<Rightarrow> bool" for s :: "('c, 'x) tasks" and j :: nat where
  self: "jobs s j = Some jb \<Longrightarrow> below s j j"
| child: "below s j p \<Longrightarrow> jobs s c = Some jc \<Longrightarrow> job_parent jc = Some p \<Longrightarrow> below s j c"

lemma killed_below:
  assumes "tree_inv [] s" "jobs s j = Some jb" "job_killed jb" "below s j c"
  shows "\<exists>jc. jobs s c = Some jc \<and> job_killed jc"
  using assms(4)
proof induction
  case (child p c jc)
  then obtain jp where "jobs s p = Some jp" "job_killed jp" by blast
  moreover have "\<exists>jp. jobs s p = Some jp \<and> parent_good [] c jc p jp"
    using tree_inv_jobD [OF assms(1) child(2)] child(3) by (auto simp: job_good_Nil)
  ultimately show ?case using child(2) by (auto simp: parent_good_def)
qed (use assms in blast)

lemma exited_below:
  assumes "tree_inv [] s" "jobs s (p_job pr) = Some jb" "job_killed jb" "procs s p = Some pr"
  shows "exited (p_status pr)"
  using tree_inv_procD [OF assms(1,4)] assms(2,3) by (auto simp: proc_good_Nil proc_member_good_def)

lemma below_links: "below s j c \<Longrightarrow> same_links s s' \<Longrightarrow> below s' j c"
proof (induction rule: below.induct)
  case (self jb)
  then show ?case using links_job below.self by blast
next
  case (child p c jc)
  then show ?case using links_job [of s s' c jc] below.child by metis
qed

lemma job_kill_kills:
  assumes "run_calls [JobKill j] s = Some s'" "jobs s j = Some jb"
  shows "\<exists>jb'. jobs s' j = Some jb' \<and> job_killed jb'"
proof -
  have "j \<notin> unkilled (snd (task_step (JobKill j) s))"
    using assms(2) by (auto simp: unkilled_def job_kill_def upd_job_def)
  then have "j \<notin> unkilled s'" using assms(1) run_unkilled by fastforce
  moreover have "\<exists>jb'. jobs s' j = Some jb'" using links_job [OF run_links [OF assms(1)] assms(2)] by blast
  ultimately show ?thesis by (auto simp: unkilled_def)
qed



definition sample_tree :: "(nat, nat) tasks" where
  "sample_tree = snd (process_create ''p'' 1 1026 (snd (tree_create_job 0 1025 (tree_init 1024))))"

lemma sample_tree_reachable: "task_reachable sample_tree"
proof -
  have "task_reachable (snd (tree_create_job 0 1025 (tree_init 1024 :: (nat, nat) tasks)))"
    by (rule task_reachable.step [OF task_reachable.init, of "OCreateJob 0 1025"]) simp
  from task_reachable.step [OF this, of "OCreateProcess ''p'' 1 1026" sample_tree] show ?thesis
    by (simp add: sample_tree_def)
qed

lemmas sample_tree_eval =
  sample_tree_def process_create_def job_add_process_def tree_create_job_def create_child_def tree_init_def
  job_root_def job_new_def upd_job_def upd_proc_def

lemma sample_tree_facts:
  "\<exists>jb. jobs sample_tree 0 = Some jb"
  "\<exists>jb. jobs sample_tree 1 = Some jb \<and> job_parent jb = Some 0"
  "\<exists>pr. procs sample_tree 0 = Some pr \<and> p_job pr = 1"
  by (simp_all add: sample_tree_eval)


section \<open>Members of a job\<close>

text \<open>What is listed under a job exists and belongs to it.\<close>

definition members_ok :: "nat set \<Rightarrow> ('c, 'x) tasks \<Rightarrow> bool" where
  "members_ok gone s \<longleftrightarrow>
     (\<forall>j jb. jobs s j = Some jb \<longrightarrow>
        (\<forall>c \<in> set (job_children jb). c \<in> gone \<or> (\<exists>jc. jobs s c = Some jc \<and> job_parent jc = Some j))
        \<and> (\<forall>p \<in> set (job_processes jb). \<exists>pr. procs s p = Some pr \<and> p_job pr = j))"

definition fewer_members :: "('c, 'x) tasks \<Rightarrow> ('c, 'x) tasks \<Rightarrow> bool" where
  "fewer_members s s' \<longleftrightarrow>
     (\<forall>j jb'. jobs s' j = Some jb' \<longrightarrow>
        (\<exists>jb. jobs s j = Some jb \<and> set (job_children jb') \<subseteq> set (job_children jb)
              \<and> set (job_processes jb') \<subseteq> set (job_processes jb)))"

lemma step_fewer: "fewer_members s (snd (task_step c s))"
  by (cases c) (auto simp: fewer_members_def task_step_defs split: option.splits)

lemma members_ok_fewer:
  assumes "members_ok gone s" "fewer_members s s'" "same_links s s'"
  shows "members_ok gone s'"
  unfolding members_ok_def
proof (intro allI impI conjI ballI)
  fix j jb' assume "jobs s' j = Some jb'"
  then obtain jb where jb: "jobs s j = Some jb" "set (job_children jb') \<subseteq> set (job_children jb)"
    "set (job_processes jb') \<subseteq> set (job_processes jb)"
    using assms(2) unfolding fewer_members_def by blast
  show "c \<in> gone \<or> (\<exists>jc. jobs s' c = Some jc \<and> job_parent jc = Some j)" if "c \<in> set (job_children jb')" for c
  proof -
    have "c \<in> gone \<or> (\<exists>jc. jobs s c = Some jc \<and> job_parent jc = Some j)"
      using assms(1) jb that unfolding members_ok_def by blast
    then show ?thesis using links_job [OF assms(3), of c] by metis
  qed
  show "\<exists>pr. procs s' p = Some pr \<and> p_job pr = j" if "p \<in> set (job_processes jb')" for p
  proof -
    have "\<exists>pr. procs s p = Some pr \<and> p_job pr = j"
      using assms(1) jb that unfolding members_ok_def by blast
    then show ?thesis using links_proc [OF assms(3), of p] by metis
  qed
qed

lemma run_members: "run_calls cs s = Some s' \<Longrightarrow> members_ok gone s \<Longrightarrow> members_ok gone s'"
  by (induction cs s s' rule: run_calls_induct) (auto intro: members_ok_fewer step_fewer step_links)

text \<open>Operations that replace one object by one with the same links and members.\<close>

lemma members_upd_job:
  "members_ok {} s \<Longrightarrow> jobs s j = Some jb \<Longrightarrow> job_parent jb' = job_parent jb \<Longrightarrow>
     job_children jb' = job_children jb \<Longrightarrow> job_processes jb' = job_processes jb \<Longrightarrow> members_ok {} (upd_job j jb' s)"
  by (rule members_ok_fewer) (auto simp: fewer_members_def same_links_def upd_job_def)

lemma members_upd_proc:
  "members_ok {} s \<Longrightarrow> procs s p = Some pr \<Longrightarrow> p_job pr' = p_job pr \<Longrightarrow> members_ok {} (upd_proc p pr' s)"
  by (rule members_ok_fewer) (auto simp: fewer_members_def same_links_def upd_proc_def)

lemma members_thread_simps [simp]:
  "members_ok g (s\<lparr>next_thread := n\<rparr>) = members_ok g s" "members_ok g (upd_thread t p th s) = members_ok g s"
  by (simp_all add: members_ok_def upd_thread_def)

lemma members_create_job:
  assumes "members_ok {} s" "tree_inv [] s"
  shows "members_ok {} (snd (tree_create_job p k s))"
  using assms(1) tree_inv_fresh(1) [OF assms(2)]
  by (auto simp: tree_create_job_def create_child_def job_new_def members_ok_def upd_job_def split: option.splits)
    fastforce+

lemma members_create_process:
  assumes "members_ok {} s" "tree_inv [] s"
  shows "members_ok {} (snd (process_create n j k s))"
  using assms(1) tree_inv_fresh(2) [OF assms(2)]
  by (auto simp: process_create_def job_add_process_def members_ok_def upd_job_def upd_proc_def split: option.splits)
    fastforce+


lemma members_drop_start:
  assumes "members_ok {} s" "tree_inv [] s" "job_unreferenced j s"
  shows "members_ok {j} (s\<lparr>jobs := (jobs s)(j := None)\<rparr>)"
  using assms(1) by (auto simp: members_ok_def split: if_splits)

lemma members_ok_unlisted:
  "members_ok {j} s \<Longrightarrow> (\<And>k jk. jobs s k = Some jk \<Longrightarrow> j \<notin> set (job_children jk)) \<Longrightarrow> members_ok {} s"
  by (fastforce simp: members_ok_def)

lemma members_drop_step:
  assumes "members_ok {j} s" and "\<And>k jk. jobs s k = Some jk \<Longrightarrow> k \<noteq> p \<Longrightarrow> j \<notin> set (job_children jk)"
  shows "members_ok {} (snd (task_step (JobRemoveChild p j) s))"
proof (rule members_ok_unlisted)
  show "members_ok {j} (snd (task_step (JobRemoveChild p j) s))"
    by (rule members_ok_fewer [OF assms(1) step_fewer step_links])
  show "j \<notin> set (job_children jk)" if "jobs (snd (task_step (JobRemoveChild p j) s)) k = Some jk" for k jk
    using that assms(2) by (cases "k = p") (auto simp: job_remove_child_def upd_job_def split: option.splits)
qed

lemma members_drop:
  assumes m: "members_ok {} s" and inv: "tree_inv [] s" and un: "job_unreferenced j s" and d: "job_drop j s = Some s'"
  shows "members_ok {} s'"
proof (cases "jobs s j")
  case (Some jb)
  let ?s = "s\<lparr>jobs := (jobs s)(j := None)\<rparr>"
  have m': "members_ok {j} ?s" by (rule members_drop_start [OF m inv un])
  have only: "job_parent jb = Some k" if "jobs ?s k = Some jk" "j \<in> set (job_children jk)" for k jk
    using m that Some by (fastforce simp: members_ok_def split: if_splits)
  show ?thesis
  proof (cases "job_parent jb")
    case None
    then have "members_ok {} ?s" using only by (intro members_ok_unlisted [OF m']) auto
    with None Some d show ?thesis by (simp add: job_drop_def)
  next
    case (Some p)
    have "members_ok {} (snd (task_step (JobRemoveChild p j) ?s))"
      by (rule members_drop_step [OF m']) (use only Some in auto)
    moreover have "run_calls (fst (task_step (JobRemoveChild p j) ?s)) (snd (task_step (JobRemoveChild p j) ?s)) = Some s'"
      using d Some \<open>jobs s j = Some jb\<close> by (simp add: job_drop_def)
    ultimately show ?thesis using run_members by blast
  qed
qed (use m d in \<open>simp add: job_drop_def\<close>)

lemma members_exec:
  assumes "members_ok {} s" "tree_inv [] s" "task_exec x s = Some s'"
  shows "members_ok {} s'"
proof (cases x)
  case (OCreateThread n p c k)
  then show ?thesis
    using assms by (auto simp: thread_create_def add_thread_def members_upd_proc split: option.splits if_splits)
next
  case (OStart p t a f)
  then show ?thesis
    using assms by (auto simp: process_start_def case_prod_unfold members_upd_proc split: option.splits if_splits)
next
  case (OCritical p j b)
  then show ?thesis
    using assms by (auto simp: set_critical_at_job_def members_upd_proc split: option.splits if_splits)
next
  case (OPolicy j y)
  then show ?thesis
    using assms members_upd_job [of s j _ "policy_exec y _"] policy_exec_fields by (auto split: option.splits)
next
  case (ODropJob j)
  then show ?thesis using assms members_drop by (auto split: if_splits)
qed (use assms members_create_job members_create_process run_members in \<open>auto simp del: run_calls_simps\<close>)

lemma reachable_members: "task_reachable s \<Longrightarrow> members_ok {} s"
proof (induction rule: task_reachable.induct)
  case (init koid)
  then show ?case by (simp add: members_ok_def tree_init_def job_root_def job_new_def)
next
  case (step s x s')
  then show ?case using members_exec reachable_inv by blast
qed

section \<open>A killed job terminates when its last thread has gone\<close>

lemma thread_free_process_unlisted:
  assumes "tree_inv [] s" "members_ok {} s" "jobs s j = Some jb" "job_killed jb"
    and free: "\<And>p pr. procs s p = Some pr \<Longrightarrow> p_job pr = j \<Longrightarrow> p_threads pr = []"
  shows "job_processes jb = []"
proof (rule ccontr)
  assume "job_processes jb \<noteq> []"
  then obtain p where p: "p \<in> set (job_processes jb)" by (cases "job_processes jb") auto
  then obtain pr where pr: "procs s p = Some pr" "p_job pr = j"
    using assms(2,3) unfolding members_ok_def by blast
  have g: "proc_good [] (jobs s) p pr" using tree_inv_procD [OF assms(1) pr(1)] by simp
  have "exited (p_status pr)" using exited_below [OF assms(1) _ assms(4) pr(1)] assms(3) pr(2) by simp
  then have "proc_terminated pr" using g free [OF pr] by (simp add: proc_good_Nil)
  with g p pr(2) assms(3) show False by (auto simp: proc_good_Nil proc_member_good_def)
qed

lemma subtree_terminates:
  assumes "tree_inv [] s" "members_ok {} s" "jobs s j = Some jb" "job_killed jb"
    and free: "\<And>p pr. procs s p = Some pr \<Longrightarrow> below s j (p_job pr) \<Longrightarrow> p_threads pr = []"
  shows "below s j c \<Longrightarrow> jobs s c = Some jc \<Longrightarrow> job_terminated jc"
proof (induction "next_job s - c" arbitrary: c jc rule: less_induct)
  case less
  have killed: "job_killed jc" using killed_below [OF assms(1,3,4) less.prems(1)] less.prems(2) by simp
  have procs: "job_processes jc = []"
    using thread_free_process_unlisted [OF assms(1,2) less.prems(2) killed] free less.prems(1) by blast
  have "d \<notin> set (job_children jc)" for d
  proof
    assume d: "d \<in> set (job_children jc)"
    then obtain jd where jd: "jobs s d = Some jd" "job_parent jd = Some c"
      using assms(2) less.prems(2) unfolding members_ok_def by blast
    have lt: "d < next_job s" "c < d" and pg: "\<exists>jp. jobs s c = Some jp \<and> parent_good [] d jd c jp"
      using tree_inv_jobD [OF assms(1) jd(1)] jd(2) by (auto simp: job_good_Nil)
    have "job_terminated jd"
      by (rule less.hyps [OF _ below.child [OF less.prems(1) jd] jd(1)]) (use lt in auto)
    with pg d less.prems(2) show False by (auto simp: parent_good_def)
  qed
  then have "job_is_empty jc" using procs by (cases "job_children jc") (auto simp: job_is_empty_def)
  with killed show ?case using tree_inv_jobD [OF assms(1) less.prems(2)] by (simp add: job_good_Nil)
qed

text \<open>
  C13. Termination is reported: in every reachable state, once a job has been killed and no process of
  the job or of a job below it has a thread left, \<open>JOB_TERMINATED\<close> is set on the job, on every job
  below it, and \<open>PROCESS_TERMINATED\<close> on all their processes. So whoever waits for the end of a killed
  job is woken when the last thread has gone.
\<close>

theorem killed_job_terminates:
  assumes "task_reachable s" and "jobs s j = Some jb" and "job_killed jb"
    and "\<forall>p pr. procs s p = Some pr \<and> below s j (p_job pr) \<longrightarrow> p_threads pr = []"
  shows "(\<forall>c jc. below s j c \<and> jobs s c = Some jc \<longrightarrow> contains (kobj_signal (job_base jc)) SIG_JOB_TERMINATED)
     \<and> (\<forall>p pr. procs s p = Some pr \<and> below s j (p_job pr) \<longrightarrow>
           contains (kobj_signal (p_base pr)) SIG_PROCESS_TERMINATED)"
proof -
  have inv: "tree_inv [] s" and m: "members_ok {} s"
    using reachable_inv [OF assms(1)] reachable_members [OF assms(1)] .
  have jobs: "job_terminated jc" if "below s j c" "jobs s c = Some jc" for c jc
    by (rule subtree_terminates [OF inv m assms(2,3) _ that]) (use assms(4) in blast)
  have "proc_terminated pr" if p: "procs s p = Some pr" "below s j (p_job pr)" for p pr
  proof -
    obtain jc where "jobs s (p_job pr) = Some jc" "job_killed jc"
      using killed_below [OF inv assms(2,3) p(2)] by blast
    then have "exited (p_status pr)" using exited_below [OF inv _ _ p(1)] by blast
    then show ?thesis using tree_inv_procD [OF inv p(1)] assms(4) p by (simp add: proc_good_Nil)
  qed
  with jobs show ?thesis unfolding job_terminated_def proc_terminated_def by blast
qed


definition killed_tree :: "(nat, nat) tasks" where
  "killed_tree = the (task_exec (OKillJob 0) sample_tree)"

lemma killed_tree_exec: "task_exec (OKillJob 0) sample_tree = Some killed_tree"
  using job_kill_kills run_calls_returns [OF tree_inv_ok [OF reachable_inv [OF sample_tree_reachable]], of "[JobKill 0]"]
  by (auto simp: killed_tree_def simp del: run_calls_simps)

lemma killed_tree_reachable: "task_reachable killed_tree"
  by (rule task_reachable.step [OF sample_tree_reachable killed_tree_exec])

lemma run_threads:
  "run_calls cs s = Some s' \<Longrightarrow> procs s' p = Some pr' \<Longrightarrow>
     \<exists>pr. procs s p = Some pr \<and> set (p_threads pr') \<subseteq> set (p_threads pr)"
proof (induction cs s s' arbitrary: pr' rule: run_calls_induct)
  case (Cons c cs s s')
  obtain pr1 where 1: "procs (snd (task_step c s)) p = Some pr1" "set (p_threads pr') \<subseteq> set (p_threads pr1)"
    using Cons.IH [OF Cons.prems] by blast
  have "\<exists>pr. procs s p = Some pr \<and> set (p_threads pr1) \<subseteq> set (p_threads pr)"
    using 1(1) by (cases c) (auto simp: task_step_defs split: option.splits if_splits)
  with 1(2) show ?case by blast
qed auto

lemma killed_tree_no_threads: "procs killed_tree p = Some pr \<Longrightarrow> p_threads pr = []"
proof -
  assume "procs killed_tree p = Some pr"
  with killed_tree_exec obtain pr0 where "procs sample_tree p = Some pr0" "set (p_threads pr) \<subseteq> set (p_threads pr0)"
    using run_threads [of "[JobKill 0]" sample_tree killed_tree p pr] by (auto simp del: run_calls_simps)
  then show ?thesis by (auto simp: sample_tree_eval split: if_splits)
qed

theorem killed_job_terminates_witness:
  "\<exists>jb. jobs killed_tree 0 = Some jb \<and> contains (kobj_signal (job_base jb)) SIG_JOB_TERMINATED"
proof -
  obtain jb where jb: "jobs killed_tree 0 = Some jb" "job_killed jb"
    using job_kill_kills [of 0 sample_tree killed_tree] killed_tree_exec sample_tree_facts(1)
    by (auto simp del: run_calls_simps)
  with killed_job_terminates [OF killed_tree_reachable jb] killed_tree_no_threads below.self [OF jb(1)]
  show ?thesis by blast
qed

section \<open>Termination signals\<close>

text \<open>
  C14. In every reachable state the termination signals are exact: a job has \<open>JOB_TERMINATED\<close> exactly
  when it was killed and has neither processes nor child jobs left, a process has
  \<open>PROCESS_TERMINATED\<close> exactly when it has exited and has no threads left; a terminated process or job is no
  longer listed in its parent job, and a live one is.
\<close>

theorem termination_signals_exact:
  assumes "task_reachable s"
  shows "(\<forall>j jb. jobs s j = Some jb \<longrightarrow>
            (contains (kobj_signal (job_base jb)) SIG_JOB_TERMINATED \<longleftrightarrow> job_killed jb \<and> job_is_empty jb)
            \<and> (\<forall>p jp. job_parent jb = Some p \<and> jobs s p = Some jp \<longrightarrow>
                 (contains (kobj_signal (job_base jb)) SIG_JOB_TERMINATED \<longrightarrow> j \<notin> set (job_children jp))
                 \<and> (\<not> job_killed jb \<longrightarrow> j \<in> set (job_children jp))))
       \<and> (\<forall>p pr. procs s p = Some pr \<longrightarrow>
            (contains (kobj_signal (p_base pr)) SIG_PROCESS_TERMINATED \<longleftrightarrow> exited (p_status pr) \<and> p_threads pr = [])
            \<and> (\<forall>jb. jobs s (p_job pr) = Some jb \<longrightarrow>
                 (contains (kobj_signal (p_base pr)) SIG_PROCESS_TERMINATED \<longrightarrow> p \<notin> set (job_processes jb))
                 \<and> (\<not> exited (p_status pr) \<longrightarrow> p \<in> set (job_processes jb))))"
proof -
  have inv: "tree_inv [] s" by (rule reachable_inv [OF assms])
  show ?thesis
    unfolding job_terminated_def [symmetric] proc_terminated_def [symmetric]
    using tree_inv_jobD [OF inv] tree_inv_procD [OF inv]
    by (fastforce simp: job_good_Nil proc_good_Nil parent_good_def proc_member_good_def)
qed

theorem termination_signals_exact_witness:
  "\<exists>pr. procs sample_tree 0 = Some pr \<and> \<not> contains (kobj_signal (p_base pr)) SIG_PROCESS_TERMINATED"
proof -
  have "\<exists>pr. procs sample_tree 0 = Some pr \<and> p_status pr = PInit"
    by (simp add: sample_tree_eval)
  then show ?thesis
    using termination_signals_exact [OF sample_tree_reachable] by (metis exited.simps(2))
qed

section \<open>The last thread of a process\<close>

lemma table_kept:
  "run_calls cs s = Some s' \<Longrightarrow> procs s p = Some pr \<Longrightarrow> exited (p_status pr) \<Longrightarrow> ProcClearHandles p \<notin> set cs \<Longrightarrow>
     \<exists>pr'. procs s' p = Some pr' \<and> p_table pr' = p_table pr"
proof (induction cs s s' arbitrary: pr rule: run_calls_induct)
  case (Cons c cs s s')
  let ?s = "snd (task_step c s)"
  have "\<exists>pr1. procs ?s p = Some pr1 \<and> p_table pr1 = p_table pr \<and> exited (p_status pr1)"
    using Cons.prems by (cases c) (auto simp: task_step_defs split: option.splits if_splits)
  then obtain pr1 where 1: "procs ?s p = Some pr1" "p_table pr1 = p_table pr" "exited (p_status pr1)" by blast
  have "ProcClearHandles p \<notin> set (fst (task_step c s))"
    using Cons.prems by (cases c) (auto simp: task_step_defs terminate_if_done_def split: option.splits if_splits)
  with Cons.IH [OF 1(1,3)] Cons.prems(3) 1(2) show ?case by auto
qed auto

text \<open>
  A process that ends because its last thread ends keeps its handles: it is terminated and has
  exited, but its handle table is the same as before, whereas \<^verbatim>\<open>exit\<close> empties it. What the handles
  refer to stays open.
\<close>

theorem last_thread_leaves_handles:
  assumes "task_reachable s" and "procs s p = Some pr" and "threads s t = Some (p, th)"
    and "p_threads pr = [t]"
  shows "\<exists>s' pr'. task_exec (OThreadEnds t) s = Some s' \<and> procs s' p = Some pr'
     \<and> exited (p_status pr') \<and> p_table pr' = p_table pr"
proof -
  have inv: "tree_inv [] s" by (rule reachable_inv [OF assms(1)])
  obtain s' where s': "run_calls [ThreadTerminate t] s = Some s'"
    using run_calls_returns [OF tree_inv_ok [OF inv]] by blast
  define s0 where "s0 = snd (task_step (ThreadTerminate t) s)"
  define s1 where "s1 = snd (task_step (ProcRemoveThread p t) s0)"
  let ?s2 = "snd (task_step (ProcTerminate p) s1)"
  have e0: "fst (task_step (ThreadTerminate t) s) = [ProcRemoveThread p t]" "procs s0 = procs s"
    using assms(3) by (simp_all add: s0_def upd_thread_def)
  have e1: "fst (task_step (ProcRemoveThread p t) s0) = [ProcTerminate p]"
    "procs s1 p = Some (pr\<lparr>p_threads := []\<rparr>)"
    using assms(2,4) by (simp_all add: s1_def e0(2) process_remove_thread_def upd_proc_def)
  have e2: "fst (task_step (ProcTerminate p) s1) = [JobRemoveProcess (p_job pr) p, ProcCritical p]"
    by (simp add: e1(2) process_terminate_def)
  have r: "run_calls [JobRemoveProcess (p_job pr) p, ProcCritical p] ?s2 = Some s'"
    using s' by (simp only: run_calls_simps(2) [of "ThreadTerminate t"] run_calls_simps(2) [of "ProcRemoveThread p t"]
        run_calls_simps(2) [of "ProcTerminate p"] e0(1) e1(1) e2 append.simps s0_def [symmetric] s1_def [symmetric])
  have "\<exists>pr2. procs ?s2 p = Some pr2 \<and> p_table pr2 = p_table pr \<and> exited (p_status pr2)"
    by (simp add: e1(2) process_terminate_def upd_proc_def)
  then obtain pr2 where 2: "procs ?s2 p = Some pr2" "p_table pr2 = p_table pr" "exited (p_status pr2)" by blast
  from table_kept [OF r 2(1,3)] obtain pr' where pr': "procs s' p = Some pr'" "p_table pr' = p_table pr"
    using 2(2) by auto
  moreover have "exited (p_status pr')"
  proof -
    have "unexited s' \<subseteq> unexited ?s2"
      using r
    proof (induction rule: run_calls_induct)
      case (Cons c cs s s')
      then show ?case using step_unexited by blast
    qed simp
    then have "p \<notin> unexited s'" using 2 by (auto simp: unexited_def)
    then show ?thesis using pr'(1) by (auto simp: unexited_def)
  qed
  ultimately show ?thesis using s' by (auto simp del: run_calls_simps)
qed


definition threaded_tree :: "(nat, nat) tasks" where
  "threaded_tree =
     snd (process_start 0 0 (Some \<lparr>h_object = \<lparr>obj_koid = 7, obj_type_name = ''Channel'', obj_related = 8\<rparr>,
                                   h_rights = RIGHT_DEFAULT_CHANNEL\<rparr>) (\<lambda>h c. c)
            (snd (thread_create ''t'' 0 5 1027 sample_tree)))"

lemma threaded_tree_reachable: "task_reachable threaded_tree"
proof -
  have "task_reachable (snd (thread_create ''t'' 0 5 1027 sample_tree))"
    by (rule task_reachable.step [OF sample_tree_reachable, of "OCreateThread ''t'' 0 5 1027"]) simp
  from task_reachable.step [OF this, of "OStart 0 0 _ _" threaded_tree] show ?thesis
    by (simp add: threaded_tree_def)
qed

lemma threaded_tree_facts:
  "\<exists>pr th. procs threaded_tree 0 = Some pr \<and> threads threaded_tree 0 = Some (0, th) \<and> p_threads pr = [0]
     \<and> handles (p_table pr) 3 \<noteq> None"
  by (simp add: threaded_tree_def sample_tree_eval thread_create_def add_thread_def process_start_def process_new_def
      upd_thread_def start_with_entry_def with_context_def set_first_thread_def thread_new_def case_prod_unfold
      add_handle_def handle_key_def empty_table_def INVALID_HANDLE_def)

theorem last_thread_leaves_handles_witness:
  "\<exists>s' pr'. task_exec (OThreadEnds 0) threaded_tree = Some s' \<and> procs s' 0 = Some pr'
     \<and> exited (p_status pr') \<and> handles (p_table pr') 3 \<noteq> None"
proof -
  obtain pr th where f: "procs threaded_tree 0 = Some pr" "threads threaded_tree 0 = Some (0, th)" "p_threads pr = [0]"
    "handles (p_table pr) 3 \<noteq> None"
    using threaded_tree_facts by blast
  with last_thread_leaves_handles [OF threaded_tree_reachable f(1-3)] show ?thesis by auto
qed

end
