(* ===== verification/Pages.thy ===== *)
theory Pages
  imports Zx_Error
begin

text \<open>
  Page arithmetic (\<^verbatim>\<open>zircon-object/src/vm/mod.rs\<close>), the iteration over blocks
  (\<^verbatim>\<open>zircon-object/src/util/block_range.rs\<close>), and the memory flags of the hardware abstraction layer
  (\<^verbatim>\<open>kernel-hal/src/common/defs.rs\<close>) with its paging errors. Pages are of 4 KiB, as on every target but one. Arithmetic on
  \<^verbatim>\<open>usize\<close> wraps, as in the release profile of the repository.
\<close>

section \<open>Rounding\<close>

definition PAGE_SIZE :: usize where "PAGE_SIZE = 0x1000"

definition check_aligned :: "usize \<Rightarrow> usize \<Rightarrow> bool" where
  "check_aligned x align \<longleftrightarrow> (if align = 0 then x = 0 else x mod align = 0)"

definition page_aligned :: "usize \<Rightarrow> bool" where
  "page_aligned x = check_aligned x PAGE_SIZE"

definition usize_ceil :: "usize \<Rightarrow> usize \<Rightarrow> usize" where
  "usize_ceil x align = (x + (align - 1)) div align"

definition pages :: "usize \<Rightarrow> usize" where
  "pages sz = usize_ceil sz PAGE_SIZE"

definition roundup_pages :: "usize \<Rightarrow> usize" where
  "roundup_pages sz = pages sz * PAGE_SIZE"

definition round_down_pages :: "usize \<Rightarrow> usize" where
  "round_down_pages sz = sz div PAGE_SIZE * PAGE_SIZE"

section \<open>Memory flags\<close>

type_synonym mmu_flags = usize

definition MMU_CACHE_1 :: mmu_flags where "MMU_CACHE_1 = 1"
definition MMU_CACHE_2 :: mmu_flags where "MMU_CACHE_2 = 2"
definition MMU_READ :: mmu_flags where "MMU_READ = 4"
definition MMU_WRITE :: mmu_flags where "MMU_WRITE = 8"
definition MMU_EXECUTE :: mmu_flags where "MMU_EXECUTE = 16"
definition MMU_USER :: mmu_flags where "MMU_USER = 32"
definition MMU_HUGE_PAGE :: mmu_flags where "MMU_HUGE_PAGE = 64"
definition MMU_DEVICE :: mmu_flags where "MMU_DEVICE = 128"
definition MMU_RXW :: mmu_flags where "MMU_RXW = MMU_READ OR MMU_WRITE OR MMU_EXECUTE"

lemmas mmu_flag_defs =
  MMU_CACHE_1_def MMU_CACHE_2_def MMU_READ_def MMU_WRITE_def MMU_EXECUTE_def MMU_USER_def
  MMU_HUGE_PAGE_def MMU_DEVICE_def MMU_RXW_def

section \<open>Paging errors\<close>

datatype paging_error = NoMemory | NotMapped | AlreadyMapped

type_synonym 'a paging_result = "(paging_error, 'a) result"

section \<open>Iterating over blocks\<close>

text \<open>The range \<open>[blk_begin, blk_end)\<close> is cut at the multiples of the block size.\<close>

record block_iter =
  iter_begin :: nat
  iter_end :: nat
  iter_log2 :: nat

record block_range =
  blk_block :: nat
  blk_begin :: nat
  blk_end :: nat
  blk_log2 :: nat

definition block_len :: "block_range \<Rightarrow> nat" where
  "block_len r = blk_end r - blk_begin r"

definition origin_begin :: "block_range \<Rightarrow> nat" where
  "origin_begin r = push_bit (blk_log2 r) (blk_block r) + blk_begin r"

definition origin_end :: "block_range \<Rightarrow> nat" where
  "origin_end r = push_bit (blk_log2 r) (blk_block r) + blk_end r"

definition block_next :: "block_iter \<Rightarrow> (block_range \<times> block_iter) option" where
  "block_next it =
     (if iter_begin it \<ge> iter_end it then None
      else
        (let bs = 2 ^ iter_log2 it;
             block = iter_begin it div bs;
             b = iter_begin it mod bs;
             e = (if block = iter_end it div bs then iter_end it mod bs else bs)
         in Some (\<lparr>blk_block = block, blk_begin = b, blk_end = e, blk_log2 = iter_log2 it\<rparr>,
                  it\<lparr>iter_begin := iter_begin it + (e - b)\<rparr>)))"

lemma block_next_progress:
  assumes "block_next it = Some (r, it')"
  shows "iter_begin it < iter_begin it' \<and> iter_begin it' \<le> iter_end it \<and> iter_end it' = iter_end it
         \<and> iter_log2 it' = iter_log2 it \<and> origin_begin r = iter_begin it \<and> origin_end r = iter_begin it'
         \<and> blk_log2 r = iter_log2 it \<and> blk_begin r < blk_end r \<and> blk_end r \<le> 2 ^ iter_log2 it"
proof -
  define bs where "bs = (2 :: nat) ^ iter_log2 it"
  define b where "b = iter_begin it"
  define e where "e = iter_end it"
  define f where "f = (if b div bs = e div bs then e mod bs else bs)"
  have bs: "0 < bs" by (simp add: bs_def)
  have be: "b < e" and r: "r = \<lparr>blk_block = b div bs, blk_begin = b mod bs, blk_end = f, blk_log2 = iter_log2 it\<rparr>"
    and it': "it' = it\<lparr>iter_begin := b + (f - b mod bs)\<rparr>"
    using assms by (auto simp: block_next_def Let_def bs_def b_def e_def f_def split: if_splits)
  have decomp: "b = b div bs * bs + b mod bs" "e = e div bs * bs + e mod bs" by simp_all
  have f: "b mod bs < f" "f \<le> bs" "b div bs * bs + f \<le> e"
  proof -
    show "b mod bs < f"
    proof (cases "b div bs = e div bs")
      case True
      then have "b mod bs < e mod bs" using be decomp by (metis add_less_cancel_left)
      with True show ?thesis by (simp add: f_def)
    qed (simp add: f_def bs)
    show "f \<le> bs" using bs by (simp add: f_def less_imp_le)
    show "b div bs * bs + f \<le> e"
    proof (cases "b div bs = e div bs")
      case True
      then show ?thesis by (simp add: f_def)
    next
      case False
      then have "b div bs < e div bs" using be by (metis div_le_mono le_neq_implies_less less_imp_le)
      then have "Suc (b div bs) * bs \<le> e div bs * bs" by (intro mult_le_mono1) simp
      also have "e div bs * bs \<le> e" by simp
      finally show ?thesis using False by (simp add: f_def)
    qed
  qed
  have "origin_begin r = b" "origin_end r = b div bs * bs + f"
    by (simp_all add: origin_begin_def origin_end_def r push_bit_eq_mult bs_def [symmetric])
  moreover have "b + (f - b mod bs) = b div bs * bs + f" using f(1) decomp(1) by linarith
  ultimately show ?thesis
    using f be by (simp add: it' r b_def [symmetric] e_def [symmetric] bs_def [symmetric])
qed

function block_ranges :: "block_iter \<Rightarrow> block_range list" where
  "block_ranges it = (case block_next it of None \<Rightarrow> [] | Some (r, it') \<Rightarrow> r # block_ranges it')"
  by pat_completeness auto
termination
  by (relation "measure (\<lambda>it. iter_end it - iter_begin it)") (auto dest!: block_next_progress)

declare block_ranges.simps [simp del]

text \<open>The ranges follow one another without gap from the start to the end, each inside its block.\<close>

fun tile :: "nat \<Rightarrow> nat \<Rightarrow> block_range list \<Rightarrow> bool" where
  "tile b e [] \<longleftrightarrow> b \<ge> e"
| "tile b e (r # rs) \<longleftrightarrow> origin_begin r = b \<and> b < origin_end r \<and> origin_end r \<le> e \<and> tile (origin_end r) e rs"

lemma block_ranges_tile:
  "tile (iter_begin it) (iter_end it) (block_ranges it)
   \<and> list_all (\<lambda>r. blk_begin r < blk_end r \<and> blk_end r \<le> 2 ^ iter_log2 it \<and> blk_log2 r = iter_log2 it) (block_ranges it)"
proof (induction it rule: block_ranges.induct)
  case (1 it)
  show ?case
  proof (cases "block_next it")
    case None
    then show ?thesis by (simp add: block_ranges.simps [of it] block_next_def Let_def split: if_splits)
  next
    case (Some p)
    obtain r it' where p: "p = (r, it')" by fastforce
    have br: "block_ranges it = r # block_ranges it'" by (subst block_ranges.simps) (simp add: Some p)
    show ?thesis
      using "1.IH" [OF Some p [symmetric]] block_next_progress [OF Some [unfolded p]] unfolding br by auto
  qed
qed


lemma tile_concat:
  "tile b e rs \<Longrightarrow> b \<le> e \<or> rs = [] \<Longrightarrow> concat (map (\<lambda>r. [origin_begin r..<origin_end r]) rs) = [b..<e]"
proof (induction rs arbitrary: b)
  case (Cons r rs)
  then have "b \<le> origin_end r" "origin_end r \<le> e" "origin_begin r = b" by auto
  moreover have "[b..<e] = [b..<origin_end r] @ [origin_end r..<e]"
    using calculation by (metis le_Suc_ex upt_add_eq_append)
  ultimately show ?case using Cons by simp
qed simp


section \<open>Facts about rounding\<close>

lemma unat_PAGE_SIZE [simp]: "unat PAGE_SIZE = 4096"
  by (simp add: PAGE_SIZE_def)

lemma PAGE_SIZE_nonzero [simp]: "PAGE_SIZE \<noteq> 0"
  by (simp add: PAGE_SIZE_def)

lemma check_aligned_iff: "check_aligned x a \<longleftrightarrow> unat a dvd unat x"
proof -
  have "x mod a = 0 \<longleftrightarrow> unat (x mod a) = 0" by (simp add: unat_eq_0)
  also have "\<dots> \<longleftrightarrow> unat a dvd unat x" by (simp only: unat_mod_distrib dvd_eq_mod_eq_0)
  finally show ?thesis by (simp add: check_aligned_def unat_eq_0)
qed

lemma page_aligned_iff: "page_aligned x \<longleftrightarrow> 4096 dvd unat x"
  by (simp add: page_aligned_def check_aligned_iff)

lemma unat_pages: "unat x + 4095 < 2 ^ 64 \<Longrightarrow> unat (pages x) = (unat x + 4095) div 4096"
proof -
  assume "unat x + 4095 < 2 ^ 64"
  then have "unat (x + 0xFFF) = unat x + 4095" by (simp add: unat_word_ariths)
  then show ?thesis by (simp add: pages_def usize_ceil_def PAGE_SIZE_def unat_div_distrib)
qed

lemma unat_pages_aligned:
  assumes "4096 dvd unat x"
  shows "unat (pages x) = unat x div 4096"
proof -
  obtain k where k: "unat x = 4096 * k" using assms by blast
  moreover have "unat x < 2 ^ 64" using unsigned_less [of x] by simp
  ultimately have "k < 2 ^ 52" by simp
  then have "unat x + 4095 < 2 ^ 64" using k by simp
  then show ?thesis using k by (simp add: unat_pages)
qed

lemma roundup_pages_spec:
  assumes "unat x + 4095 < 2 ^ 64"
  shows "unat (roundup_pages x) = (unat x + 4095) div 4096 * 4096"
proof -
  have "(unat x + 4095) div 4096 * 4096 < 2 ^ 64" using assms div_times_less_eq_dividend le_less_trans by blast
  then show ?thesis
    using unat_pages [OF assms] by (simp add: roundup_pages_def PAGE_SIZE_def unat_word_ariths)
qed

lemma unat_round_down: "unat (round_down_pages x) = unat x div 4096 * 4096"
proof -
  have "unat x < 2 ^ 64" using unsigned_less [of x] by simp
  then have "unat x div 4096 * 4096 < 2 ^ 64" by (rule le_less_trans [OF div_times_less_eq_dividend])
  then show ?thesis by (simp add: round_down_pages_def PAGE_SIZE_def unat_word_ariths unat_div_distrib)
qed

end
