(* ===== verification/Vmar.thy ===== *)
theory Vmar
  imports Pages Rights_Signals
begin

text \<open>
  Virtual memory address regions, \<^verbatim>\<open>zircon-object/src/vm/vmar.rs\<close>: the tree of regions with their mappings.

  A region is a node of the datatype \<open>region\<close>; its inner part is \<open>None\<close> once it is destroyed. Addresses
  and sizes are 64-bit words and wrap, as in the release profile. A VM object is a number; what the
  regions ask of it (its length, its cache policy, committing a page) are arguments. The page table is
  shared by the whole tree; an operation returns the commands it sends to it, in order, as \<open>pt_cmd\<close>s.
\<close>

declare Let_def [simp]

section \<open>Mappings\<close>

record vm_mapping =
  m_permissions :: mmu_flags
  m_vmo :: nat
  m_flags :: "mmu_flags list"
  m_addr :: usize
  m_size :: usize
  m_vmo_offset :: usize

datatype pt_cmd =
    PtMap usize usize mmu_flags
  | PtUnmapCont usize usize
  | PtUnmap usize
  | PtUpdate usize mmu_flags
  | PtMapOrUpdate usize usize mmu_flags

definition m_end :: "vm_mapping \<Rightarrow> usize" where
  "m_end m = m_addr m + m_size m"

definition mapping_new :: "usize \<Rightarrow> usize \<Rightarrow> nat \<Rightarrow> usize \<Rightarrow> mmu_flags \<Rightarrow> mmu_flags \<Rightarrow> vm_mapping" where
  "mapping_new addr sz vmo vmo_offset permissions flags =
     \<lparr>m_permissions = permissions, m_vmo = vmo, m_flags = replicate (unat (pages sz)) flags,
      m_addr = addr, m_size = sz, m_vmo_offset = vmo_offset\<rparr>"

definition m_overlap :: "usize \<Rightarrow> usize \<Rightarrow> vm_mapping \<Rightarrow> bool" where
  "m_overlap b e m \<longleftrightarrow> \<not> (m_addr m \<ge> e \<or> m_end m \<le> b)"

definition m_contains :: "usize \<Rightarrow> vm_mapping \<Rightarrow> bool" where
  "m_contains v m \<longleftrightarrow> m_addr m \<le> v \<and> v < m_end m"

definition is_valid_mapping_flags :: "mmu_flags \<Rightarrow> vm_mapping \<Rightarrow> bool" where
  "is_valid_mapping_flags flags m \<longleftrightarrow> contains (m_permissions m) (flags AND MMU_RXW)"

text \<open>
  \<^verbatim>\<open>map\<close>: commit and map page by page; an error of the VM object ends the loop. \<open>commit vmo i f\<close> is the
  frame of page \<open>i\<close>.
\<close>

fun map_pages ::
  "(nat \<Rightarrow> usize \<Rightarrow> mmu_flags \<Rightarrow> usize zx_result) \<Rightarrow> vm_mapping \<Rightarrow> nat \<Rightarrow> nat \<Rightarrow> unit zx_result \<times> pt_cmd list" where
  "map_pages commit m i 0 = (Ok (), [])"
| "map_pages commit m i (Suc n) =
     (if i \<ge> length (m_flags m) then (Panic, [])
      else case commit (m_vmo m) (m_vmo_offset m div PAGE_SIZE + of_nat i) (m_flags m ! i) of
             Ok paddr \<Rightarrow>
               (let (r, cmds) = map_pages commit m (Suc i) n
                in (r, PtMap (m_addr m + of_nat i * PAGE_SIZE) paddr (m_flags m ! i) # cmds))
           | Err e \<Rightarrow> (Err e, [])
           | Panic \<Rightarrow> (Panic, []))"

definition mapping_map ::
  "(nat \<Rightarrow> usize \<Rightarrow> mmu_flags \<Rightarrow> usize zx_result) \<Rightarrow> vm_mapping \<Rightarrow> unit zx_result \<times> pt_cmd list" where
  "mapping_map commit m = map_pages commit m 0 (unat (m_size m div PAGE_SIZE))"

definition mapping_unmap :: "vm_mapping \<Rightarrow> pt_cmd list" where
  "mapping_unmap m = [PtUnmapCont (m_addr m) (m_size m)]"

text \<open>
  \<^verbatim>\<open>cut\<close>: the mapping as it is left, the second half when it was split, and the page table commands.
  \<^verbatim>\<open>Vec::truncate\<close> and \<^verbatim>\<open>Vec::drain\<close> are \<open>take\<close> and \<open>drop\<close>; a drain past the end panics.
\<close>

definition cut ::
  "usize \<Rightarrow> usize \<Rightarrow> vm_mapping \<Rightarrow> (vm_mapping \<times> vm_mapping option \<times> pt_cmd list) zx_result" where
  "cut b e m =
     (if \<not> m_overlap b e m then Ok (m, None, [])
      else if m_addr m \<ge> b \<and> m_end m \<le> e then
        Ok (m\<lparr>m_size := 0, m_flags := []\<rparr>, None, [PtUnmapCont (m_addr m) (m_size m)])
      else if m_addr m \<ge> b \<and> m_addr m < e then
        (let cut_len = e - m_addr m
         in if unat (pages cut_len) > length (m_flags m) then Panic
            else Ok (m\<lparr>m_addr := e, m_size := m_size m - cut_len, m_vmo_offset := m_vmo_offset m + cut_len,
                       m_flags := drop (unat (pages cut_len)) (m_flags m)\<rparr>,
                     None, [PtUnmapCont (m_addr m) cut_len]))
      else if m_end m \<le> e \<and> m_end m > b then
        (let cut_len = m_end m - b; new_len = b - m_addr m
         in Ok (m\<lparr>m_size := new_len, m_flags := take (unat new_len) (m_flags m)\<rparr>, None, [PtUnmapCont b cut_len]))
      else
        (let cut_len = e - b; new_len1 = b - m_addr m; new_len2 = m_end m - e;
             lo = unat (pages (m_size m) - pages new_len2); hi = unat (pages (m_size m))
         in if lo > hi \<or> hi > length (m_flags m) then Panic
            else
              Ok (m\<lparr>m_size := new_len1, m_flags := take (unat new_len1) (take lo (m_flags m) @ drop hi (m_flags m))\<rparr>,
                  Some (m\<lparr>m_flags := take (hi - lo) (drop lo (m_flags m)), m_addr := e, m_size := new_len2,
                          m_vmo_offset := m_vmo_offset m + (e - m_addr m)\<rparr>),
                  [PtUnmapCont b cut_len])))"

definition set_rxw :: "mmu_flags \<Rightarrow> mmu_flags \<Rightarrow> mmu_flags" where
  "set_rxw flags old = flag_insert (flag_remove old MMU_RXW) (flags AND MMU_RXW)"

definition mapping_protect :: "mmu_flags \<Rightarrow> nat \<Rightarrow> nat \<Rightarrow> vm_mapping \<Rightarrow> (vm_mapping \<times> pt_cmd list) zx_result" where
  "mapping_protect flags i j m =
     (if i < j \<and> j > length (m_flags m) then Panic
      else
        Ok (m\<lparr>m_flags := map (\<lambda>(k, f). if i \<le> k \<and> k < j then set_rxw flags f else f)
                           (zip [0..<length (m_flags m)] (m_flags m))\<rparr>,
            map (\<lambda>k. PtUpdate (m_addr m + of_nat k * PAGE_SIZE) (set_rxw flags (m_flags m ! k))) [i..<j]))"

definition mapping_get_flags :: "usize \<Rightarrow> vm_mapping \<Rightarrow> mmu_flags zx_result" where
  "mapping_get_flags v m =
     (if m_contains v m
      then (let i = unat ((v - m_addr m) div PAGE_SIZE) in if i < length (m_flags m) then Ok (m_flags m ! i) else Panic)
      else Err NO_MEMORY)"

text \<open>
  \<^verbatim>\<open>range_change\<close> on a mapping that is not locked: \<open>offset\<close> and \<open>len\<close> count pages of the VM object.
\<close>

datatype range_change_op = RemoveWrite | RangeUnmap

definition range_change :: "usize \<Rightarrow> usize \<Rightarrow> range_change_op \<Rightarrow> vm_mapping \<Rightarrow> pt_cmd list zx_result" where
  "range_change offset len op m =
     (let start = max offset (m_vmo_offset m);
          finish = min (m_vmo_offset m + m_size m div PAGE_SIZE) (offset + len)
      in if start < finish
         then (let i = unat (start - m_vmo_offset m); j = unat (finish - m_vmo_offset m)
               in if op = RemoveWrite \<and> j > length (m_flags m) then Panic
                  else Ok (map (\<lambda>k. case op of
                                  RemoveWrite \<Rightarrow> PtUpdate (m_addr m + of_nat k * PAGE_SIZE) (flag_remove (m_flags m ! k) MMU_WRITE)
                                | RangeUnmap \<Rightarrow> PtUnmap (m_addr m + of_nat k * PAGE_SIZE)) [i..<j]))
         else Ok [])"

definition mapping_page_fault ::
  "(nat \<Rightarrow> usize \<Rightarrow> mmu_flags \<Rightarrow> usize zx_result) \<Rightarrow> usize \<Rightarrow> mmu_flags \<Rightarrow> vm_mapping
     \<Rightarrow> pt_cmd list zx_result" where
  "mapping_page_fault commit v access m =
     (let va = round_down_pages v;
          offset = va - m_addr m;
          i = unat (offset div PAGE_SIZE)
      in if i \<ge> length (m_flags m) then Panic
         else
           (let fl = m_flags m ! i
            in if \<not> contains fl access then Err ACCESS_DENIED
               else
                 (let fl' = (if contains access MMU_WRITE then fl else flag_remove fl MMU_WRITE)
                  in result_bind (commit (m_vmo m) ((offset + m_vmo_offset m) div PAGE_SIZE) access) (\<lambda>paddr.
                       Ok [PtMapOrUpdate va paddr fl']))))"

section \<open>Regions\<close>

datatype region =
  Region (rg_flags: u32) (rg_addr: usize) (rg_size: usize) (rg_inner: "(region list \<times> vm_mapping list) option")

definition rg_end :: "region \<Rightarrow> usize" where
  "rg_end r = rg_addr r + rg_size r"

definition rg_overlap :: "usize \<Rightarrow> usize \<Rightarrow> region \<Rightarrow> bool" where
  "rg_overlap b e r \<longleftrightarrow> \<not> (rg_addr r \<ge> e \<or> rg_end r \<le> b)"

definition rg_within :: "usize \<Rightarrow> usize \<Rightarrow> region \<Rightarrow> bool" where
  "rg_within b e r \<longleftrightarrow> b \<le> rg_addr r \<and> rg_end r \<le> e"

definition partial_overlap :: "usize \<Rightarrow> usize \<Rightarrow> region \<Rightarrow> bool" where
  "partial_overlap b e r \<longleftrightarrow> rg_overlap b e r \<and> \<not> rg_within b e r"

definition rg_contains :: "usize \<Rightarrow> region \<Rightarrow> bool" where
  "rg_contains v r \<longleftrightarrow> rg_addr r \<le> v \<and> v < rg_end r"

definition VMAR_COMPACT :: u32 where "VMAR_COMPACT = 1"
definition VMAR_SPECIFIC :: u32 where "VMAR_SPECIFIC = 2"
definition VMAR_SPECIFIC_OVERWRITE :: u32 where "VMAR_SPECIFIC_OVERWRITE = 4"
definition VMAR_CAN_MAP_SPECIFIC :: u32 where "VMAR_CAN_MAP_SPECIFIC = 8"
definition VMAR_CAN_MAP_READ :: u32 where "VMAR_CAN_MAP_READ = 0x10"
definition VMAR_CAN_MAP_WRITE :: u32 where "VMAR_CAN_MAP_WRITE = 0x20"
definition VMAR_CAN_MAP_EXECUTE :: u32 where "VMAR_CAN_MAP_EXECUTE = 0x40"
definition VMAR_REQUIRE_NON_RESIZABLE :: u32 where "VMAR_REQUIRE_NON_RESIZABLE = 0x80"
definition VMAR_ALLOW_FAULTS :: u32 where "VMAR_ALLOW_FAULTS = 0x100"
definition VMAR_CAN_MAP_RXW :: u32 where
  "VMAR_CAN_MAP_RXW = VMAR_CAN_MAP_READ OR VMAR_CAN_MAP_EXECUTE OR VMAR_CAN_MAP_WRITE"
definition VMAR_ROOT_FLAGS :: u32 where "VMAR_ROOT_FLAGS = VMAR_CAN_MAP_RXW OR VMAR_CAN_MAP_SPECIFIC"

definition USER_ASPACE_BASE :: usize where "USER_ASPACE_BASE = 0x200000"
definition USER_ASPACE_SIZE :: usize where "USER_ASPACE_SIZE = push_bit 47 1 - 4096 - USER_ASPACE_BASE"

definition new_root :: region where
  "new_root = Region VMAR_ROOT_FLAGS USER_ASPACE_BASE USER_ASPACE_SIZE (Some ([], []))"

definition test_map :: "region \<Rightarrow> region list \<Rightarrow> vm_mapping list \<Rightarrow> usize \<Rightarrow> usize \<Rightarrow> bool" where
  "test_map r children mappings offset len =
     (let b = rg_addr r + offset; e = b + len
      in if e > rg_addr r + rg_size r then False
         else if list_ex (rg_overlap b e) children then False
         else if list_ex (m_overlap b e) mappings then False
         else True)"

definition find_free_area :: "region \<Rightarrow> region list \<Rightarrow> vm_mapping list \<Rightarrow> usize \<Rightarrow> usize \<Rightarrow> usize option" where
  "find_free_area r children mappings hint len =
     find (\<lambda>offset. test_map r children mappings offset len)
       (hint # map (\<lambda>c. rg_end c - rg_addr r) children @ map (\<lambda>m. m_end m - rg_addr r) mappings)"

definition determine_offset ::
  "region \<Rightarrow> region list \<Rightarrow> vm_mapping list \<Rightarrow> usize option \<Rightarrow> usize \<Rightarrow> usize \<Rightarrow> usize zx_result" where
  "determine_offset r children mappings offset len align =
     (if \<not> check_aligned len align then Err INVALID_ARGS
      else case offset of
             Some off \<Rightarrow>
               if check_aligned off align \<and> test_map r children mappings off len then Ok off else Err INVALID_ARGS
           | None \<Rightarrow>
               if len > rg_size r then Err INVALID_ARGS
               else case find_free_area r children mappings 0 len of Some off \<Rightarrow> Ok off | None \<Rightarrow> Err NO_MEMORY)"

fun vmar_allocate :: "usize option \<Rightarrow> usize \<Rightarrow> u32 \<Rightarrow> usize \<Rightarrow> region \<Rightarrow> region zx_result \<times> region" where
  "vmar_allocate offset len flags align (Region f a s None) = (Err BAD_STATE, Region f a s None)"
| "vmar_allocate offset len flags align (Region f a s (Some (cs, ms))) =
     (case determine_offset (Region f a s (Some (cs, ms))) cs ms offset len align of
        Ok off \<Rightarrow>
          (let child = Region flags (a + off) len (Some ([], []))
           in (Ok child, Region f a s (Some (cs @ [child], ms))))
      | Err e \<Rightarrow> (Err e, Region f a s (Some (cs, ms)))
      | Panic \<Rightarrow> (Panic, Region f a s (Some (cs, ms))))"

text \<open>\<^verbatim>\<open>destroy_internal\<close>: the destroyed region and the unmapping of every mapping below it.\<close>

fun destroy_internal :: "region \<Rightarrow> unit zx_result \<times> region \<times> pt_cmd list"
and destroy_all :: "region list \<Rightarrow> unit zx_result \<times> region list \<times> pt_cmd list" where
  "destroy_internal (Region f a s None) = (Err BAD_STATE, Region f a s None, [])"
| "destroy_internal (Region f a s (Some (cs, ms))) =
     (case destroy_all cs of
        (Ok _, _, cmds) \<Rightarrow> (Ok (), Region f a s None, cmds @ concat (map mapping_unmap ms))
      | (r, left, cmds) \<Rightarrow> (r, Region f a s (Some ([], ms)), cmds))"
| "destroy_all [] = (Ok (), [], [])"
| "destroy_all (c # cs) =
     (case destroy_internal c of
        (Ok _, _, cmds) \<Rightarrow> (let (r, left, cmds') = destroy_all cs in (r, left, cmds @ cmds'))
      | (r, c', cmds) \<Rightarrow> (r, c' # cs, cmds))"

text \<open>The loop of \<^verbatim>\<open>unmap_inner\<close> over the mappings: those that stay, the new ones, the commands.\<close>

fun cut_all ::
  "usize \<Rightarrow> usize \<Rightarrow> vm_mapping list \<Rightarrow> (vm_mapping list \<times> vm_mapping list \<times> pt_cmd list) zx_result" where
  "cut_all b e [] = Ok ([], [], [])"
| "cut_all b e (m # ms) =
     result_bind (cut b e m) (\<lambda>(m', new, cmds).
       result_bind (cut_all b e ms) (\<lambda>(stay, news, cmds').
         Ok (if m_size m' > 0 then m' # stay else stay,
             (case new of Some n \<Rightarrow> n # news | None \<Rightarrow> news), cmds @ cmds')))"

text \<open>The loop over the children: those inside the range are destroyed.\<close>

fun drop_within :: "usize \<Rightarrow> usize \<Rightarrow> region list \<Rightarrow> unit zx_result \<times> region list \<times> pt_cmd list" where
  "drop_within b e [] = (Ok (), [], [])"
| "drop_within b e (c # cs) =
     (if rg_within b e c
      then (case destroy_internal c of
              (Ok _, _, cmds) \<Rightarrow> (let (r, left, cmds') = drop_within b e cs in (r, left, cmds @ cmds'))
            | (r, _, cmds) \<Rightarrow> (r, [], cmds))
      else (let (r, left, cmds) = drop_within b e cs in (r, c # left, cmds)))"

definition unmap_inner ::
  "usize \<Rightarrow> usize \<Rightarrow> region list \<Rightarrow> vm_mapping list \<Rightarrow> unit zx_result \<times> region list \<times> vm_mapping list \<times> pt_cmd list" where
  "unmap_inner addr len cs ms =
     (if \<not> page_aligned addr \<or> \<not> page_aligned len \<or> len = 0 then (Err INVALID_ARGS, cs, ms, [])
      else
        (let b = addr; e = addr + len
         in if list_ex (partial_overlap b e) cs then (Err INVALID_ARGS, cs, ms, [])
            else case cut_all b e ms of
                   Ok (stay, news, cmds) \<Rightarrow>
                     (let (r, cs', cmds') = drop_within b e cs in (r, cs', stay @ news, cmds @ cmds'))
                 | Err x \<Rightarrow> (Err x, cs, ms, [])
                 | Panic \<Rightarrow> (Panic, cs, ms, [])))"


fun vmar_unmap :: "usize \<Rightarrow> usize \<Rightarrow> region \<Rightarrow> unit zx_result \<times> region \<times> pt_cmd list" where
  "vmar_unmap addr len (Region f a s inner) =
     (if \<not> page_aligned addr \<or> \<not> page_aligned len \<or> len = 0 then (Err INVALID_ARGS, Region f a s inner, [])
      else case inner of
             None \<Rightarrow> (Err BAD_STATE, Region f a s inner, [])
           | Some (cs, ms) \<Rightarrow>
               (let (r, cs', ms', cmds) = unmap_inner addr len cs ms in (r, Region f a s (Some (cs', ms')), cmds)))"

text \<open>
  What \<^verbatim>\<open>map_ext\<close> asks of the VM object: its length, its cache policy, and to commit pages. A mapping
  whose pages cannot be committed is dropped, which unmaps its range.
\<close>

record vmo_iface =
  vmo_len :: "nat \<Rightarrow> usize"
  vmo_cache :: "nat \<Rightarrow> usize"
  vmo_commit :: "nat \<Rightarrow> usize \<Rightarrow> mmu_flags \<Rightarrow> usize zx_result"

definition MMU_ALL :: mmu_flags where "MMU_ALL = 0xFF"

fun map_ext ::
  "vmo_iface \<Rightarrow> usize option \<Rightarrow> nat \<Rightarrow> usize \<Rightarrow> usize \<Rightarrow> mmu_flags \<Rightarrow> mmu_flags \<Rightarrow> bool \<Rightarrow> bool \<Rightarrow> bool \<Rightarrow> region
     \<Rightarrow> usize zx_result \<times> region \<times> pt_cmd list" where
  "map_ext V vmar_offset vmo vmo_offset len permissions flags overwrite map_range allow_faults (Region f a s inner) =
     (let r = Region f a s inner
      in if \<not> page_aligned vmo_offset \<or> \<not> page_aligned len \<or> checked_add vmo_offset len = None
         then (Err INVALID_ARGS, r, [])
         else if \<not> contains permissions (flags AND MMU_RXW) then (Err ACCESS_DENIED, r, [])
         else if \<not> allow_faults \<and> (vmo_offset > vmo_len V vmo \<or> len > vmo_len V vmo - vmo_offset)
         then (Err INVALID_ARGS, r, [])
         else case inner of
           None \<Rightarrow> (Err BAD_STATE, r, [])
         | Some (cs, ms) \<Rightarrow>
             (case (if overwrite
                    then (case vmar_offset of
                            None \<Rightarrow> Err INVALID_ARGS
                          | Some off \<Rightarrow> if \<not> page_aligned off \<or> off > s \<or> len > s - off then Err INVALID_ARGS else Ok off)
                    else determine_offset r cs ms vmar_offset len PAGE_SIZE) of
                Err e \<Rightarrow> (Err e, r, [])
              | Panic \<Rightarrow> (Panic, r, [])
              | Ok off \<Rightarrow>
                  (let addr = a + off;
                       fl = flags OR (vmo_cache V vmo AND MMU_ALL);
                       (ur, cs1, ms1, cmds1) =
                         (if test_map r cs ms off len then (Ok (), cs, ms, [])
                          else if overwrite then unmap_inner addr len cs ms
                          else (Err NO_MEMORY, cs, ms, []))
                   in case ur of
                        Err e \<Rightarrow> (Err e, Region f a s (Some (cs1, ms1)), cmds1)
                      | Panic \<Rightarrow> (Panic, Region f a s (Some (cs1, ms1)), cmds1)
                      | Ok _ \<Rightarrow>
                          (let m = mapping_new addr len vmo vmo_offset permissions fl;
                               (mr, cmds2) = (if map_range then mapping_map (vmo_commit V) m else (Ok (), []))
                           in case mr of
                                Ok _ \<Rightarrow> (Ok addr, Region f a s (Some (cs1, ms1 @ [m])), cmds1 @ cmds2)
                              | Err e \<Rightarrow> (Err e, Region f a s (Some (cs1, ms1)), cmds1 @ cmds2 @ mapping_unmap m)
                              | Panic \<Rightarrow> (Panic, Region f a s (Some (cs1, ms1)), cmds1 @ cmds2)))))"

text \<open>\<^verbatim>\<open>protect\<close>: \<open>touches\<close> is the filter its four loops share.\<close>

definition touches :: "usize \<Rightarrow> usize \<Rightarrow> vm_mapping \<Rightarrow> bool" where
  "touches addr end_addr m \<longleftrightarrow> m_end m \<ge> addr \<and> m_addr m \<le> end_addr"

fun protect_all :: "mmu_flags \<Rightarrow> usize \<Rightarrow> usize \<Rightarrow> vm_mapping list \<Rightarrow> (vm_mapping list \<times> pt_cmd list) zx_result" where
  "protect_all flags addr end_addr [] = Ok ([], [])"
| "protect_all flags addr end_addr (m # ms) =
     result_bind
       (if touches addr end_addr m
        then mapping_protect flags (unat (pages (max addr (m_addr m) - m_addr m)))
               (unat (pages (min end_addr (m_end m) - m_addr m))) m
        else Ok (m, []))
       (\<lambda>(m', cmds). result_bind (protect_all flags addr end_addr ms) (\<lambda>(ms', cmds'). Ok (m' # ms', cmds @ cmds')))"

fun vmar_protect :: "usize \<Rightarrow> usize \<Rightarrow> mmu_flags \<Rightarrow> region \<Rightarrow> unit zx_result \<times> region \<times> pt_cmd list" where
  "vmar_protect addr len flags (Region f a s inner) =
     (let r = Region f a s inner; end_addr = addr + len
      in if \<not> page_aligned addr \<or> \<not> page_aligned len then (Err INVALID_ARGS, r, [])
         else case inner of
           None \<Rightarrow> (Err BAD_STATE, r, [])
         | Some (cs, ms) \<Rightarrow>
             if list_ex (\<lambda>c. rg_end c \<ge> addr \<and> rg_addr c \<le> end_addr) cs then (Err INVALID_ARGS, r, [])
             else if sum_list (map (\<lambda>m. min end_addr (m_end m) - max addr (m_addr m)) (filter (touches addr end_addr) ms)) \<noteq> len
             then (Err NOT_FOUND, r, [])
             else if list_ex (\<lambda>m. \<not> is_valid_mapping_flags flags m) (filter (touches addr end_addr) ms)
             then (Err ACCESS_DENIED, r, [])
             else case protect_all flags addr end_addr ms of
                    Ok (ms', cmds) \<Rightarrow> (Ok (), Region f a s (Some (cs, ms')), cmds)
                  | Err e \<Rightarrow> (Err e, r, [])
                  | Panic \<Rightarrow> (Panic, r, []))"

fun vmar_clear :: "region \<Rightarrow> unit zx_result \<times> region \<times> pt_cmd list" where
  "vmar_clear (Region f a s None) = (Err BAD_STATE, Region f a s None, [])"
| "vmar_clear (Region f a s (Some (cs, ms))) =
     (case destroy_all cs of
        (Ok _, _, cmds) \<Rightarrow> (Ok (), Region f a s (Some ([], [])), cmds @ concat (map mapping_unmap ms))
      | (r, left, cmds) \<Rightarrow> (r, Region f a s (Some ([], ms)), cmds))"

section \<open>Looking up addresses\<close>

fun get_mapping_flags :: "usize \<Rightarrow> region \<Rightarrow> mmu_flags paging_result"
and flags_in_children :: "usize \<Rightarrow> region list \<Rightarrow> mmu_flags paging_result option" where
  "get_mapping_flags v (Region f a s None) = Panic"
| "get_mapping_flags v (Region f a s (Some (cs, ms))) =
     (if \<not> rg_contains v (Region f a s (Some (cs, ms))) then Err NotMapped
      else case flags_in_children v cs of
             Some r \<Rightarrow> r
           | None \<Rightarrow>
               (case find (m_contains v) ms of
                  Some m \<Rightarrow>
                    (let i = unat ((v - m_addr m) div PAGE_SIZE)
                     in if i < length (m_flags m) then Ok (m_flags m ! i) else Err NotMapped)
                | None \<Rightarrow> Err NoMemory))"
| "flags_in_children v [] = None"
| "flags_in_children v (c # cs) = (if rg_contains v c then Some (get_mapping_flags v c) else flags_in_children v cs)"

fun find_mapping :: "usize \<Rightarrow> region \<Rightarrow> vm_mapping option zx_result"
and mapping_in_children :: "usize \<Rightarrow> region list \<Rightarrow> vm_mapping option zx_result" where
  "find_mapping v (Region f a s None) = Panic"
| "find_mapping v (Region f a s (Some (cs, ms))) =
     (case find (m_contains v) ms of Some m \<Rightarrow> Ok (Some m) | None \<Rightarrow> mapping_in_children v cs)"
| "mapping_in_children v [] = Ok None"
| "mapping_in_children v (c # cs) = (if rg_contains v c then find_mapping v c else mapping_in_children v cs)"

fun vmar_page_fault ::
  "(nat \<Rightarrow> usize \<Rightarrow> mmu_flags \<Rightarrow> usize zx_result) \<Rightarrow> usize \<Rightarrow> mmu_flags \<Rightarrow> region \<Rightarrow> pt_cmd list zx_result"
and fault_in_children ::
  "(nat \<Rightarrow> usize \<Rightarrow> mmu_flags \<Rightarrow> usize zx_result) \<Rightarrow> usize \<Rightarrow> mmu_flags \<Rightarrow> region list \<Rightarrow> pt_cmd list zx_result option" where
  "vmar_page_fault commit v access (Region f a s None) = Panic"
| "vmar_page_fault commit v access (Region f a s (Some (cs, ms))) =
     (if \<not> rg_contains v (Region f a s (Some (cs, ms))) then Err NOT_FOUND
      else case fault_in_children commit v access cs of
             Some r \<Rightarrow> r
           | None \<Rightarrow>
               (case find (m_contains v) ms of
                  Some m \<Rightarrow> mapping_page_fault commit v access m
                | None \<Rightarrow> Err NOT_FOUND))"
| "fault_in_children commit v access [] = None"
| "fault_in_children commit v access (c # cs) =
     (if rg_contains v c then Some (vmar_page_fault commit v access c) else fault_in_children commit v access cs)"

text \<open>
  \<^verbatim>\<open>read_memory\<close> and \<^verbatim>\<open>write_memory\<close>: which bytes of which VM object are accessed.
\<close>

definition memory_window :: "usize \<Rightarrow> usize \<Rightarrow> region \<Rightarrow> (nat \<times> usize \<times> usize) zx_result" where
  "memory_window v buf_len r =
     (case find_mapping v r of
        Ok (Some m) \<Rightarrow> Ok (m_vmo m, v - m_addr m + m_vmo_offset m, min buf_len (m_addr m + m_size m - v))
      | Ok None \<Rightarrow> Err NO_MEMORY
      | Err e \<Rightarrow> Err e
      | Panic \<Rightarrow> Panic)"

lemma next_page_closer:
  assumes "checked_add page PAGE_SIZE = Some page'"
  shows "2 ^ 64 - unat page' < 2 ^ 64 - unat page"
proof -
  have "unat page' = unat page + 4096"
    using assms by (auto simp: checked_add_Some_iff unat_word_ariths)
  moreover have "unat page' < 2 ^ 64" using unsigned_less [of page'] by simp
  ultimately show ?thesis by simp
qed

text \<open>The loop of \<^verbatim>\<open>check_user_range\<close> over the pages, from \<open>page\<close> to \<open>end_page\<close>.\<close>

function check_pages :: "region \<Rightarrow> usize \<Rightarrow> mmu_flags \<Rightarrow> usize \<Rightarrow> usize \<Rightarrow> unit zx_result" where
  "check_pages r addr access page end_page =
     (case get_mapping_flags (max page addr) r of
        Panic \<Rightarrow> Panic
      | Err _ \<Rightarrow> Err NOT_FOUND
      | Ok fl \<Rightarrow>
          if \<not> contains fl MMU_USER then Err NOT_FOUND
          else if \<not> contains fl access then Err ACCESS_DENIED
          else if page \<ge> end_page then Ok ()
          else case checked_add page PAGE_SIZE of
                 None \<Rightarrow> Err NOT_FOUND
               | Some page' \<Rightarrow> check_pages r addr access page' end_page)"
  by pat_completeness auto
termination
  by (relation "measure (\<lambda>(_, _, _, page, end_page). 2 ^ 64 - unat page)") (auto dest: next_page_closer)

definition check_user_range :: "usize \<Rightarrow> usize \<Rightarrow> mmu_flags \<Rightarrow> region \<Rightarrow> unit zx_result" where
  "check_user_range addr len access r =
     (if len = 0 then Ok ()
      else case checked_add addr (len - 1) of
             None \<Rightarrow> Err NOT_FOUND
           | Some e \<Rightarrow> check_pages r addr access (addr AND NOT (PAGE_SIZE - 1)) (e AND NOT (PAGE_SIZE - 1)))"

text \<open>
  \<^verbatim>\<open>fork_from\<close>: every mapping below \<open>src\<close> is cloned, children first, onto a child VM object that
  \<open>clone_vmo\<close> names; the clones are appended to the mappings collected so far.
\<close>

fun clone_mappings ::
  "(nat \<Rightarrow> nat zx_result) \<Rightarrow> (nat \<Rightarrow> usize \<Rightarrow> mmu_flags \<Rightarrow> usize zx_result) \<Rightarrow> vm_mapping list
     \<Rightarrow> vm_mapping list \<Rightarrow> unit zx_result \<times> vm_mapping list \<times> pt_cmd list" where
  "clone_mappings clone commit [] acc = (Ok (), acc, [])"
| "clone_mappings clone commit (m # ms) acc =
     (case clone (m_vmo m) of
        Ok vmo \<Rightarrow>
          (let m' = m\<lparr>m_vmo := vmo\<rparr>
           in case mapping_map commit m' of
                (Ok _, cmds) \<Rightarrow>
                  (let (r, acc', cmds') = clone_mappings clone commit ms (acc @ [m']) in (r, acc', cmds @ cmds'))
              | (r, cmds) \<Rightarrow> (r, acc, cmds @ mapping_unmap m'))
      | Err e \<Rightarrow> (Err e, acc, [])
      | Panic \<Rightarrow> (Panic, acc, []))"

fun fork_from ::
  "(nat \<Rightarrow> nat zx_result) \<Rightarrow> (nat \<Rightarrow> usize \<Rightarrow> mmu_flags \<Rightarrow> usize zx_result) \<Rightarrow> region
     \<Rightarrow> vm_mapping list \<Rightarrow> unit zx_result \<times> vm_mapping list \<times> pt_cmd list"
and fork_children ::
  "(nat \<Rightarrow> nat zx_result) \<Rightarrow> (nat \<Rightarrow> usize \<Rightarrow> mmu_flags \<Rightarrow> usize zx_result) \<Rightarrow> region list
     \<Rightarrow> vm_mapping list \<Rightarrow> unit zx_result \<times> vm_mapping list \<times> pt_cmd list" where
  "fork_from clone commit (Region f a s None) acc = (Panic, acc, [])"
| "fork_from clone commit (Region f a s (Some (cs, ms))) acc =
     (case fork_children clone commit cs acc of
        (Ok _, acc1, cmds1) \<Rightarrow>
          (let (r, acc2, cmds2) = clone_mappings clone commit ms acc1 in (r, acc2, cmds1 @ cmds2))
      | (r, acc1, cmds1) \<Rightarrow> (r, acc1, cmds1))"
| "fork_children clone commit [] acc = (Ok (), acc, [])"
| "fork_children clone commit (c # cs) acc =
     (case fork_from clone commit c acc of
        (Ok _, acc1, cmds1) \<Rightarrow>
          (let (r, acc2, cmds2) = fork_children clone commit cs acc1 in (r, acc2, cmds1 @ cmds2))
      | (r, acc1, cmds1) \<Rightarrow> (r, acc1, cmds1))"

section \<open>System calls\<close>

type_synonym vm_options = u32

definition VM_PERM_READ :: vm_options where "VM_PERM_READ = 1"
definition VM_PERM_WRITE :: vm_options where "VM_PERM_WRITE = 2"
definition VM_PERM_EXECUTE :: vm_options where "VM_PERM_EXECUTE = 4"
definition VM_COMPACT :: vm_options where "VM_COMPACT = 8"
definition VM_SPECIFIC :: vm_options where "VM_SPECIFIC = 0x10"
definition VM_SPECIFIC_OVERWRITE :: vm_options where "VM_SPECIFIC_OVERWRITE = 0x20"
definition VM_CAN_MAP_SPECIFIC :: vm_options where "VM_CAN_MAP_SPECIFIC = 0x40"
definition VM_CAN_MAP_READ :: vm_options where "VM_CAN_MAP_READ = 0x80"
definition VM_CAN_MAP_WRITE :: vm_options where "VM_CAN_MAP_WRITE = 0x100"
definition VM_CAN_MAP_EXECUTE :: vm_options where "VM_CAN_MAP_EXECUTE = 0x200"
definition VM_MAP_RANGE :: vm_options where "VM_MAP_RANGE = 0x400"
definition VM_REQUIRE_NON_RESIZABLE :: vm_options where "VM_REQUIRE_NON_RESIZABLE = 0x800"
definition VM_ALLOW_FAULTS :: vm_options where "VM_ALLOW_FAULTS = 0x1000"
definition VM_PERM_READ_IF_XOM_UNSUPPORTED :: vm_options where "VM_PERM_READ_IF_XOM_UNSUPPORTED = 0x4000"
definition VM_CAN_MAP_RXW :: vm_options where
  "VM_CAN_MAP_RXW = VM_CAN_MAP_READ OR VM_CAN_MAP_EXECUTE OR VM_CAN_MAP_WRITE"
definition VM_PERM_RXW :: vm_options where "VM_PERM_RXW = VM_PERM_READ OR VM_PERM_WRITE OR VM_PERM_EXECUTE"
definition VM_OPTIONS_ALL :: vm_options where "VM_OPTIONS_ALL = 0x5FFF"

definition flag_if :: "bool \<Rightarrow> 'a::len word \<Rightarrow> 'a word" where
  "flag_if b f = (if b then f else 0)"

definition to_rights :: "vm_options \<Rightarrow> rights" where
  "to_rights op = flag_if (contains op VM_CAN_MAP_READ) RIGHT_READ OR flag_if (contains op VM_CAN_MAP_WRITE) RIGHT_WRITE
     OR flag_if (contains op VM_CAN_MAP_EXECUTE) RIGHT_EXECUTE"

definition to_required_rights :: "vm_options \<Rightarrow> rights" where
  "to_required_rights op =
     flag_if (intersects op (VM_PERM_READ OR VM_PERM_READ_IF_XOM_UNSUPPORTED)) RIGHT_READ
     OR flag_if (contains op VM_PERM_WRITE) RIGHT_WRITE OR flag_if (contains op VM_PERM_EXECUTE) RIGHT_EXECUTE"

definition to_vmar_flags :: "vm_options \<Rightarrow> u32" where
  "to_vmar_flags op =
     flag_if (contains op VM_COMPACT) VMAR_COMPACT OR flag_if (contains op VM_SPECIFIC) VMAR_SPECIFIC
     OR flag_if (contains op VM_SPECIFIC_OVERWRITE) VMAR_SPECIFIC_OVERWRITE
     OR flag_if (contains op VM_CAN_MAP_SPECIFIC) VMAR_CAN_MAP_SPECIFIC
     OR flag_if (contains op VM_CAN_MAP_READ) VMAR_CAN_MAP_READ
     OR flag_if (contains op VM_CAN_MAP_WRITE) VMAR_CAN_MAP_WRITE
     OR flag_if (contains op VM_CAN_MAP_EXECUTE) VMAR_CAN_MAP_EXECUTE
     OR flag_if (contains op VM_REQUIRE_NON_RESIZABLE) VMAR_REQUIRE_NON_RESIZABLE
     OR flag_if (contains op VM_ALLOW_FAULTS) VMAR_ALLOW_FAULTS"

definition amount_of_alignments :: "u32 \<Rightarrow> usize zx_result" where
  "amount_of_alignments options =
     (let a = (if drop_bit 24 options = 0 then 12 else unat (drop_bit 24 options))
      in if 12 \<le> a \<and> a \<le> 32 then Ok (push_bit a 1) else Err INVALID_ARGS)"

text \<open>
  \<^verbatim>\<open>sys_vmar_allocate\<close> on the parent its handle names, once the handle has given the rights \<open>to_rights\<close>;
  \<open>rights\<close> are those the handle has.
\<close>

definition sys_vmar_allocate ::
  "u32 \<Rightarrow> u64 \<Rightarrow> u64 \<Rightarrow> rights \<Rightarrow> region \<Rightarrow> (region \<times> rights) zx_result \<times> region" where
  "sys_vmar_allocate options offset sz rights parent =
     (case from_bits VM_OPTIONS_ALL options of
        None \<Rightarrow> (Err INVALID_ARGS, parent)
      | Some op \<Rightarrow>
          if \<not> contains rights (to_rights op) then (Err ACCESS_DENIED, parent)
          else if intersects op (VM_PERM_RXW OR VM_MAP_RANGE) then (Err INVALID_ARGS, parent)
          else if intersects (to_vmar_flags op)
                    (NOT (VMAR_SPECIFIC OR VMAR_CAN_MAP_SPECIFIC OR VMAR_COMPACT OR VMAR_CAN_MAP_RXW))
          then (Err INVALID_ARGS, parent)
          else case amount_of_alignments options of
            Err e \<Rightarrow> (Err e, parent)
          | Panic \<Rightarrow> (Panic, parent)
          | Ok align \<Rightarrow>
              if contains op VM_SPECIFIC_OVERWRITE \<and> \<not> contains op VM_SPECIFIC then (Panic, parent)
              else if \<not> contains op VM_SPECIFIC \<and> offset \<noteq> 0 then (Err INVALID_ARGS, parent)
              else if roundup_pages sz = 0 then (Err INVALID_ARGS, parent)
              else case vmar_allocate (if contains op VM_SPECIFIC then Some offset else None)
                          (roundup_pages sz) (to_vmar_flags op) align parent of
                     (Ok child, parent') \<Rightarrow> (Ok (child, RIGHT_DEFAULT_VMAR OR to_rights op), parent')
                   | (Err e, parent') \<Rightarrow> (Err e, parent')
                   | (Panic, parent') \<Rightarrow> (Panic, parent'))"

text \<open>
  \<^verbatim>\<open>sys_vmar_map\<close> on a bare-metal kernel that serves page faults; \<open>vmar_rights\<close> and \<open>vmo_rights\<close> are the
  rights of the two handles, \<open>resizable\<close> tells of the VM object.
\<close>

definition sys_vmar_map ::
  "vmo_iface \<Rightarrow> u32 \<Rightarrow> usize \<Rightarrow> nat \<Rightarrow> bool \<Rightarrow> usize \<Rightarrow> usize \<Rightarrow> rights \<Rightarrow> rights \<Rightarrow> region
     \<Rightarrow> usize zx_result \<times> region \<times> pt_cmd list" where
  "sys_vmar_map V options vmar_offset vmo resizable vmo_offset len vmar_rights vmo_rights r =
     (case from_bits VM_OPTIONS_ALL options of
        None \<Rightarrow> (Err INVALID_ARGS, r, [])
      | Some op \<Rightarrow>
          (let specific = contains op VM_SPECIFIC \<or> contains op VM_SPECIFIC_OVERWRITE;
               permissions = flag_if (contains vmo_rights RIGHT_READ) MMU_READ
                 OR flag_if (contains vmo_rights RIGHT_WRITE) MMU_WRITE
                 OR flag_if (contains vmo_rights RIGHT_EXECUTE) MMU_EXECUTE;
               mflags = MMU_USER
                 OR flag_if (intersects op (VM_PERM_READ OR VM_PERM_READ_IF_XOM_UNSUPPORTED)) MMU_READ
                 OR flag_if (contains op VM_PERM_WRITE) MMU_WRITE OR flag_if (contains op VM_PERM_EXECUTE) MMU_EXECUTE;
               overwrite = contains op VM_SPECIFIC_OVERWRITE;
               map_range = contains op VM_MAP_RANGE
           in if \<not> contains vmo_rights RIGHT_MAP then (Err ACCESS_DENIED, r, [])
              else if intersects op (VM_CAN_MAP_RXW OR VM_CAN_MAP_SPECIFIC OR VM_COMPACT) then (Err INVALID_ARGS, r, [])
              else if contains op VM_REQUIRE_NON_RESIZABLE \<and> resizable then (Err NOT_SUPPORTED, r, [])
              else if \<not> specific \<and> vmar_offset \<noteq> 0 then (Err INVALID_ARGS, r, [])
              else if \<not> contains vmar_rights (to_required_rights op) then (Err ACCESS_DENIED, r, [])
              else if map_range \<and> overwrite then (Err INVALID_ARGS, r, [])
              else if roundup_pages len = 0 then (Err INVALID_ARGS, r, [])
              else map_ext V (if specific then Some vmar_offset else None) vmo vmo_offset (roundup_pages len)
                     permissions mflags overwrite map_range (contains op VM_ALLOW_FAULTS) r))"

definition sys_vmar_protect :: "u32 \<Rightarrow> u64 \<Rightarrow> u64 \<Rightarrow> rights \<Rightarrow> region \<Rightarrow> unit zx_result \<times> region \<times> pt_cmd list" where
  "sys_vmar_protect options addr len rights r =
     (case from_bits VM_OPTIONS_ALL options of
        None \<Rightarrow> (Err INVALID_ARGS, r, [])
      | Some op \<Rightarrow>
          if \<not> contains rights (to_required_rights op) then (Err ACCESS_DENIED, r, [])
          else if intersects op (NOT VM_PERM_RXW AND VM_OPTIONS_ALL) then (Err INVALID_ARGS, r, [])
          else if roundup_pages len = 0 then (Err INVALID_ARGS, r, [])
          else vmar_protect addr (roundup_pages len)
                 (flag_if (contains op VM_PERM_READ) MMU_READ OR flag_if (contains op VM_PERM_WRITE) MMU_WRITE
                  OR flag_if (contains op VM_PERM_EXECUTE) MMU_EXECUTE) r)"

definition sys_vmar_unmap :: "usize \<Rightarrow> usize \<Rightarrow> region \<Rightarrow> unit zx_result \<times> region \<times> pt_cmd list" where
  "sys_vmar_unmap addr len r = vmar_unmap addr (pages len * PAGE_SIZE) r"

end
