(* ===== verification/Address_Space.thy ===== *)
theory Address_Space
  imports Vmar
begin

text \<open>
  The address space invariant: the regions and mappings inside a live region are aligned, lie inside
  it and never overlap; and what the operations on a region do to it. Intervals are pairs of natural
  numbers, the second bound exclusive.
\<close>

section \<open>Intervals\<close>

type_synonym area = "nat \<times> nat"

definition disj :: "area \<Rightarrow> area \<Rightarrow> bool" where
  "disj x y \<longleftrightarrow> snd x \<le> fst y \<or> snd y \<le> fst x"

definition inside :: "area \<Rightarrow> area \<Rightarrow> bool" where
  "inside x y \<longleftrightarrow> fst y \<le> fst x \<and> snd x \<le> snd y"

lemma disj_sym: "disj x y \<longleftrightarrow> disj y x"
  by (auto simp: disj_def)

lemma disj_inside: "disj x y \<Longrightarrow> inside z y \<Longrightarrow> disj x z"
  by (auto simp: disj_def inside_def)

lemma sorted_wrt_disj_snoc: "sorted_wrt disj (xs @ [x]) \<longleftrightarrow> sorted_wrt disj xs \<and> (\<forall>y \<in> set xs. disj x y)"
  by (auto simp: sorted_wrt_append disj_sym [of x])

lemma sorted_wrt_disj_append:
  "sorted_wrt disj (xs @ ys) \<longleftrightarrow> sorted_wrt disj xs \<and> sorted_wrt disj ys \<and> (\<forall>x \<in> set xs. \<forall>y \<in> set ys. disj x y)"
  by (auto simp: sorted_wrt_append)

lemma sorted_wrt_disj_filter: "sorted_wrt disj xs \<Longrightarrow> sorted_wrt disj (filter P xs)"
  by (rule sorted_wrt_filter)

section \<open>The invariant\<close>

definition m_area :: "vm_mapping \<Rightarrow> area" where
  "m_area m = (unat (m_addr m), unat (m_addr m) + unat (m_size m))"

definition rg_area :: "region \<Rightarrow> area" where
  "rg_area r = (unat (rg_addr r), unat (rg_addr r) + unat (rg_size r))"

definition mapping_ok :: "vm_mapping \<Rightarrow> bool" where
  "mapping_ok m \<longleftrightarrow>
     4096 dvd unat (m_addr m) \<and> 4096 dvd unat (m_size m) \<and> 4096 dvd unat (m_vmo_offset m)
     \<and> 0 < unat (m_size m) \<and> unat (m_addr m) + unat (m_size m) < 2 ^ 64
     \<and> unat (m_vmo_offset m) + unat (m_size m) < 2 ^ 64
     \<and> unat (m_size m) div 4096 \<le> length (m_flags m)
     \<and> (\<forall>fl \<in> set (m_flags m). contains (m_permissions m) (fl AND MMU_RXW))"

definition areas :: "region list \<Rightarrow> vm_mapping list \<Rightarrow> area list" where
  "areas cs ms = map rg_area cs @ map m_area ms"

fun region_ok :: "region \<Rightarrow> bool"
and regions_ok :: "region list \<Rightarrow> bool" where
  "region_ok (Region f a s None) = False"
| "region_ok (Region f a s (Some (cs, ms))) \<longleftrightarrow>
     4096 dvd unat a \<and> 4096 dvd unat s \<and> 0 < unat s \<and> unat a + 2 * unat s < 2 ^ 64
     \<and> regions_ok cs \<and> list_all mapping_ok ms
     \<and> (\<forall>x \<in> set (areas cs ms). inside x (unat a, unat a + unat s))
     \<and> sorted_wrt disj (areas cs ms)"
| "regions_ok [] = True"
| "regions_ok (c # cs) \<longleftrightarrow> region_ok c \<and> regions_ok cs"

lemma regions_ok_iff: "regions_ok cs \<longleftrightarrow> list_all region_ok cs"
  by (induction cs) simp_all

text \<open>What a live region's parts are, one by one.\<close>

definition node_ok :: "usize \<Rightarrow> usize \<Rightarrow> region list \<Rightarrow> vm_mapping list \<Rightarrow> bool" where
  "node_ok a s cs ms \<longleftrightarrow>
     list_all region_ok cs \<and> list_all mapping_ok ms
     \<and> (\<forall>x \<in> set (areas cs ms). inside x (unat a, unat a + unat s)) \<and> sorted_wrt disj (areas cs ms)"

lemma region_ok_node:
  "region_ok (Region f a s (Some (cs, ms))) \<longleftrightarrow>
     4096 dvd unat a \<and> 4096 dvd unat s \<and> 0 < unat s \<and> unat a + 2 * unat s < 2 ^ 64 \<and> node_ok a s cs ms"
  by (auto simp: node_ok_def regions_ok_iff)

lemma region_ok_end: "region_ok r \<Longrightarrow> unat (rg_end r) = snd (rg_area r) \<and> 0 < unat (rg_size r) \<and> 4096 dvd unat (rg_addr r)
    \<and> 4096 dvd unat (rg_size r)"
  by (cases r rule: region_ok.cases) (auto simp: rg_end_def rg_area_def unat_word_ariths)

lemma mapping_ok_end: "mapping_ok m \<Longrightarrow> unat (m_end m) = snd (m_area m)"
  by (simp add: mapping_ok_def m_end_def m_area_def unat_word_ariths)

section \<open>Placing a new area\<close>

lemma test_map_iff:
  assumes ok: "region_ok r" "rg_inner r = Some (cs, ms)"
    and nw: "unat (rg_addr r) + unat off + unat len < 2 ^ 64"
  shows "test_map r cs ms off len \<longleftrightarrow>
     unat off + unat len \<le> unat (rg_size r)
     \<and> (\<forall>x \<in> set (areas cs ms). disj (unat (rg_addr r) + unat off, unat (rg_addr r) + unat off + unat len) x)"
proof -
  obtain f where r: "r = Region f (rg_addr r) (rg_size r) (Some (cs, ms))"
    using ok(2) by (cases r) simp
  have node: "node_ok (rg_addr r) (rg_size r) cs ms" "unat (rg_addr r) + 2 * unat (rg_size r) < 2 ^ 64"
    using ok(1) r region_ok_node by metis+
  let ?b = "rg_addr r + off"
  have b: "unat ?b = unat (rg_addr r) + unat off" using nw by (simp add: unat_word_ariths)
  have e: "unat (?b + len) = unat (rg_addr r) + unat off + unat len" using nw b by (simp add: unat_word_ariths)
  have s: "unat (rg_addr r + rg_size r) = unat (rg_addr r) + unat (rg_size r)" using node(2) by (simp add: unat_word_ariths)
  have c: "rg_overlap ?b (?b + len) c \<longleftrightarrow> \<not> disj (unat ?b, unat (?b + len)) (rg_area c)" if "c \<in> set cs" for c
    using that node(1) region_ok_end [of c]
    by (auto simp: node_ok_def list_all_iff rg_overlap_def disj_def word_le_nat_alt rg_area_def)
  have m: "m_overlap ?b (?b + len) m \<longleftrightarrow> \<not> disj (unat ?b, unat (?b + len)) (m_area m)" if "m \<in> set ms" for m
    using that node(1) mapping_ok_end [of m]
    by (auto simp: node_ok_def list_all_iff m_overlap_def disj_def word_le_nat_alt m_area_def)
  have over: "?b + len > rg_addr r + rg_size r \<longleftrightarrow> \<not> unat off + unat len \<le> unat (rg_size r)"
    by (auto simp: word_less_nat_alt e s)
  show ?thesis
    unfolding test_map_def Let_def over list_ex_iff areas_def using c m
    by (auto simp: b e)
qed

lemma find_SomeD: "find P xs = Some x \<Longrightarrow> P x \<and> x \<in> set xs"
  by (induction xs) (auto split: if_splits)

lemma find_free_area_offset:
  assumes ok: "region_ok r" "rg_inner r = Some (cs, ms)" and "unat len \<le> unat (rg_size r)"
    and f: "find_free_area r cs ms 0 len = Some off"
  shows "test_map r cs ms off len \<and> 4096 dvd unat off \<and> unat (rg_addr r) + unat off + unat len < 2 ^ 64"
proof -
  obtain fl where r: "r = Region fl (rg_addr r) (rg_size r) (Some (cs, ms))"
    using ok(2) by (cases r) simp
  have node: "node_ok (rg_addr r) (rg_size r) cs ms" and room: "unat (rg_addr r) + 2 * unat (rg_size r) < 2 ^ 64"
    and al: "4096 dvd unat (rg_addr r)"
    using ok(1) r region_ok_node by metis+
  have t: "test_map r cs ms off len"
    and mem: "off = 0 \<or> (\<exists>c \<in> set cs. off = rg_end c - rg_addr r) \<or> (\<exists>m \<in> set ms. off = m_end m - rg_addr r)"
    using find_SomeD [OF f [unfolded find_free_area_def]] by auto
  have "\<exists>e. unat off + unat (rg_addr r) = e \<and> 4096 dvd e \<and> e \<le> unat (rg_addr r) + unat (rg_size r)"
    using mem
  proof (elim disjE bexE)
    fix c assume c: "c \<in> set cs" "off = rg_end c - rg_addr r"
    then have ok': "region_ok c" "inside (rg_area c) (unat (rg_addr r), unat (rg_addr r) + unat (rg_size r))"
      using node by (auto simp: node_ok_def list_all_iff areas_def)
    note e = region_ok_end [OF ok'(1)]
    have "rg_addr r \<le> rg_end c" using e ok'(2) by (auto simp: word_le_nat_alt inside_def rg_area_def)
    then have "unat off + unat (rg_addr r) = snd (rg_area c)" using c(2) e by (simp add: unat_sub word_le_nat_alt)
    then show ?thesis using e ok'(2) by (auto simp: inside_def rg_area_def)
  next
    fix m assume m: "m \<in> set ms" "off = m_end m - rg_addr r"
    then have ok': "mapping_ok m" "inside (m_area m) (unat (rg_addr r), unat (rg_addr r) + unat (rg_size r))"
      using node by (auto simp: node_ok_def list_all_iff areas_def)
    note e = mapping_ok_end [OF ok'(1)]
    have "rg_addr r \<le> m_end m" using e ok'(2) by (auto simp: word_le_nat_alt inside_def m_area_def)
    then have "unat off + unat (rg_addr r) = snd (m_area m)" using m(2) e by (simp add: unat_sub word_le_nat_alt)
    then show ?thesis using e ok' by (auto simp: inside_def m_area_def mapping_ok_def)
  qed (use al in simp)
  then have "unat off \<le> unat (rg_size r)" "4096 dvd unat off + unat (rg_addr r)" by auto
  then show ?thesis using t room assms(3) al by (auto simp: dvd_add_left_iff)
qed


definition no_wrap :: "usize option \<Rightarrow> usize \<Rightarrow> region \<Rightarrow> bool" where
  "no_wrap offset len r \<longleftrightarrow>
     (case offset of Some off \<Rightarrow> unat (rg_addr r) + unat off + unat len < 2 ^ 64 | None \<Rightarrow> True)"

lemma determine_offset_Ok:
  assumes ok: "region_ok r" "rg_inner r = Some (cs, ms)"
    and "determine_offset r cs ms offset len align = Ok off" "4096 dvd unat align" "no_wrap offset len r"
  shows "test_map r cs ms off len \<and> 4096 dvd unat off \<and> 4096 dvd unat len
         \<and> unat (rg_addr r) + unat off + unat len < 2 ^ 64"
proof (cases offset)
  case None
  with assms have l: "unat len \<le> unat (rg_size r)" "find_free_area r cs ms 0 len = Some off" "unat align dvd unat len"
    by (auto simp: determine_offset_def check_aligned_iff word_less_nat_alt split: if_splits option.splits)
  then show ?thesis
    using find_free_area_offset [OF ok l(1,2)] assms(4) dvd_trans by blast
next
  case (Some o')
  with assms have "test_map r cs ms off len" "unat align dvd unat off" "unat align dvd unat len" "o' = off"
    by (auto simp: determine_offset_def check_aligned_iff split: if_splits)
  then show ?thesis using assms(4,5) Some dvd_trans by (auto simp: no_wrap_def)
qed

lemma placed_area:
  assumes "region_ok r" "rg_inner r = Some (cs, ms)" "test_map r cs ms off len"
    and "unat (rg_addr r) + unat off + unat len < 2 ^ 64"
  defines "x \<equiv> (unat (rg_addr r) + unat off, unat (rg_addr r) + unat off + unat len)"
  shows "inside x (unat (rg_addr r), unat (rg_addr r) + unat (rg_size r))" "\<forall>y \<in> set (areas cs ms). disj x y"
    "unat (rg_addr r + off) = fst x"
  using assms test_map_iff [OF assms(1,2,4)] by (auto simp: inside_def unat_word_ariths)

lemma node_ok_add_child:
  assumes "node_ok a s cs ms" "region_ok c" "inside (rg_area c) (unat a, unat a + unat s)"
    and "\<forall>y \<in> set (areas cs ms). disj (rg_area c) y"
  shows "node_ok a s (cs @ [c]) ms"
  using assms by (auto simp: node_ok_def areas_def sorted_wrt_disj_append disj_sym [of "rg_area c"])

lemma node_ok_add_mapping:
  assumes "node_ok a s cs ms" "mapping_ok m" "inside (m_area m) (unat a, unat a + unat s)"
    and "\<forall>y \<in> set (areas cs ms). disj (m_area m) y"
  shows "node_ok a s cs (ms @ [m])"
  using assms by (auto simp: node_ok_def areas_def sorted_wrt_disj_append disj_sym [of "m_area m"])

lemma vmar_allocate_ok:
  assumes "region_ok r" "0 < len" "4096 dvd unat align" "no_wrap offset len r"
    and "vmar_allocate offset len flags align r = (res, r')"
  shows "region_ok r' \<and> rg_area r' = rg_area r \<and>
     (\<forall>c. res = Ok c \<longrightarrow> region_ok c \<and> inside (rg_area c) (rg_area r) \<and> unat (rg_size c) = unat len)"
proof -
  obtain f a s cs ms where r: "r = Region f a s (Some (cs, ms))"
    using assms(1) by (cases r rule: region_ok.cases) auto
  note node = assms(1) [unfolded r region_ok_node]
  show ?thesis
  proof (cases "determine_offset r cs ms offset len align")
    case (Ok off)
    let ?c = "Region flags (a + off) len (Some ([], []))"
    have d: "test_map r cs ms off len" "4096 dvd unat off" "4096 dvd unat len" "unat a + unat off + unat len < 2 ^ 64"
      using determine_offset_Ok [OF assms(1) _ Ok assms(3,4)] by (auto simp: r)
    have p: "inside (unat a + unat off, unat a + unat off + unat len) (unat a, unat a + unat s)"
      "\<forall>y \<in> set (areas cs ms). disj (unat a + unat off, unat a + unat off + unat len) y"
      "unat (a + off) = unat a + unat off"
      using placed_area [of r cs ms off len] assms(1) d(1,4) r by auto
    have area: "rg_area ?c = (unat a + unat off, unat a + unat off + unat len)"
      using p(3) by (simp add: rg_area_def)
    have c: "region_ok ?c"
      using node d assms(2) p(1,3) by (auto simp: areas_def inside_def word_less_nat_alt)
    moreover have "node_ok a s (cs @ [?c]) ms"
      using node c p area by (intro node_ok_add_child) auto
    ultimately show ?thesis
      using assms(5) node p(1) area Ok by (auto simp: r region_ok_node rg_area_def simp del: region_ok.simps)
  qed (use assms r in auto)
qed


section \<open>Cutting a mapping\<close>

text \<open>What a mapping says of an address: the VM object, the offset in it, and the flags of the page.\<close>

definition m_at :: "nat \<Rightarrow> vm_mapping \<Rightarrow> (nat \<times> nat \<times> mmu_flags) option" where
  "m_at v m =
     (if unat (m_addr m) \<le> v \<and> v < unat (m_addr m) + unat (m_size m)
      then Some (m_vmo m, unat (m_vmo_offset m) + (v - unat (m_addr m)),
                 m_flags m ! ((v - unat (m_addr m)) div 4096))
      else None)"

definition pieces :: "vm_mapping \<Rightarrow> vm_mapping option \<Rightarrow> vm_mapping list" where
  "pieces m new = (if m_size m > 0 then [m] else []) @ (case new of None \<Rightarrow> [] | Some n \<Rightarrow> [n])"

definition cut_right :: "nat \<Rightarrow> nat \<Rightarrow> vm_mapping \<Rightarrow> vm_mapping list \<Rightarrow> bool" where
  "cut_right b e m ls \<longleftrightarrow>
     list_all mapping_ok ls \<and> sorted_wrt disj (map m_area ls)
     \<and> (\<forall>x \<in> set ls. inside (m_area x) (m_area m) \<and> disj (m_area x) (b, e) \<and> m_permissions x = m_permissions m)
     \<and> (\<forall>v y. (\<exists>x \<in> set ls. m_at v x = Some y) \<longleftrightarrow> m_at v m = Some y \<and> \<not> (b \<le> v \<and> v < e))"

text \<open>A piece of a mapping: the part from \<open>lo\<close> to \<open>hi\<close>, with the offset and the flags that belong to it.\<close>

definition piece_of :: "vm_mapping \<Rightarrow> nat \<Rightarrow> nat \<Rightarrow> vm_mapping \<Rightarrow> bool" where
  "piece_of m lo hi x \<longleftrightarrow>
     unat (m_addr x) = lo \<and> unat (m_size x) = hi - lo \<and> m_vmo x = m_vmo m \<and> m_permissions x = m_permissions m
     \<and> unat (m_vmo_offset x) = unat (m_vmo_offset m) + (lo - unat (m_addr m))
     \<and> (hi - lo) div 4096 \<le> length (m_flags x) \<and> set (m_flags x) \<subseteq> set (m_flags m)
     \<and> (\<forall>i < (hi - lo) div 4096. m_flags x ! i = m_flags m ! ((lo - unat (m_addr m)) div 4096 + i))"

lemma piece_ok:
  assumes "mapping_ok m" "piece_of m lo hi x" "4096 dvd lo" "4096 dvd hi" "lo < hi"
    and "unat (m_addr m) \<le> lo" "hi \<le> unat (m_addr m) + unat (m_size m)"
  shows "mapping_ok x \<and> m_area x = (lo, hi)"
  using assms by (auto simp: mapping_ok_def piece_of_def m_area_def dvd_diff_nat)

lemma piece_at:
  assumes "mapping_ok m" "piece_of m lo hi x" "4096 dvd lo" "4096 dvd hi" "lo < hi"
    and "unat (m_addr m) \<le> lo" "hi \<le> unat (m_addr m) + unat (m_size m)"
  shows "m_at v x = (if lo \<le> v \<and> v < hi then m_at v m else None)"
proof (cases "lo \<le> v \<and> v < hi")
  case True
  let ?A = "unat (m_addr m)"
  have "(v - lo) div 4096 < (hi - lo) div 4096"
    using True assms(3,4) by (auto elim!: dvdE) (simp add: less_mult_imp_div_less diff_mult_distrib2 [symmetric] mult.commute)
  moreover have "(lo - ?A) div 4096 + (v - lo) div 4096 = (v - ?A) div 4096"
  proof -
    have "4096 dvd lo - ?A" using assms(1,3) by (simp add: mapping_ok_def dvd_diff_nat)
    then have "(lo - ?A) div 4096 + (v - lo) div 4096 = (lo - ?A + (v - lo)) div 4096" by (rule div_plus_div_distrib_dvd_left [symmetric])
    also have "lo - ?A + (v - lo) = v - ?A" using True assms(6) by simp
    finally show ?thesis .
  qed
  ultimately show ?thesis
    using True assms(2,6,7) by (auto simp: m_at_def piece_of_def)
next
  case False
  then show ?thesis using assms(2,5) by (auto simp: m_at_def piece_of_def)
qed

lemma cut_right_one:
  assumes "mapping_ok m" "piece_of m lo hi x" "4096 dvd lo" "4096 dvd hi" "lo < hi"
    and "unat (m_addr m) \<le> lo" "hi \<le> unat (m_addr m) + unat (m_size m)"
    and "hi \<le> b \<or> e \<le> lo"
    and "\<And>v. unat (m_addr m) \<le> v \<Longrightarrow> v < unat (m_addr m) + unat (m_size m) \<Longrightarrow> \<not> (b \<le> v \<and> v < e) \<longleftrightarrow> lo \<le> v \<and> v < hi"
  shows "cut_right b e m [x]"
  using assms piece_ok [OF assms(1-7)] piece_at [OF assms(1-7)]
  by (auto simp: cut_right_def inside_def disj_def m_area_def [of m] piece_of_def m_at_def [of _ m] split: if_splits)

lemma cut_right_two:
  assumes "mapping_ok m" "piece_of m (unat (m_addr m)) b x" "piece_of m e (unat (m_addr m) + unat (m_size m)) y"
    and "4096 dvd b" "4096 dvd e" "unat (m_addr m) < b" "b < e" "e < unat (m_addr m) + unat (m_size m)"
  shows "cut_right b e m [x, y]"
proof -
  have d: "4096 dvd unat (m_addr m)" "4096 dvd unat (m_addr m) + unat (m_size m)" using assms(1) by (simp_all add: mapping_ok_def)
  note x = piece_ok [OF assms(1,2) d(1) assms(4,6)] piece_at [OF assms(1,2) d(1) assms(4,6)]
  note y = piece_ok [OF assms(1,3,5) d(2) assms(8)] piece_at [OF assms(1,3,5) d(2) assms(8)]
  show ?thesis
    using x y assms
    by (auto simp: cut_right_def inside_def disj_def m_area_def [of m] piece_of_def m_at_def [of _ m] split: if_splits)
qed


lemma cut_right_same:
  assumes "mapping_ok m" "disj (m_area m) (b, e)"
  shows "cut_right b e m [m]"
  using assms by (auto simp: cut_right_def inside_def disj_def m_area_def m_at_def)

lemma cut_right_none:
  assumes "b \<le> unat (m_addr m)" "unat (m_addr m) + unat (m_size m) \<le> e"
  shows "cut_right b e m []"
  using assms by (auto simp: cut_right_def m_at_def)

lemma take_nth_le: "i < n \<Longrightarrow> n \<le> k \<Longrightarrow> take k xs ! i = xs ! i"
  by simp

lemma sum_le_diff: "a + b = c \<Longrightarrow> c \<le> n \<Longrightarrow> b \<le> n - (a :: nat)"
  by simp

lemma sum_le_left: "a + b = c \<Longrightarrow> c \<le> n \<Longrightarrow> a \<le> (n :: nat)"
  by simp

lemma unat_plus_diff:
  fixes x y z :: usize
  assumes "z \<le> y" "unat x + (unat y - unat z) < 2 ^ 64"
  shows "unat (x + (y - z)) = unat x + (unat y - unat z)"
  using assms by (simp add: unat_word_ariths unat_sub)

lemma cut_front:
  assumes ok: "mapping_ok m" and al: "4096 dvd unat e"
    and r: "b \<le> m_addr m" "m_addr m < e" "unat e < unat (m_addr m) + unat (m_size m)"
  shows "\<exists>m' new cmds. cut b e m = Ok (m', new, cmds) \<and> cut_right (unat b) (unat e) m (pieces m' new)"
proof -
  let ?A = "unat (m_addr m)" and ?S = "unat (m_size m)" and ?E = "unat e" and ?l = "e - m_addr m"
  let ?x = "m\<lparr>m_addr := e, m_size := m_size m - ?l, m_vmo_offset := m_vmo_offset m + ?l,
             m_flags := drop (unat (pages ?l)) (m_flags m)\<rparr>"
  note m = ok [unfolded mapping_ok_def]
  have end_m: "unat (m_end m) = ?A + ?S" using mapping_ok_end [OF ok] by (simp add: m_area_def)
  have l: "unat ?l = ?E - ?A" using r by (simp add: unat_sub)
  have pl: "unat (pages ?l) = (?E - ?A) div 4096" using l al m by (simp add: unat_pages_aligned dvd_diff_nat)
  have q: "(?E - ?A) div 4096 + (?A + ?S - ?E) div 4096 = ?S div 4096"
  proof -
    have "(?E - ?A) div 4096 + (?A + ?S - ?E) div 4096 = (?E - ?A + (?A + ?S - ?E)) div 4096"
      using al m by (intro div_plus_div_distrib_dvd_left [symmetric]) (simp add: dvd_diff_nat)
    then show ?thesis using r by (simp add: word_less_nat_alt)
  qed
  have sz: "unat (m_size m - ?l) = ?A + ?S - ?E" using l r by (simp add: unat_sub word_le_nat_alt word_less_nat_alt)
  note fl = sum_le_diff [OF q, of "length (m_flags m)"] sum_le_left [OF q, of "length (m_flags m)"]
  have off: "unat (m_vmo_offset m + (e - m_addr m)) = unat (m_vmo_offset m) + (?E - ?A)"
  proof (rule unat_plus_diff)
    show "m_addr m \<le> e" using r by simp
    show "unat (m_vmo_offset m) + (?E - ?A) < 2 ^ 64" using r m by linarith
  qed
  have "piece_of m ?E (?A + ?S) ?x"
    using l r m pl fl sz off
    by (auto simp: piece_of_def word_less_nat_alt word_le_nat_alt dest: in_set_dropD)
  then have "cut_right (unat b) ?E m [?x]"
    by (rule cut_right_one [OF ok]) (use r m al in \<open>auto simp: word_less_nat_alt word_le_nat_alt\<close>)
  moreover have "cut b e m = Ok (?x, None, [PtUnmapCont (m_addr m) ?l])"
    using r m pl fl by (auto simp: cut_def m_overlap_def word_le_nat_alt word_less_nat_alt end_m)
  ultimately show ?thesis
    using sz r by (auto simp: pieces_def word_less_nat_alt)
qed

lemma cut_tail:
  assumes ok: "mapping_ok m" and al: "4096 dvd unat b"
    and r: "m_addr m < b" "unat b < unat (m_addr m) + unat (m_size m)" "unat (m_addr m) + unat (m_size m) \<le> unat e"
  shows "\<exists>m' new cmds. cut b e m = Ok (m', new, cmds) \<and> cut_right (unat b) (unat e) m (pieces m' new)"
proof -
  let ?A = "unat (m_addr m)" and ?S = "unat (m_size m)" and ?B = "unat b" and ?l = "b - m_addr m"
  let ?x = "m\<lparr>m_size := ?l, m_flags := take (unat ?l) (m_flags m)\<rparr>"
  note m = ok [unfolded mapping_ok_def]
  have end_m: "unat (m_end m) = ?A + ?S" using mapping_ok_end [OF ok] by (simp add: m_area_def)
  have l: "unat ?l = ?B - ?A" using r by (simp add: unat_sub)
  have "(?B - ?A) div 4096 \<le> ?S div 4096" using r by (intro div_le_mono) auto
  then have "piece_of m ?A ?B ?x"
    using l r m by (auto simp: piece_of_def word_less_nat_alt dest: in_set_takeD)
  then have "cut_right ?B (unat e) m [?x]"
    by (rule cut_right_one [OF ok]) (use r m al in \<open>auto simp: word_less_nat_alt\<close>)
  moreover have "cut b e m = Ok (?x, None, [PtUnmapCont b (m_end m - b)])"
    using r m by (auto simp: cut_def m_overlap_def word_le_nat_alt word_less_nat_alt end_m)
  ultimately show ?thesis
    using l r by (auto simp: pieces_def word_less_nat_alt)
qed

lemma front_flags:
  assumes "n \<le> l" "n \<le> k" "k \<le> length fs"
  shows "n \<le> length (take l (take k fs @ gs)) \<and> (\<forall>i < n. take l (take k fs @ gs) ! i = fs ! i)"
  using assms by (auto simp: nth_append)

lemma back_flags:
  assumes "k + n = h" "h \<le> length fs"
  shows "n \<le> length (take (h - k) (drop k fs)) \<and> (\<forall>i < n. take (h - k) (drop k fs) ! i = fs ! (k + i))"
  using assms by auto

lemma set_front_flags: "set (take l (take k fs @ drop h fs)) \<subseteq> set fs"
  by (auto dest!: in_set_takeD dest: in_set_takeD in_set_dropD)

lemma cut_mid:
  assumes ok: "mapping_ok m" and al: "4096 dvd unat b" "4096 dvd unat e"
    and r: "m_addr m < b" "b < e" "unat e < unat (m_addr m) + unat (m_size m)"
  shows "\<exists>m' new cmds. cut b e m = Ok (m', new, cmds) \<and> cut_right (unat b) (unat e) m (pieces m' new)"
proof -
  let ?A = "unat (m_addr m)" and ?S = "unat (m_size m)" and ?B = "unat b" and ?E = "unat e"
  let ?l1 = "b - m_addr m" and ?l2 = "m_end m - e"
  let ?lo = "unat (pages (m_size m) - pages ?l2)" and ?hi = "unat (pages (m_size m))"
  let ?G = "take (unat ?l1) (take ?lo (m_flags m) @ drop ?hi (m_flags m))"
  let ?x = "m\<lparr>m_size := ?l1, m_flags := ?G\<rparr>"
  let ?H = "take (?hi - ?lo) (drop ?lo (m_flags m))"
  let ?y = "m\<lparr>m_flags := ?H, m_addr := e, m_size := ?l2,
              m_vmo_offset := m_vmo_offset m + (e - m_addr m)\<rparr>"
  note m = ok [unfolded mapping_ok_def]
  have end_m: "unat (m_end m) = ?A + ?S" using mapping_ok_end [OF ok] by (simp add: m_area_def)
  have l: "unat ?l1 = ?B - ?A" "unat ?l2 = ?A + ?S - ?E" "unat (e - m_addr m) = ?E - ?A"
    using r by (simp_all add: unat_sub word_le_nat_alt word_less_nat_alt end_m)
  have hi: "?hi = ?S div 4096" using m by (simp add: unat_pages_aligned)
  have p2: "unat (pages ?l2) = (?A + ?S - ?E) div 4096" using l(2) al m by (simp add: unat_pages_aligned dvd_diff_nat)
  have q: "(?E - ?A) div 4096 + (?A + ?S - ?E) div 4096 = ?S div 4096"
  proof -
    have "(?E - ?A) div 4096 + (?A + ?S - ?E) div 4096 = (?E - ?A + (?A + ?S - ?E)) div 4096"
      using al m by (intro div_plus_div_distrib_dvd_left [symmetric]) (simp add: dvd_diff_nat)
    then show ?thesis using r by (simp add: word_less_nat_alt)
  qed
  have lo: "?lo = (?E - ?A) div 4096"
    using p2 hi by (metis q add_diff_cancel_right' le_add2 unat_sub word_le_nat_alt)
  note fl = sum_le_diff [OF q, of "length (m_flags m)"] sum_le_left [OF q, of "length (m_flags m)"]
    sum_le_left [OF q, of ?hi] sum_le_diff [OF q, of ?hi]
  have b1: "(?B - ?A) div 4096 \<le> ?B - ?A" "(?B - ?A) div 4096 \<le> (?E - ?A) div 4096"
    using r by (auto intro: div_le_mono simp: word_less_nat_alt)
  have off: "unat (m_vmo_offset m + (e - m_addr m)) = unat (m_vmo_offset m) + (?E - ?A)"
  proof (rule unat_plus_diff)
    show "m_addr m \<le> e" using r by simp
    show "unat (m_vmo_offset m) + (?E - ?A) < 2 ^ 64" using r m by linarith
  qed
  have ff: "(?B - ?A) div 4096 \<le> length ?G \<and> (\<forall>i < (?B - ?A) div 4096. ?G ! i = m_flags m ! i)"
  proof (rule front_flags)
    show "(?B - ?A) div 4096 \<le> unat ?l1" using b1(1) l(1) by simp
    show "(?B - ?A) div 4096 \<le> ?lo" using b1(2) lo by (simp only:)
    show "?lo \<le> length (m_flags m)" using fl(2) lo m by (simp only:)
  qed
  with set_front_flags [of "unat ?l1" ?lo "m_flags m" ?hi] have "piece_of m ?A ?B ?x"
    unfolding piece_of_def by (simp add: l(1) del: length_take nth_take)
  moreover have "piece_of m ?E (?A + ?S) ?y"
  proof -
    have "?lo + (?A + ?S - ?E) div 4096 = ?hi" "?hi \<le> length (m_flags m)" using q lo hi m by (simp_all only:)
    note back_flags [OF this]
    moreover have "set ?H \<subseteq> set (m_flags m)" by (auto dest!: in_set_takeD dest: in_set_dropD)
    ultimately show ?thesis
      unfolding piece_of_def by (simp add: l(2) off lo [symmetric] del: length_take nth_take)
  qed
  ultimately have "cut_right ?B ?E m [?x, ?y]"
    by (rule cut_right_two [OF ok]) (use r m al in \<open>auto simp: word_less_nat_alt\<close>)
  moreover have "cut b e m = Ok (?x, Some ?y, [PtUnmapCont b (e - b)])"
    using r m lo hi fl by (auto simp: cut_def m_overlap_def word_le_nat_alt word_less_nat_alt end_m)
  ultimately show ?thesis
    using l r by (auto simp: pieces_def word_less_nat_alt)
qed

lemma cut_ok:
  assumes ok: "mapping_ok m" and al: "4096 dvd unat b" "4096 dvd unat e" and be: "b < e"
  shows "\<exists>m' new cmds. cut b e m = Ok (m', new, cmds) \<and> cut_right (unat b) (unat e) m (pieces m' new)"
proof -
  let ?A = "unat (m_addr m)" and ?S = "unat (m_size m)" and ?B = "unat b" and ?E = "unat e"
  have end_m: "unat (m_end m) = ?A + ?S" "0 < ?S"
    using mapping_ok_end [OF ok] ok by (auto simp: m_area_def mapping_ok_def)
  consider (out) "?A \<ge> ?E \<or> ?A + ?S \<le> ?B" | (whole) "?B \<le> ?A" "?A + ?S \<le> ?E"
    | (front) "?B \<le> ?A" "?A < ?E" "?E < ?A + ?S" | (end_part) "?A < ?B" "?B < ?A + ?S" "?A + ?S \<le> ?E"
    | (mid) "?A < ?B" "?E < ?A + ?S"
    by linarith
  then show ?thesis
  proof cases
    case out
    then show ?thesis
      using end_m cut_right_same [OF ok, of ?B ?E]
      by (auto simp: cut_def m_overlap_def word_le_nat_alt pieces_def disj_def m_area_def word_less_nat_alt)
  next
    case whole
    then have "cut b e m = Ok (m\<lparr>m_size := 0, m_flags := []\<rparr>, None, [PtUnmapCont (m_addr m) (m_size m)])"
      using end_m be by (auto simp: cut_def m_overlap_def word_le_nat_alt word_less_nat_alt)
    then show ?thesis
      using cut_right_none [of ?B m ?E] whole by (auto simp: pieces_def)
  qed (use ok al be cut_front cut_tail cut_mid in \<open>auto simp: word_le_nat_alt word_less_nat_alt\<close>)
qed

section \<open>Unmapping a range\<close>

definition maps :: "vm_mapping list \<Rightarrow> nat \<Rightarrow> nat \<times> nat \<times> mmu_flags \<Rightarrow> bool" where
  "maps ms v y \<longleftrightarrow> (\<exists>x \<in> set ms. m_at v x = Some y)"

lemma maps_simps [simp]:
  "maps [] v y = False" "maps (m # ms) v y \<longleftrightarrow> m_at v m = Some y \<or> maps ms v y"
  "maps (ms @ ns) v y \<longleftrightarrow> maps ms v y \<or> maps ns v y"
  by (auto simp: maps_def)

lemma merge_disj:
  assumes "sorted_wrt disj (p @ q)" "sorted_wrt disj (s @ n)" "\<forall>x \<in> set (p @ q). \<forall>y \<in> set (s @ n). disj x y"
  shows "sorted_wrt disj ((p @ s) @ (q @ n))"
proof -
  have "\<forall>x \<in> set (p @ q). \<forall>y \<in> set (s @ n). disj y x" using assms(3) by (simp add: disj_sym)
  with assms show ?thesis by (simp add: sorted_wrt_disj_append ball_Un)
qed

lemma cut_right_maps: "cut_right b e m ls \<Longrightarrow> maps ls v y \<longleftrightarrow> m_at v m = Some y \<and> \<not> (b \<le> v \<and> v < e)"
  unfolding cut_right_def maps_def by blast

lemma cut_right_elem:
  "cut_right b e m ls \<Longrightarrow> x \<in> set ls
   \<Longrightarrow> mapping_ok x \<and> disj (m_area x) (b, e) \<and> inside (m_area x) (m_area m) \<and> m_permissions x = m_permissions m"
  unfolding cut_right_def list_all_iff by blast

lemma cut_all_ok:
  assumes "4096 dvd unat b" "4096 dvd unat e" "b < e" "list_all mapping_ok ms" "sorted_wrt disj (map m_area ms)"
  shows "\<exists>stay news cmds. cut_all b e ms = Ok (stay, news, cmds) \<and> list_all mapping_ok (stay @ news)
    \<and> sorted_wrt disj (map m_area (stay @ news))
    \<and> (\<forall>x \<in> set (stay @ news). disj (m_area x) (unat b, unat e) \<and>
         (\<exists>m \<in> set ms. inside (m_area x) (m_area m) \<and> m_permissions x = m_permissions m))
    \<and> (\<forall>v y. maps (stay @ news) v y \<longleftrightarrow> maps ms v y \<and> \<not> (unat b \<le> v \<and> v < unat e))"
  using assms(4,5)
proof (induction ms)
  case (Cons m ms)
  obtain m' new cmds where c: "cut b e m = Ok (m', new, cmds)" "cut_right (unat b) (unat e) m (pieces m' new)"
    using cut_ok [of m, OF _ assms(1-3)] Cons.prems by auto
  obtain stay news cmds' where r: "cut_all b e ms = Ok (stay, news, cmds')" "list_all mapping_ok (stay @ news)"
    "sorted_wrt disj (map m_area (stay @ news))"
    "\<forall>x \<in> set (stay @ news). disj (m_area x) (unat b, unat e) \<and>
         (\<exists>m \<in> set ms. inside (m_area x) (m_area m) \<and> m_permissions x = m_permissions m)"
    "\<forall>v y. maps (stay @ news) v y \<longleftrightarrow> maps ms v y \<and> \<not> (unat b \<le> v \<and> v < unat e)"
    using Cons by auto
  let ?p = "if m_size m' > 0 then [m'] else []" and ?q = "case new of None \<Rightarrow> [] | Some n \<Rightarrow> [n]"
  have pq: "?p @ ?q = pieces m' new" by (simp add: pieces_def)
  have cross: "disj (m_area x) (m_area y)" if xy: "x \<in> set (?p @ ?q)" "y \<in> set (stay @ news)" for x y
  proof -
    have "inside (m_area x) (m_area m)" using xy(1) c(2) by (simp add: pq cut_right_def)
    moreover obtain z where "z \<in> set ms" "inside (m_area y) (m_area z)" using xy(2) r(4) by blast
    moreover have "disj (m_area m) (m_area z)" using Cons.prems(2) \<open>z \<in> set ms\<close> by simp
    ultimately show ?thesis by (metis disj_inside disj_sym)
  qed
  have "sorted_wrt disj ((map m_area ?p @ map m_area stay) @ (map m_area ?q @ map m_area news))"
  proof (rule merge_disj)
    show "sorted_wrt disj (map m_area ?p @ map m_area ?q)" using c(2) by (simp only: map_append [symmetric] pq cut_right_def)
  qed (use r(3) cross in auto)
  then have sorted: "sorted_wrt disj (map m_area ((?p @ stay) @ (?q @ news)))" by (simp only: map_append)
  have run: "cut_all b e (m # ms) = Ok (?p @ stay, ?q @ news, cmds @ cmds')"
    using c(1) r(1) by (auto split: option.splits)
  have at: "\<And>v y. maps (?p @ ?q) v y \<longleftrightarrow> m_at v m = Some y \<and> \<not> (unat b \<le> v \<and> v < unat e)"
    and el: "\<And>x. x \<in> set (?p @ ?q) \<Longrightarrow> mapping_ok x \<and> disj (m_area x) (unat b, unat e) \<and> inside (m_area x) (m_area m)
        \<and> m_permissions x = m_permissions m"
    unfolding pq using cut_right_maps [OF c(2)] cut_right_elem [OF c(2)] by blast+
  have mem: "set ((?p @ stay) @ (?q @ news)) = set (?p @ ?q) \<union> set (stay @ news)" by (simp only: set_append) blast
  show ?case
  proof (intro exI conjI allI)
    show "cut_all b e (m # ms) = Ok (?p @ stay, ?q @ news, cmds @ cmds')" by (rule run)
    show "list_all mapping_ok ((?p @ stay) @ (?q @ news))"
      unfolding list_all_iff mem using el r(2) [unfolded list_all_iff] by blast
    show "sorted_wrt disj (map m_area ((?p @ stay) @ (?q @ news)))" by (rule sorted)
    show "\<forall>x \<in> set ((?p @ stay) @ (?q @ news)). disj (m_area x) (unat b, unat e) \<and>
         (\<exists>n \<in> set (m # ms). inside (m_area x) (m_area n) \<and> m_permissions x = m_permissions n)"
      unfolding mem set_simps using el r(4) by blast
    show "maps ((?p @ stay) @ (?q @ news)) v y \<longleftrightarrow> maps (m # ms) v y \<and> \<not> (unat b \<le> v \<and> v < unat e)" for v y
      using at [of v y] r(5) by (simp only: maps_simps) blast
  qed
qed simp

lemma destroy_internal_Ok:
  "region_ok r \<Longrightarrow> fst (destroy_internal r) = Ok ()"
  "regions_ok cs \<Longrightarrow> fst (destroy_all cs) = Ok ()"
  by (induction r and cs rule: destroy_internal_destroy_all.induct) (auto split: result.splits prod.splits)

lemma drop_within_ok:
  "list_all region_ok cs \<Longrightarrow> \<exists>cmds. drop_within b e cs = (Ok (), filter (\<lambda>c. \<not> rg_within b e c) cs, cmds)"
proof (induction cs)
  case (Cons c cs)
  then show ?case
    using destroy_internal_Ok(1) [of c] by (cases "destroy_internal c") (auto split: prod.splits)
qed simp

end
