(* ===== verification/Address_Ops.thy ===== *)
theory Address_Ops
  imports Address_Space
begin

text \<open>
  The operations of an address region keep the address space invariant, and what each of them does to
  the translations of the region.
\<close>

section \<open>Unmapping\<close>

lemma node_ok_parts:
  assumes "node_ok a s cs ms"
  shows "list_all region_ok cs" "list_all mapping_ok ms" "sorted_wrt disj (map m_area ms)" "sorted_wrt disj (map rg_area cs)"
    "\<And>c. c \<in> set cs \<Longrightarrow> inside (rg_area c) (unat a, unat a + unat s)"
    "\<And>m. m \<in> set ms \<Longrightarrow> inside (m_area m) (unat a, unat a + unat s)"
    "\<And>c m. c \<in> set cs \<Longrightarrow> m \<in> set ms \<Longrightarrow> disj (rg_area c) (m_area m)"
  using assms by (auto simp: node_ok_def areas_def sorted_wrt_append)

lemma node_okI:
  assumes "list_all region_ok cs" "list_all mapping_ok ms" "sorted_wrt disj (map m_area ms)" "sorted_wrt disj (map rg_area cs)"
    "\<And>c. c \<in> set cs \<Longrightarrow> inside (rg_area c) (unat a, unat a + unat s)"
    "\<And>m. m \<in> set ms \<Longrightarrow> inside (m_area m) (unat a, unat a + unat s)"
    "\<And>c m. c \<in> set cs \<Longrightarrow> m \<in> set ms \<Longrightarrow> disj (rg_area c) (m_area m)"
  shows "node_ok a s cs ms"
  using assms by (auto simp: node_ok_def areas_def sorted_wrt_append)

lemma inside_trans: "inside x y \<Longrightarrow> inside y z \<Longrightarrow> inside x z"
  by (auto simp: inside_def)

lemma outside_child:
  assumes "region_ok c" "\<not> partial_overlap b e c" "\<not> rg_within b e c"
  shows "disj (rg_area c) (unat b, unat e)"
  using assms region_ok_end [OF assms(1)]
  by (auto simp: partial_overlap_def rg_overlap_def disj_def rg_area_def word_le_nat_alt)

lemma unmap_inner_ok:
  assumes node: "node_ok a s cs ms" and nw: "unat addr + unat len < 2 ^ 64"
    and run: "unmap_inner addr len cs ms = (res, cs', ms', cmds)"
  shows "node_ok a s cs' ms'
    \<and> (res = Ok () \<and> cs' = filter (\<lambda>c. \<not> rg_within addr (addr + len) c) cs
         \<and> (\<forall>x \<in> set (areas cs' ms'). disj x (unat addr, unat addr + unat len))
         \<and> (\<forall>v y. maps ms' v y \<longleftrightarrow> maps ms v y \<and> \<not> (unat addr \<le> v \<and> v < unat addr + unat len))
       \<or> res = Err INVALID_ARGS \<and> cs' = cs \<and> ms' = ms)"
proof (cases "\<not> page_aligned addr \<or> \<not> page_aligned len \<or> len = 0 \<or> list_ex (partial_overlap addr (addr + len)) cs")
  case True
  then show ?thesis using run node by (auto simp: unmap_inner_def split: if_splits)
next
  case False
  let ?e = "addr + len"
  note p = node_ok_parts [OF node]
  have e: "unat ?e = unat addr + unat len" using nw by (simp add: unat_word_ariths)
  have al: "4096 dvd unat addr" "4096 dvd unat ?e" using False by (auto simp: page_aligned_iff e)
  have lt: "addr < ?e" using False e by (simp add: word_less_nat_alt unat_gt_0)
  obtain stay news c1 where c: "cut_all addr ?e ms = Ok (stay, news, c1)" "list_all mapping_ok (stay @ news)"
    "sorted_wrt disj (map m_area (stay @ news))"
    "\<forall>x \<in> set (stay @ news). disj (m_area x) (unat addr, unat ?e) \<and>
         (\<exists>m \<in> set ms. inside (m_area x) (m_area m) \<and> m_permissions x = m_permissions m)"
    "\<forall>v y. maps (stay @ news) v y \<longleftrightarrow> maps ms v y \<and> \<not> (unat addr \<le> v \<and> v < unat ?e)"
    using cut_all_ok [OF al lt p(2,3)] by blast
  obtain c2 where d: "drop_within addr ?e cs = (Ok (), filter (\<lambda>c. \<not> rg_within addr ?e c) cs, c2)"
    using drop_within_ok [OF p(1)] by blast
  have r: "res = Ok ()" "cs' = filter (\<lambda>c. \<not> rg_within addr ?e c) cs" "ms' = stay @ news"
    using run False c(1) d by (auto simp: unmap_inner_def)
  have out: "disj (rg_area x) (unat addr, unat ?e)" if "x \<in> set cs'" for x
    using that r(2) False p(1) by (auto simp: list_all_iff list_ex_iff intro!: outside_child)
  have "node_ok a s cs' ms'"
  proof (rule node_okI)
    show "sorted_wrt disj (map rg_area cs')"
      using p(4) r(2) by (auto simp: sorted_wrt_map intro: sorted_wrt_filter)
    show "inside (m_area m) (unat a, unat a + unat s)" if "m \<in> set ms'" for m
      using c(4) p(6) that r(3) inside_trans by blast
    show "disj (rg_area x) (m_area m)" if "x \<in> set cs'" "m \<in> set ms'" for x m
      using c(4) p(7) [of x] that r disj_inside by (metis filter_is_subset subset_code(1))
  qed (use p c r in \<open>auto simp: list_all_iff\<close>)
  then show ?thesis using r c(4,5) out by (auto simp: areas_def e)
qed

section \<open>Lookups\<close>

lemma m_contains_iff: "mapping_ok m \<Longrightarrow> m_contains v m \<longleftrightarrow> (\<exists>y. m_at (unat v) m = Some y)"
  using mapping_ok_end [of m] by (auto simp: m_contains_def m_at_def m_area_def word_le_nat_alt word_less_nat_alt)

lemma m_at_flags:
  assumes "mapping_ok m" "m_at (unat v) m = Some (vmo, off, fl)"
  shows "unat ((v - m_addr m) div PAGE_SIZE) < length (m_flags m) \<and> m_flags m ! unat ((v - m_addr m) div PAGE_SIZE) = fl"
proof -
  have r: "unat (m_addr m) \<le> unat v" "unat v < unat (m_addr m) + unat (m_size m)"
    "fl = m_flags m ! ((unat v - unat (m_addr m)) div 4096)"
    using assms(2) by (auto simp: m_at_def split: if_splits)
  then have "unat ((v - m_addr m) div PAGE_SIZE) = (unat v - unat (m_addr m)) div 4096"
    by (simp add: unat_div unat_sub word_le_nat_alt PAGE_SIZE_def)
  moreover have "(unat v - unat (m_addr m)) div 4096 < unat (m_size m) div 4096"
    using r(1,2) assms(1) by (auto simp: mapping_ok_def less_mult_imp_div_less elim!: dvdE)
  ultimately show ?thesis using r(3) assms(1) by (simp add: mapping_ok_def)
qed

text \<open>The flags a list of mappings gives an address, as \<^verbatim>\<open>get_mapping_flags\<close> reads them.\<close>

definition flags_at :: "usize \<Rightarrow> vm_mapping list \<Rightarrow> mmu_flags paging_result" where
  "flags_at v ms =
     (case find (m_contains v) ms of
        Some m \<Rightarrow> (let i = unat ((v - m_addr m) div PAGE_SIZE) in if i < length (m_flags m) then Ok (m_flags m ! i) else Err NotMapped)
      | None \<Rightarrow> Err NoMemory)"

lemma get_mapping_flags_at:
  "get_mapping_flags v (Region f a s (Some (cs, ms))) =
     (if \<not> rg_contains v (Region f a s (Some (cs, ms))) then Err NotMapped
      else case flags_in_children v cs of Some r \<Rightarrow> r | None \<Rightarrow> flags_at v ms)"
  unfolding get_mapping_flags.simps flags_at_def ..

lemma disj_or_same:
  "sorted_wrt disj (map m_area ms) \<Longrightarrow> m \<in> set ms \<Longrightarrow> n \<in> set ms \<Longrightarrow> m = n \<or> disj (m_area m) (m_area n)"
  by (induction ms) (auto intro: disj_sym [THEN iffD1])

lemma maps_unique:
  assumes "sorted_wrt disj (map m_area ms)" "maps ms v y" "maps ms v z"
  shows "y = z"
proof -
  obtain m n where mn: "m \<in> set ms" "m_at v m = Some y" "n \<in> set ms" "m_at v n = Some z"
    using assms(2,3) by (auto simp: maps_def)
  have "\<not> disj (m_area m) (m_area n)"
    using mn by (auto simp: m_at_def disj_def m_area_def split: if_splits)
  then have "m = n"
    using disj_or_same [OF assms(1) mn(1,3)] by blast
  with mn show ?thesis by simp
qed

lemma flags_at_Some:
  assumes "list_all mapping_ok ms" "sorted_wrt disj (map m_area ms)" "maps ms (unat v) (vmo, off, fl)"
  shows "flags_at v ms = Ok fl"
proof (cases "find (m_contains v) ms")
  case None
  then show ?thesis using assms m_contains_iff by (fastforce simp: find_None_iff maps_def list_all_iff flags_at_def)
next
  case (Some m)
  then have m: "m \<in> set ms" "m_contains v m" "mapping_ok m"
    using find_SomeD assms(1) by (fastforce simp: list_all_iff)+
  then obtain y where y: "m_at (unat v) m = Some y" using m_contains_iff by blast
  then have "maps ms (unat v) y" using m(1) by (auto simp: maps_def)
  then have "y = (vmo, off, fl)" using assms(2,3) maps_unique by blast
  then show ?thesis using Some m_at_flags [OF m(3)] y by (simp add: flags_at_def)
qed

lemma flags_at_None:
  assumes "list_all mapping_ok ms" "\<nexists>y. maps ms (unat v) y"
  shows "flags_at v ms = Err NoMemory"
proof -
  have "find (m_contains v) ms = None"
    using assms m_contains_iff by (auto simp: find_None_iff maps_def list_all_iff)
  then show ?thesis by (simp add: flags_at_def)
qed

lemma flags_at_cong:
  assumes "list_all mapping_ok ms" "sorted_wrt disj (map m_area ms)" "list_all mapping_ok ns" "sorted_wrt disj (map m_area ns)"
    and "\<And>y. maps ms (unat v) y \<longleftrightarrow> maps ns (unat v) y"
  shows "flags_at v ms = flags_at v ns"
proof (cases "\<exists>y. maps ms (unat v) y")
  case True
  then obtain vmo off fl where "maps ms (unat v) (vmo, off, fl)" by auto
  then show ?thesis using flags_at_Some assms by (metis (no_types, lifting))
next
  case False
  then show ?thesis using flags_at_None [OF assms(1)] flags_at_None [OF assms(3)] assms(5) by auto
qed

lemma rg_contains_iff: "region_ok r \<Longrightarrow> rg_contains v r \<longleftrightarrow> fst (rg_area r) \<le> unat v \<and> unat v < snd (rg_area r)"
  using region_ok_end [of r] by (auto simp: rg_contains_def rg_area_def word_le_nat_alt word_less_nat_alt)

lemma flags_in_children_filter:
  assumes "\<And>c. c \<in> set cs \<Longrightarrow> rg_contains v c \<Longrightarrow> P c"
  shows "flags_in_children v (filter P cs) = flags_in_children v cs"
  using assms by (induction cs) auto

lemma flags_in_children_none:
  assumes "\<And>c. c \<in> set cs \<Longrightarrow> \<not> rg_contains v c"
  shows "flags_in_children v cs = None"
  using assms by (induction cs) auto

lemma region_ok_cases:
  assumes "region_ok r"
  obtains f a s cs ms where "r = Region f a s (Some (cs, ms))" "node_ok a s cs ms"
    "4096 dvd unat a" "4096 dvd unat s" "0 < unat s" "unat a + 2 * unat s < 2 ^ 64"
proof -
  obtain f a s cs ms where r: "r = Region f a s (Some (cs, ms))"
    using assms by (cases r rule: region_ok.cases) auto
  show ?thesis using assms that [OF r] unfolding r region_ok_node by blast
qed

lemma vmar_unmap_node:
  assumes "region_ok r" "unat addr + unat len < 2 ^ 64" "vmar_unmap addr len r = (Ok (), r', cmds)"
  obtains f a s cs ms cs' ms' where "r = Region f a s (Some (cs, ms))" "r' = Region f a s (Some (cs', ms'))"
    "node_ok a s cs ms" "node_ok a s cs' ms'" "region_ok r'" "cs' = filter (\<lambda>c. \<not> rg_within addr (addr + len) c) cs"
    "\<forall>x \<in> set (areas cs' ms'). disj x (unat addr, unat addr + unat len)"
    "\<forall>v y. maps ms' v y \<longleftrightarrow> maps ms v y \<and> \<not> (unat addr \<le> v \<and> v < unat addr + unat len)"
proof -
  obtain f a s cs ms where r: "r = Region f a s (Some (cs, ms))" "node_ok a s cs ms"
    "4096 dvd unat a" "4096 dvd unat s" "0 < unat s" "unat a + 2 * unat s < 2 ^ 64"
    using region_ok_cases [OF assms(1)] by metis
  obtain cs' ms' where u: "unmap_inner addr len cs ms = (Ok (), cs', ms', cmds)" "r' = Region f a s (Some (cs', ms'))"
    using assms(3) by (auto simp: r(1) split: if_splits prod.splits)
  note o = unmap_inner_ok [OF r(2) assms(2) u(1)]
  have "region_ok r'" unfolding u(2) region_ok_node using o r(3-6) by blast
  then show ?thesis
    using that [OF r(1) u(2) r(2)] o by blast
qed

lemma unmapped_lookup:
  assumes "region_ok r" "unat addr + unat len < 2 ^ 64" "vmar_unmap addr len r = (Ok (), r', cmds)"
  shows "get_mapping_flags v r' =
    (if unat addr \<le> unat v \<and> unat v < unat addr + unat len \<and> rg_contains v r then Err NoMemory else get_mapping_flags v r)"
proof -
  obtain f a s cs ms cs' ms' where r: "r = Region f a s (Some (cs, ms))" "r' = Region f a s (Some (cs', ms'))"
    and node: "node_ok a s cs ms" "node_ok a s cs' ms'" and cs': "cs' = filter (\<lambda>c. \<not> rg_within addr (addr + len) c) cs"
    and out: "\<forall>x \<in> set (areas cs' ms'). disj x (unat addr, unat addr + unat len)"
    and at: "\<forall>v y. maps ms' v y \<longleftrightarrow> maps ms v y \<and> \<not> (unat addr \<le> v \<and> v < unat addr + unat len)"
    using vmar_unmap_node [OF assms] by metis
  note p = node_ok_parts [OF node(1)] and q = node_ok_parts [OF node(2)]
  have same: "rg_contains v r' \<longleftrightarrow> rg_contains v r" by (simp add: r rg_contains_def rg_end_def)
  show ?thesis
  proof (cases "unat addr \<le> unat v \<and> unat v < unat addr + unat len")
    case True
    have "\<not> rg_contains v c" if "c \<in> set cs'" for c
    proof -
      have "disj (rg_area c) (unat addr, unat addr + unat len)" "region_ok c"
        using that out q(1) by (auto simp: areas_def list_all_iff)
      then show ?thesis using True by (auto simp: rg_contains_iff disj_def)
    qed
    then have "flags_in_children v cs' = None" by (rule flags_in_children_none)
    moreover have "flags_at v ms' = Err NoMemory" by (rule flags_at_None [OF q(2)]) (use at True in simp)
    ultimately show ?thesis using True same by (simp add: r get_mapping_flags_at del: get_mapping_flags.simps)
  next
    case False
    have "flags_in_children v cs' = flags_in_children v cs"
      unfolding cs'
    proof (rule flags_in_children_filter)
      fix c assume c: "c \<in> set cs" "rg_contains v c"
      then show "\<not> rg_within addr (addr + len) c"
        using False p(1) region_ok_end [of c] assms(2)
        by (auto simp: list_all_iff rg_contains_iff rg_within_def rg_area_def word_le_nat_alt unat_word_ariths)
    qed
    moreover have "flags_at v ms' = flags_at v ms"
      by (rule flags_at_cong [OF q(2,3) p(2,3)]) (use at False in auto)
    ultimately show ?thesis using False same by (auto simp: r get_mapping_flags_at simp del: get_mapping_flags.simps split: option.split)
  qed
qed

section \<open>Mapping\<close>

definition in_range :: "nat \<Rightarrow> usize \<Rightarrow> usize \<Rightarrow> bool" where
  "in_range v addr len \<longleftrightarrow> unat addr \<le> v \<and> v < unat addr + unat len"

lemma cache_bits:
  assumes "(c :: usize) \<le> 3"
  shows "(flags OR (c AND MMU_ALL)) AND MMU_RXW = flags AND MMU_RXW"
proof -
  have "unat c \<in> {0, 1, 2, 3}" using assms by (auto simp: word_le_nat_alt)
  then have "of_nat (unat c) \<in> {0, 1, 2, 3 :: usize}" by (elim insertE) simp_all
  then have "c \<in> {0, 1, 2, 3}" by simp
  then have "(c AND MMU_ALL) AND MMU_RXW = 0" by (auto simp: mmu_flag_defs MMU_ALL_def)
  then show ?thesis by (simp add: bit.conj_disj_distrib2)
qed

lemma mapping_new_ok:
  assumes "4096 dvd unat addr" "4096 dvd unat len" "4096 dvd unat off" "0 < unat len" "unat addr + unat len < 2 ^ 64"
    and "unat off + unat len < 2 ^ 64" "contains perms (fl AND MMU_RXW)"
  shows "mapping_ok (mapping_new addr len vmo off perms fl)"
    "m_area (mapping_new addr len vmo off perms fl) = (unat addr, unat addr + unat len)"
  using assms by (auto simp: mapping_ok_def mapping_new_def m_area_def unat_pages_aligned)

lemma mapping_new_at:
  assumes "4096 dvd unat len"
  shows "m_at v (mapping_new addr len vmo off perms fl) =
    (if in_range v addr len then Some (vmo, unat off + (v - unat addr), fl) else None)"
proof (cases "in_range v addr len")
  case True
  then have "(v - unat addr) div 4096 < unat len div 4096"
    using assms by (auto simp: in_range_def less_mult_imp_div_less elim!: dvdE)
  then show ?thesis using True assms by (simp add: m_at_def mapping_new_def unat_pages_aligned in_range_def)
qed (auto simp: m_at_def mapping_new_def in_range_def)

text \<open>The part of \<^verbatim>\<open>map_ext\<close> after the arguments are checked: room is there, or it is made.\<close>

definition make_room ::
  "region \<Rightarrow> region list \<Rightarrow> vm_mapping list \<Rightarrow> usize \<Rightarrow> usize \<Rightarrow> bool \<Rightarrow> unit zx_result \<times> region list \<times> vm_mapping list \<times> pt_cmd list"
  where
  "make_room r cs ms off len overwrite =
     (if test_map r cs ms off len then (Ok (), cs, ms, [])
      else if overwrite then unmap_inner (rg_addr r + off) len cs ms
      else (Err NO_MEMORY, cs, ms, []))"

lemma make_room_ok:
  assumes ok: "region_ok r" and r: "r = Region f a s (Some (cs, ms))"
    and nw: "unat a + unat off + unat len < 2 ^ 64"
    and run: "make_room r cs ms off len overwrite = (res, cs', ms', cmds)"
  shows "node_ok a s cs' ms' \<and>
    (res = Ok () \<longrightarrow> (\<forall>x \<in> set (areas cs' ms'). disj (unat a + unat off, unat a + unat off + unat len) x)
       \<and> (\<forall>v y. maps ms' v y \<longleftrightarrow> maps ms v y \<and> \<not> in_range v (a + off) len))"
proof -
  have node: "node_ok a s cs ms" using ok unfolding r region_ok_node by blast
  have b: "unat (a + off) = unat a + unat off" using nw by (simp add: unat_word_ariths)
  show ?thesis
  proof (cases "test_map r cs ms off len")
    case True
    then have d: "\<forall>x \<in> set (areas cs ms). disj (unat a + unat off, unat a + unat off + unat len) x"
      using test_map_iff [OF ok, of cs ms off len] nw by (auto simp: r)
    moreover have "\<not> maps ms v y" if "in_range v (a + off) len" for v y
    proof
      assume "maps ms v y"
      then obtain m where m: "m \<in> set ms" "m_at v m = Some y" by (auto simp: maps_def)
      moreover have "disj (unat a + unat off, unat a + unat off + unat len) (m_area m)" using d m(1) by (auto simp: areas_def)
      ultimately show False using that by (auto simp: m_at_def in_range_def b disj_def m_area_def split: if_splits)
    qed
    ultimately show ?thesis using run True node by (auto simp: make_room_def)
  next
    case False
    show ?thesis
    proof (cases overwrite)
      case True
      with False run have u: "unmap_inner (a + off) len cs ms = (res, cs', ms', cmds)" by (simp add: make_room_def r)
      have "unat (a + off) + unat len < 2 ^ 64" using nw b by simp
      from unmap_inner_ok [OF node this u] show ?thesis by (auto simp: b in_range_def disj_sym)
    qed (use False run node in \<open>auto simp: make_room_def\<close>)
  qed
qed

definition pick_offset ::
  "region \<Rightarrow> region list \<Rightarrow> vm_mapping list \<Rightarrow> usize option \<Rightarrow> usize \<Rightarrow> bool \<Rightarrow> usize zx_result" where
  "pick_offset r cs ms vmar_offset len overwrite =
     (if overwrite
      then (case vmar_offset of
              None \<Rightarrow> Err INVALID_ARGS
            | Some off \<Rightarrow>
                if \<not> page_aligned off \<or> off > rg_size r \<or> len > rg_size r - off then Err INVALID_ARGS else Ok off)
      else determine_offset r cs ms vmar_offset len PAGE_SIZE)"

lemma pick_offset_ok:
  assumes ok: "region_ok r" "rg_inner r = Some (cs, ms)" and nw: "no_wrap vmar_offset len r"
    and run: "pick_offset r cs ms vmar_offset len overwrite = Ok off" and al: "4096 dvd unat len"
  shows "4096 dvd unat off \<and> unat off + unat len \<le> unat (rg_size r) \<and> unat (rg_addr r) + unat off + unat len < 2 ^ 64"
proof (cases overwrite)
  case True
  with run have "4096 dvd unat off" "unat off \<le> unat (rg_size r)" "unat len \<le> unat (rg_size r) - unat off"
    by (auto simp: pick_offset_def page_aligned_iff word_less_nat_alt unat_sub word_le_nat_alt not_less split: option.splits if_splits)
  then show ?thesis using ok by (cases r rule: region_ok.cases) auto
next
  case False
  then have d: "determine_offset r cs ms vmar_offset len PAGE_SIZE = Ok off" using run by (simp add: pick_offset_def)
  note o = determine_offset_Ok [OF ok d _ nw]
  then show ?thesis using test_map_iff [OF ok, of off len] by (simp add: PAGE_SIZE_def)
qed

lemma map_ext_unfold:
  "map_ext V vmar_offset vmo vmo_offset len permissions flags overwrite map_range allow_faults (Region f a s (Some (cs, ms))) =
     (let r = Region f a s (Some (cs, ms))
      in if \<not> page_aligned vmo_offset \<or> \<not> page_aligned len \<or> checked_add vmo_offset len = None
         then (Err INVALID_ARGS, r, [])
         else if \<not> contains permissions (flags AND MMU_RXW) then (Err ACCESS_DENIED, r, [])
         else if \<not> allow_faults \<and> (vmo_offset > vmo_len V vmo \<or> len > vmo_len V vmo - vmo_offset)
         then (Err INVALID_ARGS, r, [])
         else case pick_offset r cs ms vmar_offset len overwrite of
                Err e \<Rightarrow> (Err e, r, [])
              | Panic \<Rightarrow> (Panic, r, [])
              | Ok off \<Rightarrow>
                  (case make_room r cs ms off len overwrite of
                     (Err e, cs1, ms1, cmds1) \<Rightarrow> (Err e, Region f a s (Some (cs1, ms1)), cmds1)
                   | (Panic, cs1, ms1, cmds1) \<Rightarrow> (Panic, Region f a s (Some (cs1, ms1)), cmds1)
                   | (Ok _, cs1, ms1, cmds1) \<Rightarrow>
                       (let m = mapping_new (a + off) len vmo vmo_offset permissions (flags OR (vmo_cache V vmo AND MMU_ALL));
                            (mr, cmds2) = (if map_range then mapping_map (vmo_commit V) m else (Ok (), []))
                        in case mr of
                             Ok _ \<Rightarrow> (Ok (a + off), Region f a s (Some (cs1, ms1 @ [m])), cmds1 @ cmds2)
                           | Err e \<Rightarrow> (Err e, Region f a s (Some (cs1, ms1)), cmds1 @ cmds2 @ mapping_unmap m)
                           | Panic \<Rightarrow> (Panic, Region f a s (Some (cs1, ms1)), cmds1 @ cmds2))))"
  unfolding map_ext.simps pick_offset_def make_room_def region.sel Let_def option.case
  by (simp split: result.split prod.split)

lemma checked_add_no_wrap: "checked_add x y \<noteq> None \<Longrightarrow> unat (x :: usize) + unat y < 2 ^ 64"
  by (auto simp: checked_add_def split: if_splits)

definition rg_maps :: "region \<Rightarrow> nat \<Rightarrow> nat \<times> nat \<times> mmu_flags \<Rightarrow> bool" where
  "rg_maps r v y = (case rg_inner r of None \<Rightarrow> False | Some (cs, ms) \<Rightarrow> maps ms v y)"

lemma placed_mapping:
  assumes "node_ok a s cs ms" "\<forall>x \<in> set (areas cs ms). disj (unat a + unat off, unat a + unat off + unat len) x"
    and "4096 dvd unat a" "4096 dvd unat off" "4096 dvd unat len" "4096 dvd unat vo" "0 < unat len"
    and "unat a + unat off + unat len < 2 ^ 64" "unat off + unat len \<le> unat s" "unat vo + unat len < 2 ^ 64"
    and "contains perms (fl AND MMU_RXW)"
  shows "node_ok a s cs (ms @ [mapping_new (a + off) len vmo vo perms fl])"
proof -
  have b: "unat (a + off) = unat a + unat off" using assms(8) by (simp add: unat_word_ariths)
  have m: "mapping_ok (mapping_new (a + off) len vmo vo perms fl)"
    "m_area (mapping_new (a + off) len vmo vo perms fl) = (unat a + unat off, unat a + unat off + unat len)"
    using mapping_new_ok [of "a + off" len vo perms fl vmo] assms b by simp_all
  show ?thesis
    by (rule node_ok_add_mapping [OF assms(1) m(1)]) (use m(2) assms in \<open>auto simp: inside_def\<close>)
qed

lemma map_ext_outcome:
  fixes f a s cs ms
  defines "r \<equiv> Region f a s (Some (cs, ms))"
  assumes "page_aligned vo \<and> page_aligned len \<and> checked_add vo len \<noteq> None \<and> contains perms (flags AND MMU_RXW)
      \<and> (allow_faults \<or> \<not> (vo > vmo_len V vmo \<or> len > vmo_len V vmo - vo))"
    and "pick_offset r cs ms vmar_offset len overwrite = Ok off"
    and "make_room r cs ms off len overwrite = (ur, cs1, ms1, c1)"
    and "map_ext V vmar_offset vmo vo len perms flags overwrite map_range allow_faults r = (res, r', cmds)"
  shows "r' = Region f a s (Some (cs1, ms1)) \<and> (\<forall>addr. res \<noteq> Ok addr)
    \<or> ur = Ok () \<and> res = Ok (a + off)
      \<and> r' = Region f a s (Some (cs1, ms1 @ [mapping_new (a + off) len vmo vo perms (flags OR (vmo_cache V vmo AND MMU_ALL))]))"
proof (cases ur)
  case (Ok u)
  let ?m = "mapping_new (a + off) len vmo vo perms (flags OR (vmo_cache V vmo AND MMU_ALL))"
  obtain mr c2 where "(if map_range then mapping_map (vmo_commit V) ?m else (Ok (), [])) = (mr, c2)"
    by (metis surj_pair)
  then show ?thesis
    using assms(2-5) Ok unfolding r_def map_ext_unfold by (cases mr) auto
qed (use assms(2-5) in \<open>unfold r_def map_ext_unfold, auto\<close>)

definition map_effect :: "region \<Rightarrow> region \<Rightarrow> usize \<Rightarrow> usize \<Rightarrow> nat \<Rightarrow> usize \<Rightarrow> mmu_flags \<Rightarrow> bool" where
  "map_effect r r' addr len vmo vo fl \<longleftrightarrow>
     inside (unat addr, unat addr + unat len) (rg_area r)
     \<and> (\<forall>v y. rg_maps r' v y \<longleftrightarrow>
          (if in_range v addr len then y = (vmo, unat vo + (v - unat addr), fl) else rg_maps r v y))"

lemma map_ext_ok:
  assumes ok: "region_ok r" and len: "0 < len" and nw: "no_wrap vmar_offset len r" and cache: "vmo_cache V vmo \<le> 3"
    and run: "map_ext V vmar_offset vmo vo len perms flags overwrite map_range allow_faults r = (res, r', cmds)"
  shows "region_ok r' \<and> rg_area r' = rg_area r
    \<and> (\<forall>addr. res = Ok addr \<longrightarrow> map_effect r r' addr len vmo vo (flags OR (vmo_cache V vmo AND MMU_ALL)))"
proof -
  obtain f a s cs ms where r: "r = Region f a s (Some (cs, ms))" "node_ok a s cs ms"
    and room: "4096 dvd unat a" "4096 dvd unat s" "0 < unat s" "unat a + 2 * unat s < 2 ^ 64"
    using region_ok_cases [OF ok] by metis
  let ?fl = "flags OR (vmo_cache V vmo AND MMU_ALL)"
  have live: "region_ok (Region f a s (Some (xs, ys))) \<longleftrightarrow> node_ok a s xs ys" for xs ys
    unfolding region_ok_node using room by blast
  show ?thesis
  proof (cases "page_aligned vo \<and> page_aligned len \<and> checked_add vo len \<noteq> None \<and> contains perms (flags AND MMU_RXW)
      \<and> (allow_faults \<or> \<not> (vo > vmo_len V vmo \<or> len > vmo_len V vmo - vo))")
    case False
    then have "r' = r \<and> (\<forall>addr. res \<noteq> Ok addr)" using run unfolding r(1) map_ext_unfold by (auto split: if_splits)
    then show ?thesis using ok by simp
  next
    case True
    have al: "4096 dvd unat len" "4096 dvd unat vo" "0 < unat len" using True len by (auto simp: page_aligned_iff word_less_nat_alt)
    have fl: "contains perms (?fl AND MMU_RXW)" using True cache_bits [OF cache] by simp
    show ?thesis
    proof (cases "pick_offset r cs ms vmar_offset len overwrite")
      case (Ok off)
      note o = pick_offset_ok [OF ok _ nw Ok al(1), unfolded r(1), simplified]
      obtain ur cs1 ms1 c1 where u: "make_room r cs ms off len overwrite = (ur, cs1, ms1, c1)" by (cases "make_room r cs ms off len overwrite")
      note m = make_room_ok [OF ok r(1) _ u]
      let ?m = "mapping_new (a + off) len vmo vo perms ?fl"
      have n: "node_ok a s cs1 ms1" using m o by simp
      have placed: "node_ok a s cs1 (ms1 @ [?m])" if "ur = Ok ()"
        by (rule placed_mapping) (use m o that True al fl room checked_add_no_wrap [of vo len] in auto)
      have eff: "map_effect r (Region f a s (Some (cs1, ms1 @ [?m]))) (a + off) len vmo vo ?fl" if "ur = Ok ()"
        using that m o mapping_new_at [OF al(1)] r(1)
        by (auto simp: map_effect_def rg_maps_def inside_def rg_area_def unat_word_ariths split: if_splits)
      from map_ext_outcome [OF True Ok [unfolded r(1)] u [unfolded r(1)] run [unfolded r(1)]]
      consider "r' = Region f a s (Some (cs1, ms1))" "\<forall>addr. res \<noteq> Ok addr"
        | "ur = Ok ()" "r' = Region f a s (Some (cs1, ms1 @ [?m]))" "res = Ok (a + off)"
        by blast
      then show ?thesis
        using n placed eff by cases (auto simp: live rg_area_def r(1) simp del: region_ok.simps)
    qed (use run True ok in \<open>unfold r(1) map_ext_unfold, auto\<close>)
  qed
qed

section \<open>Protecting and clearing\<close>

lemma set_rxw_bits: "set_rxw flags old AND MMU_RXW = flags AND MMU_RXW"
  by (rule bit_word_eqI) (auto simp: set_rxw_def flag_insert_def flag_remove_def bit_and_iff bit_or_iff bit_not_iff)

lemma div_le_iff_dvd: "c dvd x \<Longrightarrow> x div c \<le> y div c \<longleftrightarrow> x \<le> (y :: nat)"
  by (metis div_le_mono div_times_less_eq_dividend dvd_div_mult_self le_trans mult_le_mono1)

lemma page_in_range:
  assumes "4096 dvd A" "4096 dvd B" "4096 dvd E" "A \<le> v" "A \<le> E"
  shows "(max B A - A) div 4096 \<le> (v - A) div 4096 \<longleftrightarrow> B \<le> (v :: nat)"
    and "(v - A) div 4096 < (E - A) div 4096 \<longleftrightarrow> v < E"
proof -
  have "4096 dvd max B A - A" "4096 dvd E - A" using assms by (auto simp: max_def)
  then show "(max B A - A) div 4096 \<le> (v - A) div 4096 \<longleftrightarrow> B \<le> v" "(v - A) div 4096 < (E - A) div 4096 \<longleftrightarrow> v < E"
    using assms(4,5) unfolding not_le [symmetric] div_le_iff_dvd by (simp_all add: div_le_iff_dvd not_le [symmetric] max_def) linarith+
qed

lemma protect_one_ok:
  assumes ok: "mapping_ok m" and al: "4096 dvd unat b" "4096 dvd unat e" "b \<le> e"
    and t: "touches b e m" and fl: "is_valid_mapping_flags flags m"
  shows "\<exists>m' cmds. mapping_protect flags (unat (pages (max b (m_addr m) - m_addr m)))
                     (unat (pages (min e (m_end m) - m_addr m))) m = Ok (m', cmds)
    \<and> mapping_ok m' \<and> m_area m' = m_area m
    \<and> (\<forall>v. m_at v m' = map_option (\<lambda>(vmo, off, fl). (vmo, off, if unat b \<le> v \<and> v < unat e then set_rxw flags fl else fl)) (m_at v m))"
proof -
  let ?A = "unat (m_addr m)" and ?S = "unat (m_size m)"
  note m = ok [unfolded mapping_ok_def]
  have end_m: "unat (m_end m) = ?A + ?S" using mapping_ok_end [OF ok] by (simp add: m_area_def)
  have A: "?A \<le> unat e" "unat b \<le> ?A + ?S" using t end_m by (auto simp: touches_def word_le_nat_alt)
  have ub: "unat (max b (m_addr m)) = max (unat b) ?A" "unat (min e (m_end m)) = min (unat e) (?A + ?S)"
    by (auto simp: max_def min_def word_le_nat_alt end_m)
  have i: "unat (pages (max b (m_addr m) - m_addr m)) = (max (unat b) ?A - ?A) div 4096" (is "?i = ?i'")
    using ub al m by (subst unat_pages_aligned) (auto simp: unat_sub word_le_nat_alt max_def)
  have j: "unat (pages (min e (m_end m) - m_addr m)) = (min (unat e) (?A + ?S) - ?A) div 4096" (is "?j = ?j'")
    using ub al m A by (subst unat_pages_aligned) (auto simp: unat_sub word_le_nat_alt min_def)
  have jl: "?j' \<le> length (m_flags m)" 
    by (rule order_trans [OF div_le_mono [of _ ?S]]) (use m in auto)
  let ?g = "\<lambda>k f. if ?i' \<le> k \<and> k < ?j' then set_rxw flags f else f"
  let ?m' = "m\<lparr>m_flags := map (\<lambda>(k, f). ?g k f) (zip [0..<length (m_flags m)] (m_flags m))\<rparr>"
  have ok': "mapping_ok ?m'"
    using m fl by (auto simp: mapping_ok_def set_rxw_bits is_valid_mapping_flags_def in_set_zip)
  have "m_at v ?m' = map_option (\<lambda>(vmo, off, fl). (vmo, off, if unat b \<le> v \<and> v < unat e then set_rxw flags fl else fl)) (m_at v m)" for v
  proof (cases "?A \<le> v \<and> v < ?A + ?S")
    case True
    then have k: "(v - ?A) div 4096 < ?S div 4096" using m by (auto simp: less_mult_imp_div_less elim!: dvdE)
    have "4096 dvd min (unat e) (?A + ?S)" using al m by (auto simp: min_def)
    then have "(?i' \<le> (v - ?A) div 4096 \<and> (v - ?A) div 4096 < ?j') \<longleftrightarrow> unat b \<le> v \<and> v < unat e"
      using page_in_range [of ?A "unat b" "min (unat e) (?A + ?S)" v] al m A True by auto
    then show ?thesis using True k m by (auto simp: m_at_def)
  qed (auto simp: m_at_def)
  moreover have "mapping_protect flags ?i ?j m = Ok (?m', map (\<lambda>k. PtUpdate (m_addr m + of_nat k * PAGE_SIZE) (set_rxw flags (m_flags m ! k))) [?i'..<?j'])"
    unfolding mapping_protect_def i j using jl by simp
  ultimately show ?thesis
    using ok' by (auto simp: m_area_def)
qed

text \<open>The effect of \<^verbatim>\<open>protect\<close> on one address.\<close>

definition reprotect :: "usize \<Rightarrow> usize \<Rightarrow> mmu_flags \<Rightarrow> nat \<Rightarrow> nat \<times> nat \<times> mmu_flags \<Rightarrow> nat \<times> nat \<times> mmu_flags" where
  "reprotect b e flags v = (\<lambda>(vmo, off, fl). (vmo, off, if unat b \<le> v \<and> v < unat e then set_rxw flags fl else fl))"

lemma untouched_at:
  assumes "mapping_ok m" "\<not> touches b e m"
  shows "m_at v m = map_option (reprotect b e flags v) (m_at v m)"
  using assms mapping_ok_end [OF assms(1)]
  by (auto simp: touches_def m_at_def m_area_def reprotect_def word_le_nat_alt)

lemma protect_all_ok:
  assumes "4096 dvd unat b" "4096 dvd unat e" "b \<le> e" "list_all mapping_ok ms"
    and "\<forall>m \<in> set ms. touches b e m \<longrightarrow> is_valid_mapping_flags flags m"
  shows "\<exists>ms' cmds. protect_all flags b e ms = Ok (ms', cmds) \<and> list_all mapping_ok ms' \<and> map m_area ms' = map m_area ms
    \<and> (\<forall>v y. maps ms' v y \<longleftrightarrow> (\<exists>z. maps ms v z \<and> y = reprotect b e flags v z))"
  using assms(4,5)
proof (induction ms)
  case (Cons m ms)
  then obtain ms' cmds where r: "protect_all flags b e ms = Ok (ms', cmds)" "list_all mapping_ok ms'" "map m_area ms' = map m_area ms"
    "\<forall>v y. maps ms' v y \<longleftrightarrow> (\<exists>z. maps ms v z \<and> y = reprotect b e flags v z)"
    by auto
  have ok: "mapping_ok m" using Cons.prems by simp
  obtain m' c where m: "(if touches b e m
        then mapping_protect flags (unat (pages (max b (m_addr m) - m_addr m)))
               (unat (pages (min e (m_end m) - m_addr m))) m
        else Ok (m, [])) = Ok (m', c)" "mapping_ok m'" "m_area m' = m_area m"
    "\<forall>v. m_at v m' = map_option (reprotect b e flags v) (m_at v m)"
  proof (cases "touches b e m")
    case True
    then show ?thesis
      using protect_one_ok [OF ok assms(1-3) True, of flags] Cons.prems(2) that unfolding reprotect_def by auto
  next
    case False
    then show ?thesis using that [of m "[]"] ok untouched_at [OF ok False, of _ flags] by simp
  qed
  have "protect_all flags b e (m # ms) = Ok (m' # ms', c @ cmds)"
    unfolding protect_all.simps m(1) by (simp add: r(1))
  moreover have "maps (m' # ms') v y \<longleftrightarrow> (\<exists>z. maps (m # ms) v z \<and> y = reprotect b e flags v z)" for v y
  proof -
    have "m_at v m' = Some y \<longleftrightarrow> (\<exists>z. m_at v m = Some z \<and> y = reprotect b e flags v z)"
      using m(4) by (cases "m_at v m") auto
    then show ?thesis unfolding maps_simps using r(4) by blast
  qed
  ultimately show ?case using m(2,3) r(2,3) by auto
qed simp

lemma vmar_protect_ok:
  assumes ok: "region_ok r" and nw: "unat addr + unat len < 2 ^ 64"
    and run: "vmar_protect addr len flags r = (res, r', cmds)"
  shows "region_ok r' \<and> rg_area r' = rg_area r \<and> res \<noteq> Panic
    \<and> (if res = Ok ()
       then \<forall>v y. rg_maps r' v y \<longleftrightarrow> (\<exists>z. rg_maps r v z \<and> y = reprotect addr (addr + len) flags v z)
       else r' = r)"
proof -
  obtain f a s cs ms where r: "r = Region f a s (Some (cs, ms))" "node_ok a s cs ms"
    and room: "4096 dvd unat a" "4096 dvd unat s" "0 < unat s" "unat a + 2 * unat s < 2 ^ 64"
    using region_ok_cases [OF ok] by metis
  note p = node_ok_parts [OF r(2)]
  let ?e = "addr + len"
  consider "r' = r" "\<exists>e. res = Err e"
    | "page_aligned addr" "page_aligned len" "\<forall>m \<in> set ms. touches addr ?e m \<longrightarrow> is_valid_mapping_flags flags m"
    using run unfolding r(1) by (auto simp: list_ex_iff split: if_splits)
  then show ?thesis
  proof cases
    case 2
    have e: "unat ?e = unat addr + unat len" using nw by (simp add: unat_word_ariths)
    obtain ms' c where m: "protect_all flags addr ?e ms = Ok (ms', c)" "list_all mapping_ok ms'" "map m_area ms' = map m_area ms"
      "\<forall>v y. maps ms' v y \<longleftrightarrow> (\<exists>z. maps ms v z \<and> y = reprotect addr ?e flags v z)"
      using protect_all_ok [of addr ?e ms flags] 2 p(2) e by (auto simp: page_aligned_iff word_le_nat_alt)
    have "node_ok a s cs ms'" using r(2) m(2,3) by (simp add: node_ok_def areas_def)
    then have "region_ok (Region f a s (Some (cs, ms')))" unfolding region_ok_node using room by blast
    moreover have "res = Ok () \<and> r' = Region f a s (Some (cs, ms')) \<or> (\<exists>e. res = Err e) \<and> r' = r"
      using run m(1) unfolding r(1) by (auto split: if_splits)
    moreover have "\<forall>v y. rg_maps (Region f a s (Some (cs, ms'))) v y \<longleftrightarrow> (\<exists>z. rg_maps r v z \<and> y = reprotect addr ?e flags v z)"
      using m(4) by (simp only: rg_maps_def r(1) region.sel option.case prod.case) blast
    moreover have "rg_area (Region f a s (Some (cs, ms'))) = rg_area r" by (simp add: r(1) rg_area_def)
    ultimately show ?thesis using ok by (elim disjE conjE exE) (simp_all only: result.distinct result.simps if_True if_False, simp_all)
  qed (use ok in auto)
qed

lemma vmar_clear_ok:
  assumes "region_ok r" "vmar_clear r = (res, r', cmds)"
  shows "region_ok r' \<and> rg_area r' = rg_area r \<and> res = Ok () \<and> rg_inner r' = Some ([], [])"
proof -
  obtain f a s cs ms where r: "r = Region f a s (Some (cs, ms))" "node_ok a s cs ms"
    and room: "4096 dvd unat a" "4096 dvd unat s" "0 < unat s" "unat a + 2 * unat s < 2 ^ 64"
    using region_ok_cases [OF assms(1)] by metis
  have "fst (destroy_all cs) = Ok ()" using destroy_internal_Ok(2) node_ok_parts(1) [OF r(2)] by (simp add: regions_ok_iff)
  then have "r' = Region f a s (Some ([], [])) \<and> res = Ok ()"
    using assms(2) by (auto simp: r(1) split: prod.splits result.splits)
  then show ?thesis using room by (simp add: r(1) rg_area_def areas_def)
qed

end
