(* ===== verification/Vm_Safety.thy ===== *)
theory Vm_Safety
  imports Address_Ops
begin

text \<open>
  The address space of a process under any sequence of calls on its regions, the check of user
  buffers, and two inputs on which the code leaves what it promises.
\<close>

section \<open>Runs of calls on the regions of a process\<close>

text \<open>\<^verbatim>\<open>destroy\<close> of the child at position \<open>i\<close>, seen from the parent it is removed from.\<close>

fun vmar_destroy :: "nat \<Rightarrow> region \<Rightarrow> unit zx_result \<times> region \<times> pt_cmd list" where
  "vmar_destroy i (Region f a s None) = (Panic, Region f a s None, [])"
| "vmar_destroy i (Region f a s (Some (cs, ms))) =
     (if i \<ge> length cs then (Err BAD_STATE, Region f a s (Some (cs, ms)), [])
      else case destroy_internal (cs ! i) of
             (Ok _, _, cmds) \<Rightarrow> (Ok (), Region f a s (Some (take i cs @ drop (Suc i) cs, ms)), cmds)
           | (r, c, cmds) \<Rightarrow> (r, Region f a s (Some (cs[i := c], ms)), cmds))"

datatype vm_op =
  VmAllocate "usize option" usize u32 usize
| VmMap "usize option" nat usize usize mmu_flags mmu_flags bool bool bool
| VmUnmap usize usize
| VmProtect usize usize mmu_flags
| VmClear
| VmDestroy nat

fun vm_exec :: "vmo_iface \<Rightarrow> vm_op \<Rightarrow> region \<Rightarrow> region" where
  "vm_exec V (VmAllocate off len fl align) r = snd (vmar_allocate off len fl align r)"
| "vm_exec V (VmMap off vmo vo len perms fl ow mr af) r = fst (snd (map_ext V off vmo vo len perms fl ow mr af r))"
| "vm_exec V (VmUnmap addr len) r = fst (snd (vmar_unmap addr len r))"
| "vm_exec V (VmProtect addr len fl) r = fst (snd (vmar_protect addr len fl r))"
| "vm_exec V VmClear r = fst (snd (vmar_clear r))"
| "vm_exec V (VmDestroy i) r = fst (snd (vmar_destroy i r))"

text \<open>
  The calls considered: lengths are not zero and alignments are multiples of a page, as the system
  calls see to; the sum of address, offset and length does not wrap; the cache policy of a VM object
  is one of the four that exist.
\<close>

fun vm_op_ok :: "vmo_iface \<Rightarrow> vm_op \<Rightarrow> region \<Rightarrow> bool" where
  "vm_op_ok V (VmAllocate off len fl align) r \<longleftrightarrow> 0 < len \<and> 4096 dvd unat align \<and> no_wrap off len r"
| "vm_op_ok V (VmMap off vmo vo len perms fl ow mr af) r \<longleftrightarrow> 0 < len \<and> no_wrap off len r \<and> vmo_cache V vmo \<le> 3"
| "vm_op_ok V (VmUnmap addr len) r \<longleftrightarrow> unat addr + unat len < 2 ^ 64"
| "vm_op_ok V (VmProtect addr len fl) r \<longleftrightarrow> unat addr + unat len < 2 ^ 64"
| "vm_op_ok V VmClear r \<longleftrightarrow> True"
| "vm_op_ok V (VmDestroy i) r \<longleftrightarrow> True"

text \<open>A call on the root region or on any region below it.\<close>

inductive vm_step :: "vmo_iface \<Rightarrow> region \<Rightarrow> region \<Rightarrow> bool" for V where
  here: "vm_op_ok V op r \<Longrightarrow> vm_step V r (vm_exec V op r)"
| below: "vm_step V c c'
    \<Longrightarrow> vm_step V (Region f a s (Some (cs @ c # ds, ms))) (Region f a s (Some (cs @ c' # ds, ms)))"

lemma sorted_wrt_disj_remove: "sorted_wrt disj (xs @ x # ys) \<Longrightarrow> sorted_wrt disj (xs @ ys)"
  by (auto simp: sorted_wrt_append)

lemma node_ok_remove_child: "node_ok a s (cs @ c # ds) ms \<Longrightarrow> node_ok a s (cs @ ds) ms"
  by (auto simp: node_ok_def areas_def sorted_wrt_append)

lemma vmar_destroy_ok:
  assumes "region_ok r" "vmar_destroy i r = (res, r', cmds)"
  shows "region_ok r' \<and> rg_area r' = rg_area r"
proof -
  obtain f a s cs ms where r: "r = Region f a s (Some (cs, ms))" "node_ok a s cs ms"
    and room: "4096 dvd unat a" "4096 dvd unat s" "0 < unat s" "unat a + 2 * unat s < 2 ^ 64"
    using region_ok_cases [OF assms(1)] by metis
  show ?thesis
  proof (cases "i < length cs")
    case True
    then have "cs = take i cs @ cs ! i # drop (Suc i) cs" by (rule id_take_nth_drop)
    then have n: "node_ok a s (take i cs @ drop (Suc i) cs) ms" using r(2) node_ok_remove_child by metis
    have "fst (destroy_internal (cs ! i)) = Ok ()"
      using destroy_internal_Ok(1) node_ok_parts(1) [OF r(2)] True by (simp add: list_all_length)
    then have "r' = Region f a s (Some (take i cs @ drop (Suc i) cs, ms))"
      using assms(2) True by (auto simp: r(1) split: prod.splits result.splits)
    then show ?thesis using n room by (simp add: r(1) rg_area_def region_ok_node del: region_ok.simps)
  qed (use assms r in auto)
qed

lemma vm_exec_ok:
  assumes "region_ok r" "vm_op_ok V op r"
  shows "region_ok (vm_exec V op r) \<and> rg_area (vm_exec V op r) = rg_area r"
proof (cases op)
  case (VmAllocate off len fl align)
  then show ?thesis using assms vmar_allocate_ok [OF assms(1), of len align off fl] by (cases "vmar_allocate off len fl align r") auto
next
  case (VmMap off vmo vo len perms fl ow mr af)
  then show ?thesis using assms map_ext_ok [OF assms(1), of len off V vmo] by (cases "map_ext V off vmo vo len perms fl ow mr af r") auto
next
  case (VmUnmap addr len)
  obtain f a s cs ms where r: "r = Region f a s (Some (cs, ms))" "node_ok a s cs ms"
    and room: "4096 dvd unat a" "4096 dvd unat s" "0 < unat s" "unat a + 2 * unat s < 2 ^ 64"
    using region_ok_cases [OF assms(1)] by metis
  obtain res cs' ms' c where u: "unmap_inner addr len cs ms = (res, cs', ms', c)" by (metis surj_pair)
  have "node_ok a s cs' ms'" using unmap_inner_ok [OF r(2) _ u] assms(2) VmUnmap by simp
  then have "region_ok (Region f a s (Some (cs', ms')))" unfolding region_ok_node using room by blast
  then show ?thesis using VmUnmap u assms(1) by (auto simp: r(1) rg_area_def simp del: region_ok.simps)
next
  case (VmProtect addr len fl)
  then show ?thesis using assms vmar_protect_ok [OF assms(1), of addr len fl] by (cases "vmar_protect addr len fl r") auto
next
  case VmClear
  then show ?thesis using vmar_clear_ok [OF assms(1)] by (cases "vmar_clear r") auto
next
  case (VmDestroy i)
  then show ?thesis using vmar_destroy_ok [OF assms(1), of i] by (cases "vmar_destroy i r") auto
qed

lemma vm_step_ok: "vm_step V r r' \<Longrightarrow> region_ok r \<Longrightarrow> region_ok r' \<and> rg_area r' = rg_area r"
proof (induction rule: vm_step.induct)
  case (here op r)
  then show ?case using vm_exec_ok by blast
next
  case (below c c' f a s cs ds ms)
  then have "region_ok c" by (simp add: regions_ok_iff)
  with below have "region_ok c'" "rg_area c' = rg_area c" by auto
  with below.prems have "region_ok (Region f a s (Some (cs @ c' # ds, ms)))" by (simp add: regions_ok_iff areas_def)
  then show ?case by (simp add: rg_area_def del: region_ok.simps)
qed

interpretation vm: step_invariant "\<lambda>r. r = new_root" "vm_step V" region_ok for V
proof unfold_locales
  show "region_ok r" if "r = new_root" for r
    using that by (simp add: new_root_def USER_ASPACE_BASE_def USER_ASPACE_SIZE_def areas_def unat_word_ariths)
qed (use vm_step_ok in blast)



definition plain_vmo :: vmo_iface where
  "plain_vmo = \<lparr>vmo_len = (\<lambda>_. 0x10000), vmo_cache = (\<lambda>_. 0), vmo_commit = (\<lambda>_ _ _. Ok 0x80000000)\<rparr>"

definition sample_map :: vm_op where
  "sample_map = VmMap (Some 0) 7 0 0x3000 MMU_RXW (MMU_USER OR MMU_READ OR MMU_WRITE) False False False"

definition sample_space :: region where
  "sample_space = vm_exec plain_vmo (VmUnmap 0x201000 0x1000) (vm_exec plain_vmo sample_map new_root)"

lemma sample_space_reached: "(vm_step plain_vmo)\<^sup>*\<^sup>* new_root sample_space"
proof -
  have "vm_step plain_vmo new_root (vm_exec plain_vmo sample_map new_root)"
    by (rule vm_step.here) (simp add: sample_map_def plain_vmo_def no_wrap_def new_root_def USER_ASPACE_BASE_def)
  moreover have "vm_step plain_vmo (vm_exec plain_vmo sample_map new_root) sample_space"
    unfolding sample_space_def by (rule vm_step.here) simp
  ultimately show ?thesis by simp
qed


section \<open>Unmapping, mapping and protecting\<close>


definition two_pages :: region where
  "two_pages =
     Region 0 0x10000 0x10000
       (Some ([], [\<lparr>m_permissions = MMU_RXW, m_vmo = 1, m_flags = [MMU_READ, MMU_WRITE], m_addr = 0x12000,
                    m_size = 0x2000, m_vmo_offset = 0x3000\<rparr>]))"

lemma two_pages_ok: "region_ok two_pages"
  by (simp add: two_pages_def areas_def mapping_ok_def m_area_def inside_def contains_def mmu_flag_defs)


lemma make_room_children:
  assumes ok: "region_ok r" and r: "r = Region f a s (Some (cs, ms))"
    and nw: "unat a + unat off + unat len < 2 ^ 64"
    and run: "make_room r cs ms off len overwrite = (Ok (), cs', ms', cmds)"
  shows "flags_in_children v cs' = (if in_range (unat v) (a + off) len then None else flags_in_children v cs)"
proof -
  have node: "node_ok a s cs ms" using ok unfolding r region_ok_node by blast
  note p = node_ok_parts [OF node]
  have b: "unat (a + off) = unat a + unat off" using nw by (simp add: unat_word_ariths)
  have e: "unat (a + off + len) = unat (a + off) + unat len" using nw b by (simp add: unat_word_ariths)
  note m = make_room_ok [OF ok r nw run]
  show ?thesis
  proof (cases "in_range (unat v) (a + off) len")
    case True
    have "\<not> rg_contains v c" if "c \<in> set cs'" for c
    proof -
      have "disj (unat a + unat off, unat a + unat off + unat len) (rg_area c)" "region_ok c"
        using that m node_ok_parts(1) by (auto simp: areas_def list_all_iff)
      then show ?thesis using True by (auto simp: rg_contains_iff disj_def in_range_def b)
    qed
    then show ?thesis using True flags_in_children_none by simp
  next
    case False
    have "cs' = cs \<or> cs' = filter (\<lambda>c. \<not> rg_within (a + off) (a + off + len) c) cs"
    proof (cases "test_map r cs ms off len \<or> \<not> overwrite")
      case True
      then show ?thesis using run by (auto simp: make_room_def split: if_splits)
    next
      case F: False
      then have "unmap_inner (a + off) len cs ms = (Ok (), cs', ms', cmds)" using run by (simp add: make_room_def r)
      from unmap_inner_ok [OF node _ this] show ?thesis using nw b by simp
    qed
    moreover have "flags_in_children v (filter (\<lambda>c. \<not> rg_within (a + off) (a + off + len) c) cs) = flags_in_children v cs"
    proof (rule flags_in_children_filter)
      fix c assume c: "c \<in> set cs" "rg_contains v c"
      then show "\<not> rg_within (a + off) (a + off + len) c"
        using False p(1) region_ok_end [of c]
        by (auto simp: list_all_iff rg_contains_iff rg_within_def rg_area_def word_le_nat_alt e in_range_def)
    qed
    ultimately show ?thesis using False by auto
  qed
qed

lemma map_ext_lookup:
  assumes ok: "region_ok r" and len: "0 < len" and nw: "no_wrap vmar_offset len r" and cache: "vmo_cache V vmo \<le> 3"
    and run: "map_ext V vmar_offset vmo vo len perms flags overwrite map_range allow_faults r = (Ok addr, r', cmds)"
  shows "get_mapping_flags v r' =
    (if in_range (unat v) addr len then Ok (flags OR (vmo_cache V vmo AND MMU_ALL)) else get_mapping_flags v r)"
proof -
  let ?fl = "flags OR (vmo_cache V vmo AND MMU_ALL)"
  note eff = map_ext_ok [OF ok len nw cache run]
  obtain f a s cs ms where r: "r = Region f a s (Some (cs, ms))" "node_ok a s cs ms"
    using region_ok_cases [OF ok] by metis
  have guard: "page_aligned vo \<and> page_aligned len \<and> checked_add vo len \<noteq> None \<and> contains perms (flags AND MMU_RXW)
      \<and> (allow_faults \<or> \<not> (vo > vmo_len V vmo \<or> len > vmo_len V vmo - vo))"
    using run unfolding r(1) map_ext_unfold by (auto split: if_splits)
  obtain off where o: "pick_offset r cs ms vmar_offset len overwrite = Ok off"
    using run guard unfolding r(1) map_ext_unfold by (cases "pick_offset r cs ms vmar_offset len overwrite") (auto simp: r(1))
  obtain ur cs1 ms1 c1 where u: "make_room r cs ms off len overwrite = (ur, cs1, ms1, c1)" by (metis surj_pair)
  from map_ext_outcome [OF guard o [unfolded r(1)] u [unfolded r(1)] run [unfolded r(1)]]
  have res: "ur = Ok ()" "addr = a + off" "r' = Region f a s (Some (cs1, ms1 @ [mapping_new addr len vmo vo perms ?fl]))"
    by auto
  have nw': "unat a + unat off + unat len < 2 ^ 64"
    using pick_offset_ok [OF ok _ nw o] guard by (simp add: r(1) page_aligned_iff)
  let ?ms = "ms1 @ [mapping_new addr len vmo vo perms ?fl]"
  have kids: "flags_in_children v cs1 = (if in_range (unat v) addr len then None else flags_in_children v cs)"
    using make_room_children [OF ok r(1) nw'] u res by simp
  have node: "node_ok a s cs1 ?ms" using eff unfolding res(3) region_ok_node by blast
  note p = node_ok_parts [OF r(2)] and q = node_ok_parts [OF node]
  have at: "maps ?ms (unat v) y \<longleftrightarrow> (if in_range (unat v) addr len then y = (vmo, unat vo + (unat v - unat addr), ?fl) else maps ms (unat v) y)" for y
    using eff by (simp only: map_effect_def rg_maps_def r(1) res(3) region.sel option.case prod.case simp_thms result.inject)
  have here: "flags_at v ?ms = (if in_range (unat v) addr len then Ok ?fl else flags_at v ms)"
  proof (cases "in_range (unat v) addr len")
    case True
    have "flags_at v ?ms = Ok ?fl" by (rule flags_at_Some [OF q(2,3)]) (use at True in simp)
    then show ?thesis using True by simp
  next
    case False
    have "flags_at v ?ms = flags_at v ms" by (rule flags_at_cong [OF q(2,3) p(2,3)]) (use at False in simp)
    then show ?thesis using False by simp
  qed
  have same: "rg_contains v r' \<longleftrightarrow> rg_contains v r" by (simp add: r(1) res(3) rg_contains_def rg_end_def)
  moreover have "rg_contains v r" if "in_range (unat v) addr len"
    using that eff ok by (auto simp: map_effect_def in_range_def inside_def rg_contains_iff)
  ultimately show ?thesis
    using kids here unfolding r(1) res(3) get_mapping_flags_at by (auto split: option.split)
qed

end
