(* ===== verification/User_Memory.thy ===== *)
theory User_Memory
  imports Vm_Safety
begin

text \<open>
  What a user program can get at through its address space: the rights behind a mapping, the check
  of user buffers before the kernel touches them, and two inputs on which the code leaves what it
  promises.
\<close>

section \<open>Rights behind a mapping\<close>

abbreviation rxw_flags :: "bool \<Rightarrow> bool \<Rightarrow> bool \<Rightarrow> mmu_flags" where
  "rxw_flags r w x \<equiv> flag_if r MMU_READ OR flag_if w MMU_WRITE OR flag_if x MMU_EXECUTE"

lemma rxw_flags_contain:
  "contains (rxw_flags r w x) MMU_READ \<longleftrightarrow> r" "contains (rxw_flags r w x) MMU_WRITE \<longleftrightarrow> w"
  "contains (rxw_flags r w x) MMU_EXECUTE \<longleftrightarrow> x"
  by (cases r; cases w; cases x; simp add: contains_def flag_if_def mmu_flag_defs)+

lemma contains_rxw:
  "contains (fl AND MMU_RXW) MMU_READ \<longleftrightarrow> contains fl MMU_READ" "contains (fl AND MMU_RXW) MMU_WRITE \<longleftrightarrow> contains fl MMU_WRITE"
  "contains (fl AND MMU_RXW) MMU_EXECUTE \<longleftrightarrow> contains fl MMU_EXECUTE"
  by (simp_all add: contains_def mmu_flag_defs and.assoc)

lemma user_rxw: "(MMU_USER OR rxw_flags r w x) AND MMU_RXW = rxw_flags r w x"
  by (cases r; cases w; cases x; simp add: flag_if_def mmu_flag_defs)

lemma contains_le: "contains p f \<Longrightarrow> contains f g \<Longrightarrow> contains p g"
  by (auto simp: contains_iff_bits)

lemma required_rights:
  assumes "contains rights (to_required_rights op)"
  shows "intersects op (VM_PERM_READ OR VM_PERM_READ_IF_XOM_UNSUPPORTED) \<Longrightarrow> contains rights RIGHT_READ"
    "contains op VM_PERM_WRITE \<Longrightarrow> contains rights RIGHT_WRITE" "contains op VM_PERM_EXECUTE \<Longrightarrow> contains rights RIGHT_EXECUTE"
  using assms by (auto simp: to_required_rights_def contains_iff_bits bit_or_iff flag_if_def)

definition backed_by :: "rights \<Rightarrow> mmu_flags \<Rightarrow> bool" where
  "backed_by rights fl \<longleftrightarrow>
     (contains fl MMU_READ \<longrightarrow> contains rights RIGHT_READ) \<and> (contains fl MMU_WRITE \<longrightarrow> contains rights RIGHT_WRITE)
     \<and> (contains fl MMU_EXECUTE \<longrightarrow> contains rights RIGHT_EXECUTE)"

lemma backed_by_vmo:
  assumes "contains (rxw_flags (contains rights RIGHT_READ) (contains rights RIGHT_WRITE) (contains rights RIGHT_EXECUTE)) (fl AND MMU_RXW)"
  shows "backed_by rights fl"
  unfolding backed_by_def using contains_le [OF assms] contains_rxw rxw_flags_contain by metis

lemma backed_by_vmar:
  assumes "contains rights (to_required_rights op)"
    and "fl AND MMU_RXW = rxw_flags (intersects op (VM_PERM_READ OR VM_PERM_READ_IF_XOM_UNSUPPORTED)) (contains op VM_PERM_WRITE) (contains op VM_PERM_EXECUTE)"
  shows "backed_by rights fl"
  unfolding backed_by_def using required_rights [OF assms(1)] contains_rxw [of fl] rxw_flags_contain unfolding assms(2) by metis

lemma sys_vmar_map_Ok:
  assumes "sys_vmar_map V options vmar_offset vmo resizable vo len vmar_rights vmo_rights r = (Ok addr, r', cmds)"
  obtains op off ow mr af where "from_bits VM_OPTIONS_ALL options = Some op" "contains vmar_rights (to_required_rights op)"
    "roundup_pages len \<noteq> 0" "off = None \<or> off = Some vmar_offset"
    "map_ext V off vmo vo (roundup_pages len)
       (rxw_flags (contains vmo_rights RIGHT_READ) (contains vmo_rights RIGHT_WRITE) (contains vmo_rights RIGHT_EXECUTE))
       (MMU_USER OR rxw_flags (intersects op (VM_PERM_READ OR VM_PERM_READ_IF_XOM_UNSUPPORTED)) (contains op VM_PERM_WRITE) (contains op VM_PERM_EXECUTE))
       ow mr af r = (Ok addr, r', cmds)"
proof (cases "from_bits VM_OPTIONS_ALL options")
  case (Some op)
  show ?thesis
    by (rule that [where op = op and ow = "contains op VM_SPECIFIC_OVERWRITE" and mr = "contains op VM_MAP_RANGE"
          and af = "contains op VM_ALLOW_FAULTS"
          and off = "if contains op VM_SPECIFIC \<or> contains op VM_SPECIFIC_OVERWRITE then Some vmar_offset else None"])
      (use assms Some in \<open>auto simp: sys_vmar_map_def or.assoc split: if_split_asm\<close>)
qed (use assms in \<open>simp add: sys_vmar_map_def\<close>)

lemma map_ext_permitted:
  assumes "map_ext V off vmo vo len perms flags ow mr af r = (Ok addr, r', cmds)"
  shows "contains perms (flags AND MMU_RXW)"
  using assms by (cases r) (auto split: if_splits)


lemmas vm_option_defs =
  VM_PERM_READ_def VM_PERM_WRITE_def VM_PERM_EXECUTE_def VM_COMPACT_def VM_SPECIFIC_def VM_SPECIFIC_OVERWRITE_def
  VM_CAN_MAP_SPECIFIC_def VM_CAN_MAP_READ_def VM_CAN_MAP_WRITE_def VM_CAN_MAP_EXECUTE_def VM_MAP_RANGE_def
  VM_REQUIRE_NON_RESIZABLE_def VM_ALLOW_FAULTS_def VM_PERM_READ_IF_XOM_UNSUPPORTED_def VM_CAN_MAP_RXW_def
  VM_PERM_RXW_def VM_OPTIONS_ALL_def

lemma sample_map_call:
  "\<exists>r' cmds. sys_vmar_map plain_vmo 0x11 0x4000 7 False 0 0x1000 RIGHT_READ (RIGHT_READ OR RIGHT_MAP) two_pages = (Ok 0x14000, r', cmds)"
  by (simp add: sys_vmar_map_def from_bits_def vm_option_defs flag_if_def intersects_def contains_def mmu_flag_defs
      RIGHT_READ_def RIGHT_MAP_def RIGHT_WRITE_def RIGHT_EXECUTE_def to_required_rights_def roundup_pages_def pages_def usize_ceil_def
      PAGE_SIZE_def two_pages_def plain_vmo_def page_aligned_def checked_add_def determine_offset_def check_aligned_def
      test_map_def m_overlap_def m_end_def)


section \<open>Checking user buffers\<close>

definition same_page :: "usize \<Rightarrow> usize \<Rightarrow> bool" where
  "same_page v w \<longleftrightarrow> unat v div 4096 = unat w div 4096"

lemma same_page_bound: "same_page v w \<Longrightarrow> 4096 dvd A \<Longrightarrow> A \<le> unat v \<longleftrightarrow> A \<le> unat w"
  using div_le_iff_dvd [of 4096 A "unat v"] div_le_iff_dvd [of 4096 A "unat w"] by (simp add: same_page_def)

lemma same_page_contains:
  assumes "same_page v w"
  shows "mapping_ok m \<Longrightarrow> m_contains v m \<longleftrightarrow> m_contains w m" "region_ok r \<Longrightarrow> rg_contains v r \<longleftrightarrow> rg_contains w r"
proof -
  assume m: "mapping_ok m"
  show "m_contains v m \<longleftrightarrow> m_contains w m"
    using mapping_ok_end [OF m] m same_page_bound [OF assms] unfolding m_contains_def word_le_nat_alt word_less_nat_alt not_le [symmetric]
    by (simp add: m_area_def mapping_ok_def)
next
  assume r: "region_ok r"
  show "rg_contains v r \<longleftrightarrow> rg_contains w r"
    using region_ok_end [OF r] same_page_bound [OF assms] unfolding rg_contains_def word_le_nat_alt word_less_nat_alt not_le [symmetric]
    by (simp add: rg_area_def)
qed

lemma same_page_flags_at:
  assumes sp: "same_page v w" and "list_all mapping_ok ms"
  shows "flags_at v ms = flags_at w ms"
proof -
  have f: "find (m_contains v) ms = find (m_contains w) ms"
    using assms(2) same_page_contains(1) [OF sp] by (induction ms) auto
  show ?thesis
  proof (cases "find (m_contains w) ms")
    case (Some m)
    then have m: "mapping_ok m" "m_contains w m" "m_contains v m"
      using find_SomeD assms(2) same_page_contains(1) [OF sp] by (fastforce simp: list_all_iff)+
    have "unat ((u - m_addr m) div PAGE_SIZE) = unat u div 4096 - unat (m_addr m) div 4096" if "m_contains u m" for u
      using that m(1) by (auto simp: m_contains_def unat_div unat_sub PAGE_SIZE_def mapping_ok_def elim!: dvdE)
    then have "unat ((v - m_addr m) div PAGE_SIZE) = unat ((w - m_addr m) div PAGE_SIZE)"
      using m(2,3) sp by (simp add: same_page_def)
    then show ?thesis using Some f by (simp add: flags_at_def)
  qed (simp add: flags_at_def f)
qed

lemma same_page_lookup:
  assumes sp: "same_page v w"
  shows "region_ok r \<Longrightarrow> get_mapping_flags v r = get_mapping_flags w r"
    and "regions_ok cs \<Longrightarrow> flags_in_children v cs = flags_in_children w cs"
proof (induction r and cs rule: region_ok_regions_ok.induct)
  case (2 f a s cs ms)
  let ?r = "Region f a s (Some (cs, ms))"
  have "flags_at v ms = flags_at w ms" "rg_contains v ?r \<longleftrightarrow> rg_contains w ?r" "flags_in_children v cs = flags_in_children w cs"
    using 2 same_page_flags_at [OF sp] same_page_contains(2) [OF sp, of ?r] by auto
  then show ?case unfolding get_mapping_flags_at by (simp split: option.split)
next
  case (4 c cs)
  then show ?case using same_page_contains(2) [OF sp, of c] by simp
qed simp_all

definition user_access :: "region \<Rightarrow> mmu_flags \<Rightarrow> usize \<Rightarrow> bool" where
  "user_access r access v \<longleftrightarrow>
     (case get_mapping_flags v r of Ok fl \<Rightarrow> contains fl MMU_USER \<and> contains fl access | _ \<Rightarrow> False)"

lemma same_page_access: "region_ok r \<Longrightarrow> same_page v w \<Longrightarrow> user_access r access v \<longleftrightarrow> user_access r access w"
  using same_page_lookup(1) by (simp add: user_access_def)

lemma page_multiples:
  assumes "4096 dvd (x :: nat)" "4096 dvd y" "x < y"
  shows "x + 4096 \<le> y"
  using assms by (auto elim!: dvdE)

declare check_pages.simps [simp del]

lemma check_pages_iff:
  assumes "region_ok r" "4096 dvd unat page" "4096 dvd unat end_page" "page \<le> end_page" "unat addr < unat page + 4096"
  shows "check_pages r addr access page end_page = Ok () \<longleftrightarrow>
    (\<forall>p. page \<le> p \<and> p \<le> end_page \<and> 4096 dvd unat p \<longrightarrow> user_access r access p)"
  using assms
proof (induction r addr access page end_page rule: check_pages.induct)
  case (1 r addr access page end_page)
  have sp: "same_page (max page addr) page"
    using 1(3,6) by (auto simp: same_page_def max_def word_le_nat_alt elim!: dvdE)
  have probe: "user_access r access page \<longleftrightarrow>
      (\<exists>fl. get_mapping_flags (max page addr) r = Ok fl \<and> contains fl MMU_USER \<and> contains fl access)"
    using same_page_access [OF 1(2) sp, of access] by (auto simp: user_access_def split: result.splits)
  show ?case
  proof (cases "user_access r access page \<and> page < end_page")
    case False
    then show ?thesis
      using probe 1(3,5) by (subst check_pages.simps) (auto split: result.splits if_splits)
  next
    case True
    obtain fl where fl: "get_mapping_flags (max page addr) r = Ok fl" "contains fl MMU_USER" "contains fl access"
      using True probe by blast
    have le: "unat page + 4096 \<le> unat end_page" using page_multiples 1(3,4) True by (simp add: word_less_nat_alt)
    moreover have "unat end_page < 2 ^ 64" using unsigned_less [of end_page] by simp
    ultimately have nxt: "unat page + 4096 < 2 ^ 64" by linarith
    then have ca: "checked_add page PAGE_SIZE = Some (page + PAGE_SIZE)" by (simp add: checked_add_def PAGE_SIZE_def)
    have u: "unat (page + PAGE_SIZE) = unat page + 4096" using nxt by (simp add: PAGE_SIZE_def unat_word_ariths)
    have "check_pages r addr access page end_page = check_pages r addr access (page + PAGE_SIZE) end_page"
      using fl ca True by (subst check_pages.simps) (simp add: not_le [symmetric])
    also have "\<dots> = Ok () \<longleftrightarrow>
        (\<forall>p. page + PAGE_SIZE \<le> p \<and> p \<le> end_page \<and> 4096 dvd unat p \<longrightarrow> user_access r access p)"
      by (rule 1(1) [OF fl(1) _ _ _ ca]) (use fl True 1(2-6) u le in \<open>auto simp: word_le_nat_alt\<close>)
    also have "\<dots> \<longleftrightarrow> (\<forall>p. page \<le> p \<and> p \<le> end_page \<and> 4096 dvd unat p \<longrightarrow> user_access r access p)"
    proof -
      have "p = page \<or> page + PAGE_SIZE \<le> p" if "page \<le> p" "4096 dvd unat p" for p
        using page_multiples [OF 1(3) that(2)] that(1) u word_unat_eq_iff [of p page] by (auto simp: word_le_nat_alt)
      moreover have "page \<le> p" if "page + PAGE_SIZE \<le> p" for p using that u by (simp add: word_le_nat_alt)
      ultimately show ?thesis using True by blast
    qed
    finally show ?thesis .
  qed
qed

lemma unat_page_base: "unat (x AND NOT (PAGE_SIZE - 1)) = unat x div 4096 * 4096"
proof -
  have "PAGE_SIZE - 1 = mask 12" by (simp add: PAGE_SIZE_def mask_eq_exp_minus_1)
  then have "x AND NOT (PAGE_SIZE - 1) = push_bit 12 (drop_bit 12 x)"
    by (auto intro!: bit_word_eqI simp: bit_and_iff bit_not_iff bit_mask_iff bit_push_bit_iff bit_drop_bit_eq)
  moreover have "unat (push_bit 12 (drop_bit 12 x)) = unat x div 4096 * 4096"
  proof -
    have "unat x div 4096 * 4096 \<le> unat x" by simp
    also have "unat x < 2 ^ 64" using unsigned_less [of x] by simp
    finally show ?thesis by (simp add: push_bit_eq_mult unat_word_ariths unat_drop_bit_eq drop_bit_eq_div)
  qed
  ultimately show ?thesis by simp
qed

lemma same_page_base: "same_page v (v AND NOT (PAGE_SIZE - 1))"
  by (simp add: same_page_def unat_page_base)

lemma pages_or_bytes:
  fixes addr e :: usize
  assumes "region_ok r" "addr \<le> e"
  shows "(\<forall>p. addr AND NOT (PAGE_SIZE - 1) \<le> p \<and> p \<le> e AND NOT (PAGE_SIZE - 1) \<and> 4096 dvd unat p \<longrightarrow> user_access r access p)
    \<longleftrightarrow> (\<forall>v. addr \<le> v \<and> v \<le> e \<longrightarrow> user_access r access v)" (is "?P \<longleftrightarrow> ?B")
proof
  assume P: ?P
  show ?B
  proof (intro allI impI)
    fix v assume v: "addr \<le> v \<and> v \<le> e"
    have "user_access r access (v AND NOT (PAGE_SIZE - 1))"
      by (rule P [rule_format]) (use v in \<open>auto simp: word_le_nat_alt unat_page_base intro: div_le_mono\<close>)
    then show "user_access r access v" using same_page_access [OF assms(1) same_page_base] by blast
  qed
next
  assume B: ?B
  show ?P
  proof (intro allI impI)
    fix p assume p: "addr AND NOT (PAGE_SIZE - 1) \<le> p \<and> p \<le> e AND NOT (PAGE_SIZE - 1) \<and> 4096 dvd unat p"
    have b: "unat addr div 4096 * 4096 \<le> unat p" "unat p \<le> unat e div 4096 * 4096" "4096 dvd unat p"
      using p by (auto simp: word_le_nat_alt unat_page_base)
    have "unat e div 4096 * 4096 \<le> unat e" by simp
    then have "user_access r access (max addr p)" using B assms(2) b by (auto simp: max_def word_le_nat_alt)
    moreover have "same_page (max addr p) p"
      using b(1,3) by (auto simp: same_page_def max_def word_le_nat_alt elim!: dvdE)
    ultimately show "user_access r access p" using same_page_access [OF assms(1)] by blast
  qed
qed

text \<open>
  C6. The check of a user buffer accepts exactly the buffers the user may use: for a buffer of at
  least one byte that does not run over the end of the address space, it succeeds if and only if every
  single byte of the buffer is mapped for the user with the access asked for. A buffer that runs over
  the end of the address space is refused.
\<close>

theorem check_user_range_exact:
  assumes "region_ok r" "0 < unat len"
  shows "check_user_range addr len access r = Ok () \<longleftrightarrow>
    unat addr + unat len \<le> 2 ^ 64 \<and> (\<forall>v. unat addr \<le> unat v \<and> unat v < unat addr + unat len \<longrightarrow> user_access r access v)"
proof -
  have l: "unat (len - 1) = unat len - 1" using assms(2) by (simp add: unat_sub word_le_nat_alt)
  show ?thesis
  proof (cases "unat addr + unat len \<le> 2 ^ 64")
    case True
    let ?e = "addr + (len - 1)" and ?base = "\<lambda>x. x AND NOT (PAGE_SIZE - 1)"
    have e: "unat ?e = unat addr + unat len - 1" using True assms(2) l by (simp add: unat_word_ariths)
    have ca: "checked_add addr (len - 1) = Some ?e" using True assms(2) l by (simp add: checked_add_def)
    have "check_user_range addr len access r = check_pages r addr access (?base addr) (?base ?e)"
      using assms(2) ca by (auto simp: check_user_range_def)
    also have "\<dots> = Ok () \<longleftrightarrow> (\<forall>p. ?base addr \<le> p \<and> p \<le> ?base ?e \<and> 4096 dvd unat p \<longrightarrow> user_access r access p)"
    proof (rule check_pages_iff [OF assms(1)])
      show "?base addr \<le> ?base ?e" using e assms(2) unfolding word_le_nat_alt unat_page_base by (simp add: div_le_mono)
      show "unat addr < unat (?base addr) + 4096" 
        unfolding unat_page_base using dividend_less_div_times [of 4096 "unat addr"] by simp
    qed (unfold unat_page_base, simp_all)
    also have "\<dots> \<longleftrightarrow> (\<forall>v. unat addr \<le> unat v \<and> unat v < unat addr + unat len \<longrightarrow> user_access r access v)"
      using pages_or_bytes [OF assms(1), of addr ?e access] e assms(2) by (simp add: word_le_nat_alt less_Suc_eq_le [symmetric])
    finally show ?thesis using True by simp
  next
    case False
    then have "checked_add addr (len - 1) = None" using l by (simp add: checked_add_def)
    then show ?thesis using False assms(2) by (auto simp: check_user_range_def)
  qed
qed

definition user_page :: region where
  "user_page =
     Region 0 0x10000 0x10000
       (Some ([], [\<lparr>m_permissions = MMU_RXW, m_vmo = 1, m_flags = [MMU_USER OR MMU_READ], m_addr = 0x12000,
                    m_size = 0x1000, m_vmo_offset = 0\<rparr>]))"

lemma user_page_ok: "region_ok user_page"
  by (simp add: user_page_def areas_def mapping_ok_def m_area_def inside_def contains_def mmu_flag_defs)

lemma user_page_access: "user_access user_page MMU_READ v \<longleftrightarrow> 0x12000 \<le> unat v \<and> unat v < 0x13000"
proof -
  have "user_access user_page MMU_READ v \<longleftrightarrow> 0x12000 \<le> v \<and> v < 0x13000"
    by (auto simp: user_access_def user_page_def rg_contains_def rg_end_def m_contains_def m_end_def PAGE_SIZE_def
        contains_def mmu_flag_defs unat_div unat_sub word_le_nat_alt word_less_nat_alt split: if_splits)
  then show ?thesis by (simp add: word_le_nat_alt word_less_nat_alt)
qed

theorem check_user_range_exact_witness:
  "region_ok user_page \<and> check_user_range 0x12800 0x800 MMU_READ user_page = Ok ()
     \<and> check_user_range 0x12800 0x801 MMU_READ user_page \<noteq> Ok ()
     \<and> check_user_range (- 0x10) 0x20 MMU_READ user_page \<noteq> Ok ()"
proof -
  have "check_user_range 0x12800 0x800 MMU_READ user_page = Ok ()"
    using check_user_range_exact [OF user_page_ok, of "0x800" "0x12800" MMU_READ] by (auto simp: user_page_access)
  moreover have "check_user_range 0x12800 0x801 MMU_READ user_page \<noteq> Ok ()"
    using check_user_range_exact [OF user_page_ok, of "0x801" "0x12800" MMU_READ] by (auto simp: user_page_access intro!: exI [of _ "0x13000"])
  moreover have "check_user_range (- 0x10) 0x20 MMU_READ user_page \<noteq> Ok ()"
    using check_user_range_exact [OF user_page_ok, of "0x20" "- 0x10" MMU_READ] by simp
  ultimately show ?thesis using user_page_ok by simp
qed

section \<open>Where the code leaves its promise\<close>

text \<open>
  C39. A mapping can be placed outside the region it is made in: for an exact offset that makes the
  sum of the base address and the offset wrap around, the check of \<^verbatim>\<open>test_map\<close> passes although the mapping
  ends up below the region's first address.
\<close>

theorem mapping_escapes_its_region:
  assumes "region_ok r" "rg_inner r = Some ([], [])" "4096 dvd unat off" "4096 dvd unat len" "0 < unat len"
    and "2 ^ 64 \<le> unat (rg_addr r) + unat off" "unat (rg_addr r) + unat off + unat len \<le> 2 ^ 64 + unat (rg_addr r)"
    and "contains perms (flags AND MMU_RXW)"
  shows "\<exists>r' m. map_ext V (Some off) vmo 0 len perms flags False False True r = (Ok (rg_addr r + off), r', [])
      \<and> rg_inner r' = Some ([], [m]) \<and> unat (m_addr m) + unat (m_size m) \<le> unat (rg_addr r)"
proof -
  obtain f a s cs ms where r': "r = Region f a s (Some (cs, ms))" and room: "unat a + 2 * unat s < 2 ^ 64"
    using region_ok_cases [OF assms(1)] by metis
  then have r: "r = Region f a s (Some ([], []))" using assms(2) by simp
  have lt: "unat a < 2 ^ 64" using unsigned_less [of a] by simp
  have x: "2 ^ 64 \<le> unat a + unat off" "unat a + unat off + unat len \<le> 2 ^ 64 + unat a" using assms(6,7) by (simp_all add: r)
  have "(unat a + unat off) mod 2 ^ 64 = unat a + unat off - 2 ^ 64"
    by (rule mod_nat_eqI) (use x lt assms(5) in auto)
  then have b: "unat (a + off) = unat a + unat off - 2 ^ 64" by (simp add: unat_word_ariths)
  have "unat (a + off) + unat len < 2 ^ 64" using b x lt by linarith
  then have e: "unat (a + off + len) = unat a + unat off - 2 ^ 64 + unat len"
    using b by (simp add: unat_word_ariths(1) [of "a + off"])
  have "unat (a + s) = unat a + unat s" using room by (simp add: unat_word_ariths)
  then have "\<not> a + off + len > a + s" using e x by (simp add: word_less_nat_alt)
  then show ?thesis
    using assms(3,4,8) b x unsigned_less [of len]
    by (auto simp: r page_aligned_iff check_aligned_iff checked_add_def determine_offset_def test_map_def PAGE_SIZE_def mapping_new_def)
qed

definition empty_region :: region where "empty_region = Region 0 0x10000000 0x10000 (Some ([], []))"

theorem mapping_escapes_its_region_witness:
  "region_ok empty_region \<and>
   (\<exists>r' m. map_ext plain_vmo (Some (- 0x8000000)) 7 0 0x1000 MMU_RXW MMU_READ False False True empty_region
        = (Ok 0x8000000, r', []) \<and> rg_inner r' = Some ([], [m]) \<and> unat (m_addr m) + unat (m_size m) \<le> 0x10000000)"
proof -
  have ok: "region_ok empty_region" by (simp add: empty_region_def areas_def)
  have "contains MMU_RXW (MMU_READ AND MMU_RXW)" by (simp add: contains_def mmu_flag_defs)
  with mapping_escapes_its_region [OF ok, of "- 0x8000000" "0x1000" MMU_RXW MMU_READ plain_vmo 7] ok
  show ?thesis by (simp add: empty_region_def)
qed

text \<open>
  C40. A mapping that does not start at the beginning of its VM object is never told of changes to the
  object's pages, as long as the object has no more than 4096 pages: the offset of the mapping, which
  is in bytes, is compared with a number of pages. Pages that became copy-on-write stay writable.
\<close>

theorem range_change_misses_offset_mappings:
  assumes "4096 \<le> unat (m_vmo_offset m)" "unat page + unat n \<le> 4096"
  shows "range_change page n op m = Ok []"
proof -
  have "unat (page + n) = unat page + unat n" using assms(2) by (simp add: unat_word_ariths)
  then have "\<not> max page (m_vmo_offset m) < min (m_vmo_offset m + m_size m div PAGE_SIZE) (page + n)"
    using assms by (auto simp: max_def min_def word_less_nat_alt word_le_nat_alt)
  then show ?thesis unfolding range_change_def Let_def by (simp only: if_False)
qed

definition second_page :: vm_mapping where
  "second_page = \<lparr>m_permissions = MMU_RXW, m_vmo = 1, m_flags = [MMU_USER OR MMU_READ OR MMU_WRITE], m_addr = 0x12000,
                  m_size = 0x1000, m_vmo_offset = 0x1000\<rparr>"

theorem range_change_misses_offset_mappings_witness:
  "range_change 1 1 RemoveWrite second_page = Ok [] \<and> m_at 0x12000 second_page = Some (1, 1 * 4096, MMU_USER OR MMU_READ OR MMU_WRITE)"
  using range_change_misses_offset_mappings [of second_page 1 1 RemoveWrite] by (simp add: second_page_def m_at_def)

end
