(* ===== verification/Page_Table.thy ===== *)
theory Page_Table
  imports Pages
begin

text \<open>
  Page tables: the generic table of \<^verbatim>\<open>kernel-hal/src/utils/page_table.rs\<close> with three or four levels
  over an entry type, the entry types of x86-64, RISC-V and AArch64
  (\<^verbatim>\<open>kernel-hal/src/bare/arch/\<close>), and the operations on ranges of \<^verbatim>\<open>kernel-hal/src/common/vm.rs\<close>.

  The trait of entries is a record of functions on 64-bit words. Memory is a store of tables: the
  entries of the table in the frame at a physical address. The frame allocator is not part of the
  repository; the frames it will hand out are a list in the state. Flushing the TLB has no effect on
  the tables and is left out.
\<close>

section \<open>Page sizes\<close>

datatype page_size = Size4K | Size16K | Size2M | Size1G

fun page_size_bytes :: "page_size \<Rightarrow> usize" where
  "page_size_bytes Size4K = 0x1000"
| "page_size_bytes Size16K = 0x4000"
| "page_size_bytes Size2M = 0x200000"
| "page_size_bytes Size1G = 0x40000000"

definition page_offset :: "page_size \<Rightarrow> usize \<Rightarrow> usize" where
  "page_offset sz addr = addr AND (page_size_bytes sz - 1)"

definition align_down :: "page_size \<Rightarrow> usize \<Rightarrow> usize" where
  "align_down sz addr = addr AND NOT (page_size_bytes sz - 1)"

definition size_aligned :: "page_size \<Rightarrow> usize \<Rightarrow> bool" where
  "size_aligned sz addr \<longleftrightarrow> page_offset sz addr = 0"

fun is_huge :: "page_size \<Rightarrow> bool" where
  "is_huge Size1G = True" | "is_huge Size2M = True" | "is_huge _ = False"

record page =
  pg_vaddr :: usize
  pg_size :: page_size

section \<open>Entries\<close>

text \<open>The trait \<^verbatim>\<open>GenericPTE\<close>; \<^verbatim>\<open>is_unused\<close> and \<^verbatim>\<open>clear\<close> are the same for every entry type.\<close>

type_synonym pte = u64

record pte_ops =
  pte_addr :: "pte \<Rightarrow> usize"
  pte_flags :: "pte \<Rightarrow> mmu_flags paging_result"
  pte_present :: "pte \<Rightarrow> bool"
  pte_leaf :: "pte \<Rightarrow> bool"
  pte_set_flags :: "mmu_flags \<Rightarrow> bool \<Rightarrow> pte \<Rightarrow> pte"
  pte_set_addr :: "usize \<Rightarrow> pte \<Rightarrow> pte"
  pte_set_table :: "usize \<Rightarrow> pte \<Rightarrow> pte"

definition is_unused :: "pte \<Rightarrow> bool" where
  "is_unused e \<longleftrightarrow> e = 0"

subsection \<open>x86-64\<close>

definition X86_PRESENT :: u64 where "X86_PRESENT = 1"
definition X86_WRITABLE :: u64 where "X86_WRITABLE = 2"
definition X86_USER :: u64 where "X86_USER = 4"
definition X86_WRITE_THROUGH :: u64 where "X86_WRITE_THROUGH = 8"
definition X86_NO_CACHE :: u64 where "X86_NO_CACHE = 16"
definition X86_HUGE_PAGE :: u64 where "X86_HUGE_PAGE = 128"
definition X86_GLOBAL :: u64 where "X86_GLOBAL = 256"
definition X86_NO_EXECUTE :: u64 where "X86_NO_EXECUTE = 0x8000000000000000"

definition X86_ADDR_MASK :: u64 where "X86_ADDR_MASK = 0x000ffffffffff000"

definition set_if :: "bool \<Rightarrow> u64 \<Rightarrow> u64" where
  "set_if c bits = (if c then bits else 0)"

definition x86_from_mmu :: "mmu_flags \<Rightarrow> u64" where
  "x86_from_mmu f =
     (if f = 0 then 0
      else X86_PRESENT OR set_if (contains f MMU_WRITE) X86_WRITABLE
             OR set_if (\<not> contains f MMU_EXECUTE) X86_NO_EXECUTE OR set_if (contains f MMU_USER) X86_USER
             OR set_if (f AND 3 \<noteq> 0) (X86_NO_CACHE OR X86_WRITE_THROUGH))"

text \<open>\<^verbatim>\<open>from_bits_truncate\<close> keeps the bits outside the address.\<close>

definition x86_to_mmu :: "u64 \<Rightarrow> mmu_flags" where
  "x86_to_mmu e =
     (let f = e AND NOT X86_ADDR_MASK
      in if f = 0 then 0
         else MMU_READ OR (if contains f X86_WRITABLE then MMU_WRITE else 0)
                OR (if \<not> contains f X86_NO_EXECUTE then MMU_EXECUTE else 0)
                OR (if contains f X86_USER then MMU_USER else 0)
                OR (if contains f (X86_NO_CACHE OR X86_WRITE_THROUGH) then MMU_CACHE_1 else 0))"

definition x86_pte :: pte_ops where
  "x86_pte =
     \<lparr>pte_addr = (\<lambda>e. e AND X86_ADDR_MASK),
      pte_flags = (\<lambda>e. Ok (x86_to_mmu e)),
      pte_present = (\<lambda>e. contains e X86_PRESENT),
      pte_leaf = (\<lambda>e. contains e X86_HUGE_PAGE),
      pte_set_flags = (\<lambda>fl huge e. (e AND X86_ADDR_MASK) OR x86_from_mmu fl OR set_if huge X86_HUGE_PAGE),
      pte_set_addr = (\<lambda>pa e. (e AND NOT X86_ADDR_MASK) OR (pa AND X86_ADDR_MASK)),
      pte_set_table = (\<lambda>pa e. (pa AND X86_ADDR_MASK) OR X86_PRESENT OR X86_WRITABLE OR X86_USER)\<rparr>"

subsection \<open>RISC-V\<close>

definition RV_VALID :: u64 where "RV_VALID = 1"
definition RV_READABLE :: u64 where "RV_READABLE = 2"
definition RV_WRITABLE :: u64 where "RV_WRITABLE = 4"
definition RV_EXECUTABLE :: u64 where "RV_EXECUTABLE = 8"
definition RV_USER :: u64 where "RV_USER = 16"
definition RV_GLOBAL :: u64 where "RV_GLOBAL = 32"
definition RV_ACCESSED :: u64 where "RV_ACCESSED = 64"
definition RV_DIRTY :: u64 where "RV_DIRTY = 128"

definition RV_ADDR_MASK :: u64 where "RV_ADDR_MASK = 0x003ffffffffffc00"

definition rv_from_mmu :: "mmu_flags \<Rightarrow> u64" where
  "rv_from_mmu f =
     (if f = 0 then 0
      else RV_VALID OR (if contains f MMU_WRITE then RV_READABLE OR RV_WRITABLE
                        else if contains f MMU_READ then RV_READABLE else 0)
             OR set_if (contains f MMU_EXECUTE) RV_EXECUTABLE OR set_if (contains f MMU_USER) RV_USER)"

definition rv_to_mmu :: "u64 \<Rightarrow> mmu_flags" where
  "rv_to_mmu e =
     (if contains e RV_READABLE then MMU_READ else 0) OR (if contains e RV_WRITABLE then MMU_WRITE else 0)
     OR (if contains e RV_EXECUTABLE then MMU_EXECUTE else 0) OR (if contains e RV_USER then MMU_USER else 0)"

definition rv_pte :: pte_ops where
  "rv_pte =
     \<lparr>pte_addr = (\<lambda>e. push_bit 2 (e AND RV_ADDR_MASK)),
      pte_flags = (\<lambda>e. Ok (rv_to_mmu e)),
      pte_present = (\<lambda>e. contains e RV_VALID),
      pte_leaf = (\<lambda>e. intersects e (RV_READABLE OR RV_EXECUTABLE)),
      pte_set_flags = (\<lambda>fl huge e. (e AND RV_ADDR_MASK) OR rv_from_mmu fl OR RV_ACCESSED OR RV_DIRTY),
      pte_set_addr = (\<lambda>pa e. (e AND NOT RV_ADDR_MASK) OR (drop_bit 2 pa AND RV_ADDR_MASK)),
      pte_set_table = (\<lambda>pa e. (drop_bit 2 pa AND RV_ADDR_MASK) OR RV_VALID)\<rparr>"

subsection \<open>AArch64\<close>

definition A64_VALID :: u64 where "A64_VALID = 1"
definition A64_NON_BLOCK :: u64 where "A64_NON_BLOCK = 2"
definition A64_ATTR_MASK :: u64 where "A64_ATTR_MASK = 0x1c"
definition A64_AP_EL0 :: u64 where "A64_AP_EL0 = 0x40"
definition A64_AP_RO :: u64 where "A64_AP_RO = 0x80"
definition A64_INNER :: u64 where "A64_INNER = 0x100"
definition A64_SHAREABLE :: u64 where "A64_SHAREABLE = 0x200"
definition A64_AF :: u64 where "A64_AF = 0x400"
definition A64_NG :: u64 where "A64_NG = 0x800"
definition A64_PXN :: u64 where "A64_PXN = 0x20000000000000"
definition A64_UXN :: u64 where "A64_UXN = 0x40000000000000"

definition A64_ADDR_MASK :: u64 where "A64_ADDR_MASK = 0xfffffff000"

datatype mem_type = Device | Normal

fun from_mem_type :: "mem_type \<Rightarrow> u64" where
  "from_mem_type Device = 0"
| "from_mem_type Normal = 4 OR A64_INNER OR A64_SHAREABLE"

definition ptf_mem_type :: "u64 \<Rightarrow> mem_type paging_result" where
  "ptf_mem_type e =
     (let i = drop_bit 2 (e AND A64_ATTR_MASK) in if i = 0 then Ok Device else if i = 1 then Ok Normal else Panic)"

definition a64_from_mmu :: "mmu_flags \<Rightarrow> u64" where
  "a64_from_mmu f =
     (let flags = from_mem_type (if contains f MMU_DEVICE then Device else Normal)
      in if f = 0 then flags
         else flags OR set_if (intersects f (MMU_READ OR MMU_WRITE OR MMU_EXECUTE)) A64_VALID
                OR set_if (\<not> contains f MMU_WRITE) A64_AP_RO
                OR (if contains f MMU_USER
                    then A64_AP_EL0 OR A64_PXN OR set_if (\<not> contains f MMU_EXECUTE) A64_UXN
                    else A64_UXN OR set_if (\<not> contains f MMU_EXECUTE) A64_PXN))"

definition a64_to_mmu :: "u64 \<Rightarrow> mmu_flags paging_result" where
  "a64_to_mmu e =
     result_bind (ptf_mem_type e) (\<lambda>mt. Ok (
       (if contains e A64_VALID then MMU_READ else 0) OR (if \<not> contains e A64_AP_RO then MMU_WRITE else 0)
       OR (if contains e A64_AP_EL0 then MMU_USER OR (if \<not> contains e A64_UXN then MMU_EXECUTE else 0)
           else if intersects e A64_PXN then MMU_EXECUTE else 0)
       OR (if mt = Device then MMU_DEVICE else 0)))"

definition a64_pte :: pte_ops where
  "a64_pte =
     \<lparr>pte_addr = (\<lambda>e. e AND A64_ADDR_MASK),
      pte_flags = a64_to_mmu,
      pte_present = (\<lambda>e. contains e A64_VALID),
      pte_leaf = (\<lambda>e. \<not> intersects e A64_NON_BLOCK),
      pte_set_flags = (\<lambda>fl huge e. (e AND A64_ADDR_MASK) OR a64_from_mmu fl OR A64_AF OR set_if (\<not> huge) A64_NON_BLOCK),
      pte_set_addr = (\<lambda>pa e. pa AND A64_ADDR_MASK),
      pte_set_table = (\<lambda>pa e. (pa AND A64_ADDR_MASK) OR A64_VALID OR A64_NON_BLOCK)\<rparr>"

section \<open>Tables\<close>

record page_table =
  pt_root :: usize
  pt_intrm :: "usize list"
  pt_mem :: "usize \<Rightarrow> nat \<Rightarrow> pte"
  pt_free :: "usize list"

definition p4_index :: "usize \<Rightarrow> nat" where "p4_index v = unat (drop_bit 39 v AND 511)"
definition p3_index :: "usize \<Rightarrow> nat" where "p3_index v = unat (drop_bit 30 v AND 511)"
definition p2_index :: "usize \<Rightarrow> nat" where "p2_index v = unat (drop_bit 21 v AND 511)"
definition p1_index :: "usize \<Rightarrow> nat" where "p1_index v = unat (drop_bit 12 v AND 511)"

definition upd_entry :: "usize \<Rightarrow> nat \<Rightarrow> pte \<Rightarrow> page_table \<Rightarrow> page_table" where
  "upd_entry t i e s = s\<lparr>pt_mem := (pt_mem s)(t := (pt_mem s t)(i := e))\<rparr>"

definition alloc_intrm_table :: "page_table \<Rightarrow> (usize \<times> page_table) option" where
  "alloc_intrm_table s =
     (case pt_free s of
        [] \<Rightarrow> None
      | f # fs \<Rightarrow> Some (f, s\<lparr>pt_free := fs, pt_intrm := pt_intrm s @ [f], pt_mem := (pt_mem s)(f := (\<lambda>_. 0))\<rparr>))"

definition next_table_mut :: "pte_ops \<Rightarrow> pte \<Rightarrow> usize paging_result" where
  "next_table_mut P e = (if \<not> pte_present P e then Err NotMapped else Ok (pte_addr P e))"

definition next_table_mut_or_create :: "pte_ops \<Rightarrow> usize \<Rightarrow> nat \<Rightarrow> page_table \<Rightarrow> usize paging_result \<times> page_table" where
  "next_table_mut_or_create P t i s =
     (if is_unused (pt_mem s t i)
      then (case alloc_intrm_table s of
              None \<Rightarrow> (Err NoMemory, s)
            | Some (f, s1) \<Rightarrow> (Ok f, upd_entry t i (pte_set_table P f (pt_mem s t i)) s1))
      else (next_table_mut P (pt_mem s t i), s))"

text \<open>
  An entry is given by the table it is in and its index there. \<open>L\<close> is the number of levels; a table
  type with another number than three or four does not exist.
\<close>

definition get_entry_mut :: "pte_ops \<Rightarrow> nat \<Rightarrow> page_table \<Rightarrow> usize \<Rightarrow> (usize \<times> nat \<times> page_size) paging_result" where
  "get_entry_mut P L s v =
     result_bind
       (if L = 3 then Ok (pt_root s)
        else if L = 4 then next_table_mut P (pt_mem s (pt_root s) (p4_index v))
        else Panic)
       (\<lambda>p3. let p3e = pt_mem s p3 (p3_index v)
             in if pte_leaf P p3e then Ok (p3, p3_index v, Size1G)
                else result_bind (next_table_mut P p3e) (\<lambda>p2.
                       let p2e = pt_mem s p2 (p2_index v)
                       in if pte_leaf P p2e then Ok (p2, p2_index v, Size2M)
                          else result_bind (next_table_mut P p2e) (\<lambda>p1. Ok (p1, p1_index v, Size4K))))"

fun then_with :: "'a paging_result \<times> page_table \<Rightarrow> ('a \<Rightarrow> page_table \<Rightarrow> 'b paging_result \<times> page_table) \<Rightarrow> 'b paging_result \<times> page_table" where
  "then_with (Ok x, s) f = f x s"
| "then_with (Err e, s) f = (Err e, s)"
| "then_with (Panic, s) f = (Panic, s)"

definition get_entry_mut_or_create :: "pte_ops \<Rightarrow> nat \<Rightarrow> page \<Rightarrow> page_table \<Rightarrow> (usize \<times> nat) paging_result \<times> page_table" where
  "get_entry_mut_or_create P L pg s =
     (let v = pg_vaddr pg
      in then_with
           (if L = 3 then (Ok (pt_root s), s)
            else if L = 4 then next_table_mut_or_create P (pt_root s) (p4_index v) s
            else (Panic, s))
           (\<lambda>p3 s.
              if pg_size pg = Size1G then (Ok (p3, p3_index v), s)
              else then_with (next_table_mut_or_create P p3 (p3_index v) s) (\<lambda>p2 s.
                     if pg_size pg = Size2M then (Ok (p2, p2_index v), s)
                     else then_with (next_table_mut_or_create P p2 (p2_index v) s) (\<lambda>p1 s. (Ok (p1, p1_index v), s)))))"

definition pt_new :: "(usize \<Rightarrow> nat \<Rightarrow> pte) \<Rightarrow> usize list \<Rightarrow> page_table paging_result" where
  "pt_new mem free =
     (case free of
        [] \<Rightarrow> Panic
      | f # fs \<Rightarrow> Ok \<lparr>pt_root = f, pt_intrm = [], pt_mem = mem(f := (\<lambda>_. 0)), pt_free = fs\<rparr>)"

definition pt_map :: "pte_ops \<Rightarrow> nat \<Rightarrow> page \<Rightarrow> usize \<Rightarrow> mmu_flags \<Rightarrow> page_table \<Rightarrow> unit paging_result \<times> page_table" where
  "pt_map P L pg paddr flags s =
     then_with (get_entry_mut_or_create P L pg s) (\<lambda>(t, i) s.
       if \<not> is_unused (pt_mem s t i) then (Err AlreadyMapped, s)
       else (Ok (), upd_entry t i (pte_set_flags P flags (is_huge (pg_size pg))
                                     (pte_set_addr P (align_down (pg_size pg) paddr) (pt_mem s t i))) s))"

definition pt_unmap :: "pte_ops \<Rightarrow> nat \<Rightarrow> usize \<Rightarrow> page_table \<Rightarrow> (usize \<times> page_size) paging_result \<times> page_table" where
  "pt_unmap P L v s =
     then_with (get_entry_mut P L s v, s) (\<lambda>(t, i, sz) s.
       if is_unused (pt_mem s t i) then (Err NotMapped, s)
       else (Ok (pte_addr P (pt_mem s t i), sz), upd_entry t i 0 s))"

definition pt_update ::
  "pte_ops \<Rightarrow> nat \<Rightarrow> usize \<Rightarrow> usize option \<Rightarrow> mmu_flags option \<Rightarrow> page_table \<Rightarrow> page_size paging_result \<times> page_table" where
  "pt_update P L v paddr flags s =
     then_with (get_entry_mut P L s v, s) (\<lambda>(t, i, sz) s.
       let e = (case paddr of Some pa \<Rightarrow> pte_set_addr P pa (pt_mem s t i) | None \<Rightarrow> pt_mem s t i);
           e' = (case flags of Some fl \<Rightarrow> pte_set_flags P fl (is_huge sz) e | None \<Rightarrow> e)
       in (Ok sz, upd_entry t i e' s))"

definition pt_query :: "pte_ops \<Rightarrow> nat \<Rightarrow> page_table \<Rightarrow> usize \<Rightarrow> (usize \<times> mmu_flags \<times> page_size) paging_result" where
  "pt_query P L s v =
     result_bind (get_entry_mut P L s v) (\<lambda>(t, i, sz).
       if is_unused (pt_mem s t i) then Err NotMapped
       else result_bind (pte_flags P (pt_mem s t i)) (\<lambda>fl.
              Ok (pte_addr P (pt_mem s t i) + page_offset sz v, fl, sz)))"

section \<open>Ranges of pages\<close>

text \<open>The page size \<^verbatim>\<open>map_cont\<close> takes for its next step.\<close>

definition cont_size :: "mmu_flags \<Rightarrow> usize \<Rightarrow> usize \<Rightarrow> usize \<Rightarrow> page_size" where
  "cont_size flags v e paddr =
     (if \<not> contains flags MMU_HUGE_PAGE then Size4K
      else if e - v \<ge> page_size_bytes Size1G \<and> size_aligned Size1G v \<and> size_aligned Size1G paddr then Size1G
      else if e - v \<ge> page_size_bytes Size2M \<and> size_aligned Size2M v \<and> size_aligned Size2M paddr then Size2M
      else Size4K)"

partial_function (option) map_cont_loop ::
  "pte_ops \<Rightarrow> nat \<Rightarrow> mmu_flags \<Rightarrow> usize \<Rightarrow> usize \<Rightarrow> usize \<Rightarrow> page_table \<Rightarrow> (unit paging_result \<times> page_table) option" where
  "map_cont_loop P L flags e v paddr s =
     (if v < e
      then (let sz = cont_size flags v e paddr
            in case pt_map P L \<lparr>pg_vaddr = v, pg_size = sz\<rparr> paddr flags s of
                 (Ok _, s1) \<Rightarrow> map_cont_loop P L flags e (v + page_size_bytes sz) (paddr + page_size_bytes sz) s1
               | (r, s1) \<Rightarrow> Some (r, s1))
      else Some (Ok (), s))"

definition map_cont ::
  "pte_ops \<Rightarrow> nat \<Rightarrow> usize \<Rightarrow> usize \<Rightarrow> usize \<Rightarrow> mmu_flags \<Rightarrow> page_table \<Rightarrow> (unit paging_result \<times> page_table) option" where
  "map_cont P L start len paddr flags s =
     (if \<not> size_aligned Size4K start \<or> \<not> size_aligned Size4K len then Some (Panic, s)
      else map_cont_loop P L flags (start + len) start paddr s)"

fun split_rest ::
  "(unit paging_result \<times> page_table) option \<Rightarrow> (page_table \<Rightarrow> (unit paging_result \<times> page_table) option) \<Rightarrow> (unit paging_result \<times> page_table) option" where
  "split_rest None f = None"
| "split_rest (Some (Ok _, s)) f = f s"
| "split_rest (Some (Err e, s)) f = Some (Err e, s)"
| "split_rest (Some (Panic, s)) f = Some (Panic, s)"

text \<open>Putting back what lies before and behind the removed part of a page that was mapped as one.\<close>

definition map_remains ::
  "pte_ops \<Rightarrow> nat \<Rightarrow> usize \<Rightarrow> usize \<Rightarrow> usize \<Rightarrow> usize \<Rightarrow> usize \<Rightarrow> mmu_flags \<Rightarrow> page_table \<Rightarrow> (unit paging_result \<times> page_table) option" where
  "map_remains P L mapping_start v remove_end mapping_end paddr_start flags s =
     (let fl = flag_insert flags MMU_HUGE_PAGE
      in split_rest
           (if mapping_start < v then map_cont P L mapping_start (v - mapping_start) paddr_start fl s else Some (Ok (), s))
           (\<lambda>s. if remove_end < mapping_end
                then map_cont P L remove_end (mapping_end - remove_end) (paddr_start + remove_end - mapping_start) fl s
                else Some (Ok (), s)))"

lemma mono_split_rest [partial_function_mono]:
  fixes f :: "('x \<Rightarrow> 'y option) \<Rightarrow> (unit paging_result \<times> page_table) option"
  assumes "mono_option f" "\<And>s. mono_option (\<lambda>h. g h s)"
  shows "mono_option (\<lambda>h. split_rest (f h) (g h))"
proof (rule monotoneI)
  fix x y :: "'x \<Rightarrow> 'y option" assume xy: "fun_ord option_ord x y"
  have f: "option_ord (f x) (f y)" and g: "\<And>s. option_ord (g x s) (g y s)"
    using assms xy by (simp_all add: monotone_def)
  show "option_ord (split_rest (f x) (g x)) (split_rest (f y) (g y))"
  proof (cases "f x")
    case (Some r)
    then have "f y = Some r" using f by (auto simp: flat_ord_def)
    with Some g show ?thesis by (cases r; cases "fst r") (auto simp: flat_ord_def)
  qed (simp add: flat_ord_def)
qed

partial_function (option) unmap_cont_loop ::
  "pte_ops \<Rightarrow> nat \<Rightarrow> usize \<Rightarrow> usize \<Rightarrow> page_table \<Rightarrow> (unit paging_result \<times> page_table) option" where
  "unmap_cont_loop P L e v s =
     (if v < e
      then (case pt_query P L s v of
              Err NotMapped \<Rightarrow> unmap_cont_loop P L e (v + page_size_bytes Size4K) s
            | Err x \<Rightarrow> Some (Err x, s)
            | Panic \<Rightarrow> Some (Panic, s)
            | Ok (paddr, flags, sz) \<Rightarrow>
                (let mapping_start = align_down sz v;
                     mapping_end = mapping_start + page_size_bytes sz;
                     remove_end = min e mapping_end;
                     paddr_start = paddr - page_offset sz v
                 in case pt_unmap P L v s of
                      (Err x, s1) \<Rightarrow> Some (Err x, s1)
                    | (Panic, s1) \<Rightarrow> Some (Panic, s1)
                    | (Ok _, s1) \<Rightarrow>
                        split_rest
                          (if mapping_start < v \<or> remove_end < mapping_end
                           then map_remains P L mapping_start v remove_end mapping_end paddr_start flags s1
                           else Some (Ok (), s1))
                          (\<lambda>s2. unmap_cont_loop P L e remove_end s2)))
      else Some (Ok (), s))"

definition unmap_cont :: "pte_ops \<Rightarrow> nat \<Rightarrow> usize \<Rightarrow> usize \<Rightarrow> page_table \<Rightarrow> (unit paging_result \<times> page_table) option" where
  "unmap_cont P L start len s =
     (if \<not> size_aligned Size4K start \<or> \<not> size_aligned Size4K len then Some (Panic, s)
      else unmap_cont_loop P L (start + len) start s)"

section \<open>Sharing the kernel's half\<close>

definition pt_clone_kernel_space :: "(pte \<Rightarrow> pte) \<Rightarrow> usize \<Rightarrow> usize \<Rightarrow> page_table \<Rightarrow> page_table" where
  "pt_clone_kernel_space mark dst src s =
     s\<lparr>pt_mem := (pt_mem s)(dst := (\<lambda>i. if 0x100 \<le> i \<and> i < 0x200 then mark (pt_mem s src i) else pt_mem s dst i))\<rparr>"

definition x86_mark :: "pte \<Rightarrow> pte" where "x86_mark e = (if \<not> is_unused e then e OR X86_GLOBAL else e)"
definition rv_mark :: "pte \<Rightarrow> pte" where "rv_mark e = (if \<not> is_unused e then e OR RV_GLOBAL else e)"
definition a64_mark :: "pte \<Rightarrow> pte" where "a64_mark e = (if is_unused e then e OR A64_NG else e)"

end
