(* ===== verification/Page_Walk.thy ===== *)
theory Page_Walk
  imports Page_Table "HOL-Library.Sublist"
begin

text \<open>
  What the page tables do: the laws of the entry type they rest on, with the entry types of x86-64 and
  RISC-V as instances, the shape of the tree of tables, and the effect of mapping and unmapping on
  every address.
\<close>

section \<open>The laws of an entry type\<close>

text \<open>Addresses an entry can hold: multiples of the page size below 2 to the 52.\<close>

definition frame_addr :: "usize \<Rightarrow> bool" where
  "frame_addr pa \<longleftrightarrow> pa AND X86_ADDR_MASK = pa"

locale pte_laws =
  fixes P :: pte_ops and shown :: "mmu_flags \<Rightarrow> mmu_flags"
  assumes zero_absent: "\<not> pte_present P 0" and zero_no_leaf: "\<not> pte_leaf P 0"
    and flags_known: "\<exists>fl. pte_flags P e = Ok fl"
    and table_entry: "frame_addr f \<Longrightarrow> pte_present P (pte_set_table P f 0) \<and> \<not> pte_leaf P (pte_set_table P f 0)
      \<and> pte_addr P (pte_set_table P f 0) = f"
    and page_entry: "frame_addr pa \<Longrightarrow> intersects fl MMU_RXW
      \<Longrightarrow> pte_present P (pte_set_flags P fl h (pte_set_addr P pa 0))
        \<and> (h \<longrightarrow> pte_leaf P (pte_set_flags P fl h (pte_set_addr P pa 0)))
        \<and> pte_addr P (pte_set_flags P fl h (pte_set_addr P pa 0)) = pa
        \<and> pte_flags P (pte_set_flags P fl h (pte_set_addr P pa 0)) = Ok (shown fl)"
begin

lemma present_not_zero: "pte_present P e \<Longrightarrow> e \<noteq> 0"
  using zero_absent by blast

end

lemmas x86_bits = X86_PRESENT_def X86_WRITABLE_def X86_USER_def X86_WRITE_THROUGH_def X86_NO_CACHE_def X86_HUGE_PAGE_def
  X86_GLOBAL_def X86_NO_EXECUTE_def X86_ADDR_MASK_def

lemmas rv_bits = RV_VALID_def RV_READABLE_def RV_WRITABLE_def RV_EXECUTABLE_def RV_USER_def RV_GLOBAL_def RV_ACCESSED_def
  RV_DIRTY_def RV_ADDR_MASK_def

text \<open>An address and a set of bits outside of it do not disturb each other.\<close>

lemma addr_or_bits:
  fixes pa b m k :: u64
  assumes "pa AND m = pa" "b AND m = 0"
  shows "(pa OR b) AND m = pa" and "k AND m = 0 \<Longrightarrow> (pa OR b) AND k = b AND k"
proof -
  show "(pa OR b) AND m = pa" using assms by (simp add: bit.conj_disj_distrib2)
  assume k: "k AND m = 0"
  have "pa AND k = (pa AND m) AND k" by (simp only: assms(1))
  also have "\<dots> = pa AND (k AND m)" by (simp only: ac_simps)
  finally have "pa AND k = 0" by (simp add: k)
  then show "(pa OR b) AND k = b AND k" by (simp add: bit.conj_disj_distrib2)
qed

lemma addr_or_contains:
  fixes pa b m k :: u64
  assumes "pa AND m = pa" "b AND m = 0" "k AND m = 0"
  shows "contains (pa OR b) k \<longleftrightarrow> contains b k"
  using addr_or_bits(2) [OF assms(1,2,3)] by (simp add: contains_def)

lemma rxw_nonzero: "intersects fl MMU_RXW \<Longrightarrow> fl \<noteq> 0"
  by (auto simp: intersects_def)

lemma rxw_cases:
  assumes "intersects fl MMU_RXW"
  shows "contains fl MMU_WRITE \<or> contains fl MMU_READ \<or> contains fl MMU_EXECUTE"
proof -
  have b: "MMU_READ = push_bit 2 1" "MMU_WRITE = push_bit 3 1" "MMU_EXECUTE = push_bit 4 1" by (simp_all add: mmu_flag_defs)
  obtain n where n: "bit fl n" "bit MMU_RXW n" using assms by (auto simp: intersects_iff_bits)
  have "n = 2 \<or> n = 3 \<or> n = 4"
    using n(2) unfolding MMU_RXW_def b bit_or_iff bit_push_bit_iff bit_1_iff by auto
  moreover have "bit fl 2 \<longleftrightarrow> contains fl MMU_READ" "bit fl 3 \<longleftrightarrow> contains fl MMU_WRITE" "bit fl 4 \<longleftrightarrow> contains fl MMU_EXECUTE"
    unfolding b by (subst contains_single_bit; simp)+
  ultimately show ?thesis using n(1) by blast
qed

definition x86_shown :: "mmu_flags \<Rightarrow> mmu_flags" where
  "x86_shown f =
     MMU_READ OR (if contains f MMU_WRITE then MMU_WRITE else 0) OR (if contains f MMU_EXECUTE then MMU_EXECUTE else 0)
     OR (if contains f MMU_USER then MMU_USER else 0) OR (if f AND 3 \<noteq> 0 then MMU_CACHE_1 else 0)"

definition rv_shown :: "mmu_flags \<Rightarrow> mmu_flags" where
  "rv_shown f =
     (if contains f MMU_WRITE \<or> contains f MMU_READ then MMU_READ else 0) OR (if contains f MMU_WRITE then MMU_WRITE else 0)
     OR (if contains f MMU_EXECUTE then MMU_EXECUTE else 0) OR (if contains f MMU_USER then MMU_USER else 0)"

lemma x86_entry:
  fixes h :: bool
  assumes "frame_addr pa" "intersects fl MMU_RXW"
  defines "b \<equiv> x86_from_mmu fl OR set_if h X86_HUGE_PAGE"
  shows "pte_set_flags x86_pte fl h (pte_set_addr x86_pte pa 0) = pa OR b" "b AND X86_ADDR_MASK = 0"
    "contains b X86_PRESENT" "h \<Longrightarrow> contains b X86_HUGE_PAGE" "x86_to_mmu b = x86_shown fl"
proof -
  show "pte_set_flags x86_pte fl h (pte_set_addr x86_pte pa 0) = pa OR b"
    using assms(1) by (simp add: x86_pte_def b_def frame_addr_def or.assoc)
  show "b AND X86_ADDR_MASK = 0" "contains b X86_PRESENT" "h \<Longrightarrow> contains b X86_HUGE_PAGE" "x86_to_mmu b = x86_shown fl"
    using rxw_nonzero [OF assms(2)] unfolding b_def x86_from_mmu_def x86_to_mmu_def x86_shown_def
    by (cases "contains fl MMU_WRITE"; cases "contains fl MMU_EXECUTE"; cases "contains fl MMU_USER"; cases "fl AND 3 = 0"; cases h;
        simp add: set_if_def x86_bits contains_def mmu_flag_defs)+
qed

interpretation x86: pte_laws x86_pte x86_shown
proof unfold_locales
  show "\<not> pte_present x86_pte 0" "\<not> pte_leaf x86_pte 0" "\<exists>fl. pte_flags x86_pte e = Ok fl" for e
    by (simp_all add: x86_pte_def contains_def x86_bits)
next
  fix f assume f: "frame_addr f"
  have e: "pte_set_table x86_pte f 0 = f OR (X86_PRESENT OR X86_WRITABLE OR X86_USER)"
    using f by (simp add: x86_pte_def frame_addr_def or.assoc)
  have b: "(X86_PRESENT OR X86_WRITABLE OR X86_USER) AND X86_ADDR_MASK = 0" by (simp add: x86_bits)
  show "pte_present x86_pte (pte_set_table x86_pte f 0) \<and> \<not> pte_leaf x86_pte (pte_set_table x86_pte f 0)
      \<and> pte_addr x86_pte (pte_set_table x86_pte f 0) = f"
    unfolding e using addr_or_bits(1) [OF f [unfolded frame_addr_def] b] addr_or_contains [OF f [unfolded frame_addr_def] b]
    by (simp add: x86_pte_def) (simp add: contains_def x86_bits)
next
  fix pa fl h assume a: "frame_addr pa" "intersects fl MMU_RXW"
  let ?b = "x86_from_mmu fl OR set_if h X86_HUGE_PAGE"
  note x = x86_entry [OF a, of h]
  note m = addr_or_bits(1) [OF a(1) [unfolded frame_addr_def] x(2)] addr_or_contains [OF a(1) [unfolded frame_addr_def] x(2)]
  have k: "X86_PRESENT AND X86_ADDR_MASK = 0" "X86_HUGE_PAGE AND X86_ADDR_MASK = 0" by (simp_all add: x86_bits)
  have "(pa OR ?b) AND NOT X86_ADDR_MASK = ?b AND NOT X86_ADDR_MASK"
    by (rule addr_or_bits(2) [OF a(1) [unfolded frame_addr_def] x(2)]) simp
  then have "x86_to_mmu (pa OR ?b) = x86_to_mmu ?b" by (simp only: x86_to_mmu_def)
  then show "pte_present x86_pte (pte_set_flags x86_pte fl h (pte_set_addr x86_pte pa 0))
        \<and> (h \<longrightarrow> pte_leaf x86_pte (pte_set_flags x86_pte fl h (pte_set_addr x86_pte pa 0)))
        \<and> pte_addr x86_pte (pte_set_flags x86_pte fl h (pte_set_addr x86_pte pa 0)) = pa
        \<and> pte_flags x86_pte (pte_set_flags x86_pte fl h (pte_set_addr x86_pte pa 0)) = Ok (x86_shown fl)"
    unfolding x(1) using m(1) m(2) [OF k(1)] m(2) [OF k(2)] x(3-5) by (cases h) (simp_all add: x86_pte_def)
qed

lemma rv_addr_form:
  assumes "frame_addr pa"
  shows "drop_bit 2 pa AND RV_ADDR_MASK = drop_bit 2 pa" "push_bit 2 (drop_bit 2 pa) = pa"
proof -
  have pa: "bit pa n \<Longrightarrow> 12 \<le> n \<and> n < 52" for n
  proof -
    assume "bit pa n"
    then have "bit (pa AND X86_ADDR_MASK) n" using assms by (simp only: frame_addr_def)
    moreover have "X86_ADDR_MASK = push_bit 12 (mask 40)" by (simp add: X86_ADDR_MASK_def mask_eq_exp_minus_1)
    ultimately have "bit (push_bit 12 (mask 40 :: u64)) n" by (simp only: bit_and_iff)
    then show ?thesis unfolding bit_push_bit_iff bit_mask_iff by auto
  qed
  have m: "RV_ADDR_MASK = push_bit 10 (mask 44)" by (simp add: RV_ADDR_MASK_def mask_eq_exp_minus_1)
  show "drop_bit 2 pa AND RV_ADDR_MASK = drop_bit 2 pa"
    unfolding m by (rule bit_word_eqI) (auto simp: bit_and_iff bit_drop_bit_eq bit_push_bit_iff bit_mask_iff dest: pa)
  show "push_bit 2 (drop_bit 2 pa) = pa"
  proof (rule bit_word_eqI)
    show "bit (push_bit 2 (drop_bit 2 pa)) n \<longleftrightarrow> bit pa n" if "n < LENGTH(64)" for n
    proof (cases "2 \<le> n")
      case True
      then show ?thesis using that by (simp add: bit_drop_bit_eq bit_push_bit_iff del: add_2_eq_Suc)
    next
      case False
      then show ?thesis using pa [of n] by (auto simp: bit_push_bit_iff)
    qed
  qed
qed

lemma rv_entry:
  fixes h :: bool
  assumes "frame_addr pa" "intersects fl MMU_RXW"
  defines "b \<equiv> rv_from_mmu fl OR RV_ACCESSED OR RV_DIRTY"
  shows "pte_set_flags rv_pte fl h (pte_set_addr rv_pte pa 0) = drop_bit 2 pa OR b" "b AND RV_ADDR_MASK = 0"
    "contains b RV_VALID" "b AND (RV_READABLE OR RV_EXECUTABLE) \<noteq> 0" "rv_to_mmu b = rv_shown fl"
proof -
  show "pte_set_flags rv_pte fl h (pte_set_addr rv_pte pa 0) = drop_bit 2 pa OR b"
    using rv_addr_form [OF assms(1)] by (simp add: rv_pte_def b_def or.assoc)
  have rxw: "contains fl MMU_WRITE \<or> contains fl MMU_READ \<or> contains fl MMU_EXECUTE"
    by (rule rxw_cases [OF assms(2)])
  show "b AND RV_ADDR_MASK = 0" "contains b RV_VALID" "b AND (RV_READABLE OR RV_EXECUTABLE) \<noteq> 0" "rv_to_mmu b = rv_shown fl"
    using rxw_nonzero [OF assms(2)] rxw unfolding b_def rv_from_mmu_def rv_to_mmu_def rv_shown_def
    by (cases "contains fl MMU_WRITE"; cases "contains fl MMU_READ"; cases "contains fl MMU_EXECUTE"; cases "contains fl MMU_USER";
        simp add: set_if_def rv_bits contains_def mmu_flag_defs)+
qed

interpretation rv: pte_laws rv_pte rv_shown
proof unfold_locales
  show "\<not> pte_present rv_pte 0" "\<not> pte_leaf rv_pte 0" "\<exists>fl. pte_flags rv_pte e = Ok fl" for e
    by (simp_all add: rv_pte_def contains_def intersects_def rv_bits)
next
  fix f assume f: "frame_addr f"
  note a = rv_addr_form [OF f]
  have e: "pte_set_table rv_pte f 0 = drop_bit 2 f OR RV_VALID" using a by (simp add: rv_pte_def)
  have b: "RV_VALID AND RV_ADDR_MASK = 0" by (simp add: rv_bits)
  have k: "(RV_READABLE OR RV_EXECUTABLE) AND RV_ADDR_MASK = 0" by (simp add: rv_bits)
  have "(drop_bit 2 f OR RV_VALID) AND (RV_READABLE OR RV_EXECUTABLE) = 0"
    unfolding addr_or_bits(2) [OF a(1) b k] by (simp add: rv_bits)
  then show "pte_present rv_pte (pte_set_table rv_pte f 0) \<and> \<not> pte_leaf rv_pte (pte_set_table rv_pte f 0)
      \<and> pte_addr rv_pte (pte_set_table rv_pte f 0) = f"
    unfolding e using addr_or_bits(1) [OF a(1) b] addr_or_contains [OF a(1) b b] a(2)
    by (simp add: rv_pte_def intersects_def del: push_bit_and)
next
  fix pa fl h assume f: "frame_addr pa" "intersects fl MMU_RXW"
  let ?b = "rv_from_mmu fl OR RV_ACCESSED OR RV_DIRTY"
  note a = rv_addr_form [OF f(1)] and x = rv_entry [OF f]
  have k: "RV_VALID AND RV_ADDR_MASK = 0" "(RV_READABLE OR RV_EXECUTABLE) AND RV_ADDR_MASK = 0"
    "RV_READABLE AND RV_ADDR_MASK = 0" "RV_WRITABLE AND RV_ADDR_MASK = 0" "RV_EXECUTABLE AND RV_ADDR_MASK = 0" "RV_USER AND RV_ADDR_MASK = 0"
    by (simp_all add: rv_bits)
  note c = addr_or_contains [OF a(1) x(2)]
  have "rv_to_mmu (drop_bit 2 pa OR ?b) = rv_to_mmu ?b" unfolding rv_to_mmu_def c [OF k(3)] c [OF k(4)] c [OF k(5)] c [OF k(6)] ..
  then show "pte_present rv_pte (pte_set_flags rv_pte fl h (pte_set_addr rv_pte pa 0))
        \<and> (h \<longrightarrow> pte_leaf rv_pte (pte_set_flags rv_pte fl h (pte_set_addr rv_pte pa 0)))
        \<and> pte_addr rv_pte (pte_set_flags rv_pte fl h (pte_set_addr rv_pte pa 0)) = pa
        \<and> pte_flags rv_pte (pte_set_flags rv_pte fl h (pte_set_addr rv_pte pa 0)) = Ok (rv_shown fl)"
    unfolding x(1) using addr_or_bits(1) [OF a(1) x(2)] addr_or_bits(2) [OF a(1) x(2) k(2)] c [OF k(1)] x(3-5) a(2)
    by (simp add: rv_pte_def intersects_def del: push_bit_and)
qed

section \<open>The tree of tables\<close>

text \<open>The steps a walk takes: an index for each level, and the page size an entry there can have.\<close>

definition steps :: "nat \<Rightarrow> usize \<Rightarrow> (nat \<times> page_size option) list" where
  "steps L v =
     (if L = 4 then [(p4_index v, None)] else [])
     @ [(p3_index v, Some Size1G), (p2_index v, Some Size2M), (p1_index v, Some Size4K)]"

definition idx :: "nat \<Rightarrow> usize \<Rightarrow> nat list" where
  "idx L v = map fst (steps L v)"

lemma length_steps [simp]: "L = 3 \<or> L = 4 \<Longrightarrow> length (steps L v) = L"
  by (auto simp: steps_def)

lemma length_idx [simp]: "L = 3 \<or> L = 4 \<Longrightarrow> length (idx L v) = L"
  by (simp add: idx_def)

fun down :: "pte_ops \<Rightarrow> (usize \<Rightarrow> nat \<Rightarrow> pte) \<Rightarrow> usize \<Rightarrow> (nat \<times> page_size option) list \<Rightarrow> (usize \<times> nat \<times> page_size) paging_result" where
  "down P mem t [] = Panic"
| "down P mem t [(i, sz)] = (case sz of Some z \<Rightarrow> Ok (t, i, z) | None \<Rightarrow> Panic)"
| "down P mem t ((i, sz) # y # ys) =
     (if sz \<noteq> None \<and> pte_leaf P (mem t i) then Ok (t, i, the sz)
      else result_bind (next_table_mut P (mem t i)) (\<lambda>t'. down P mem t' (y # ys)))"

lemma get_entry_mut_down:
  "L = 3 \<or> L = 4 \<Longrightarrow> get_entry_mut P L s v = down P (pt_mem s) (pt_root s) (steps L v)"
  unfolding get_entry_mut_def steps_def Let_def by (auto simp: next_table_mut_def)

text \<open>The table at the end of a path of indexes.\<close>

fun tab :: "pte_ops \<Rightarrow> (usize \<Rightarrow> nat \<Rightarrow> pte) \<Rightarrow> usize \<Rightarrow> nat list \<Rightarrow> usize option" where
  "tab P mem t [] = Some t"
| "tab P mem t (i # p) =
     (if pte_present P (mem t i) \<and> \<not> pte_leaf P (mem t i) then tab P mem (pte_addr P (mem t i)) p else None)"

lemma tab_append: "tab P mem t (p @ q) = (case tab P mem t p of None \<Rightarrow> None | Some u \<Rightarrow> tab P mem u q)"
  by (induction p arbitrary: t) auto

lemma tab_prefix: "tab P mem t (p @ q) = Some u \<Longrightarrow> \<exists>w. tab P mem t p = Some w"
  by (auto simp: tab_append split: option.splits)

text \<open>
  Well-formed tables: no two paths lead to the same table, the frames still to be handed out are not
  in use, an entry above the last level that is in use is present, and the fourth level holds tables
  only.
\<close>

definition tree_inj :: "pte_ops \<Rightarrow> nat \<Rightarrow> page_table \<Rightarrow> bool" where
  "tree_inj P L s \<longleftrightarrow>
     (\<forall>p q t. length p < L \<and> length q < L \<and> tab P (pt_mem s) (pt_root s) p = Some t \<and> tab P (pt_mem s) (pt_root s) q = Some t
        \<longrightarrow> p = q)"

definition frames_free :: "pte_ops \<Rightarrow> nat \<Rightarrow> page_table \<Rightarrow> bool" where
  "frames_free P L s \<longleftrightarrow>
     distinct (pt_free s)
     \<and> (\<forall>f \<in> set (pt_free s). frame_addr f \<and> (\<forall>p. length p < L \<longrightarrow> tab P (pt_mem s) (pt_root s) p \<noteq> Some f))"

definition entries_ok :: "pte_ops \<Rightarrow> nat \<Rightarrow> page_table \<Rightarrow> bool" where
  "entries_ok P L s \<longleftrightarrow>
     (\<forall>p t i. Suc (length p) < L \<and> tab P (pt_mem s) (pt_root s) p = Some t \<and> pt_mem s t i \<noteq> 0
        \<longrightarrow> pte_present P (pt_mem s t i) \<and> (L = 4 \<and> p = [] \<longrightarrow> \<not> pte_leaf P (pt_mem s t i)))"

definition pt_wf :: "pte_ops \<Rightarrow> nat \<Rightarrow> page_table \<Rightarrow> bool" where
  "pt_wf P L s \<longleftrightarrow> (L = 3 \<or> L = 4) \<and> tree_inj P L s \<and> frames_free P L s \<and> entries_ok P L s"

text \<open>Writing one entry does not change the paths that do not go through it.\<close>

definition same_but :: "usize \<Rightarrow> nat \<Rightarrow> (usize \<Rightarrow> nat \<Rightarrow> pte) \<Rightarrow> (usize \<Rightarrow> nat \<Rightarrow> pte) \<Rightarrow> bool" where
  "same_but u j mem mem' \<longleftrightarrow> (\<forall>t i. \<not> (t = u \<and> i = j) \<longrightarrow> mem' t i = mem t i)"

lemma same_but_upd: "same_but u j (pt_mem s) (pt_mem (upd_entry u j e s))"
  by (auto simp: same_but_def upd_entry_def)

lemma tab_upd_other:
  assumes "same_but u j mem mem'" "\<And>p'. prefix (p' @ [j]) p \<Longrightarrow> tab P mem t p' \<noteq> Some u"
  shows "tab P mem' t p = tab P mem t p"
  using assms(2)
proof (induction p rule: rev_induct)
  case (snoc x xs)
  have "tab P mem' t xs = tab P mem t xs"
    by (rule snoc.IH) (use snoc.prems in auto)
  moreover have "mem' w x = mem w x" if "tab P mem t xs = Some w" for w
    using snoc.prems [of xs] that assms(1) unfolding same_but_def by (metis prefix_order.refl)
  ultimately show ?case by (cases "tab P mem t xs") (auto simp: tab_append)
qed simp

lemma tab_other:
  assumes "pt_wf P L s" "same_but u j (pt_mem s) mem'" "tab P (pt_mem s) (pt_root s) q = Some u" "length q < L"
    and "length p < L" "\<not> prefix (q @ [j]) p"
  shows "tab P mem' (pt_root s) p = tab P (pt_mem s) (pt_root s) p"
proof (rule tab_upd_other [OF assms(2)])
  fix p' assume p': "prefix (p' @ [j]) p"
  then have "length p' < L" using assms(5) by (auto dest: prefix_length_le)
  then show "tab P (pt_mem s) (pt_root s) p' \<noteq> Some u"
    using assms p' unfolding pt_wf_def tree_inj_def by blast
qed

section \<open>Walks\<close>

text \<open>The entry a walk finds, with the page size it stands for.\<close>

definition seek :: "pte_ops \<Rightarrow> (usize \<Rightarrow> nat \<Rightarrow> pte) \<Rightarrow> usize \<Rightarrow> (nat \<times> page_size option) list \<Rightarrow> (pte \<times> page_size) paging_result" where
  "seek P mem t ys = result_bind (down P mem t ys) (\<lambda>(t, i, z). Ok (mem t i, z))"

lemma seek_last: "seek P mem t [(i, Some z)] = Ok (mem t i, z)"
  by (simp add: seek_def)

lemma seek_step:
  "seek P mem t ((i, sz) # y # ys) =
     (if sz \<noteq> None \<and> pte_leaf P (mem t i) then Ok (mem t i, the sz)
      else if pte_present P (mem t i) then seek P mem (pte_addr P (mem t i)) (y # ys) else Err NotMapped)"
  by (auto simp: seek_def next_table_mut_def)

lemma pt_query_seek:
  assumes "L = 3 \<or> L = 4"
  shows "pt_query P L s v =
    result_bind (seek P (pt_mem s) (pt_root s) (steps L v)) (\<lambda>(e, sz).
      if is_unused e then Err NotMapped
      else result_bind (pte_flags P e) (\<lambda>fl. Ok (pte_addr P e + page_offset sz v, fl, sz)))"
  unfolding pt_query_def seek_def get_entry_mut_down [OF assms]
  by (cases "down P (pt_mem s) (pt_root s) (steps L v)") auto

lemma steps_None:
  assumes "L = 3 \<or> L = 4" "k < L"
  shows "snd (steps L v ! k) = None \<longleftrightarrow> L = 4 \<and> k = 0"
  using assms by (auto simp: steps_def numeral_eq_Suc less_Suc_eq)

lemma steps_at:
  assumes "L = 3 \<or> L = 4" "k < L"
  shows "drop k (steps L v) = (idx L v ! k, snd (steps L v ! k)) # drop (Suc k) (steps L v)"
  using assms by (simp add: idx_def Cons_nth_drop_Suc [symmetric])

text \<open>A walk that has followed a path of tables goes on from the last of them.\<close>

lemma seek_along:
  assumes wf: "pt_wf P L s" and "prefix q (idx L v)" "length q < L" "tab P (pt_mem s) (pt_root s) q = Some t"
  shows "seek P (pt_mem s) (pt_root s) (steps L v) = seek P (pt_mem s) t (drop (length q) (steps L v))"
  using assms(2-4)
proof (induction q arbitrary: t rule: rev_induct)
  case (snoc i q)
  have L: "L = 3 \<or> L = 4" using wf by (simp add: pt_wf_def)
  obtain w where w: "tab P (pt_mem s) (pt_root s) q = Some w" "pte_present P (pt_mem s w i)" "\<not> pte_leaf P (pt_mem s w i)"
    "t = pte_addr P (pt_mem s w i)"
    using snoc.prems(3) by (auto simp: tab_append split: option.splits if_splits)
  have i: "idx L v ! length q = i" using snoc.prems(1) by (auto simp: prefix_def)
  have "length q < L" "Suc (length q) < L" using snoc.prems(2) by simp_all
  then obtain y ys where y: "drop (Suc (length q)) (steps L v) = y # ys"
    using steps_at [OF L, of "Suc (length q)" v] by blast
  have "seek P (pt_mem s) (pt_root s) (steps L v) = seek P (pt_mem s) w (drop (length q) (steps L v))"
    using snoc.IH [OF _ \<open>length q < L\<close> w(1)] snoc.prems(1) append_prefixD by blast
  also have "\<dots> = seek P (pt_mem s) t (drop (Suc (length q)) (steps L v))"
    unfolding steps_at [OF L \<open>length q < L\<close>] i y using w(2-4) by (simp add: seek_step)
  finally show ?case by simp
qed simp

lemma seek_other:
  assumes wf: "pt_wf P L s" and zero: "\<not> pte_present P 0"
    and w: "\<And>p t i. length p < L \<Longrightarrow> tab P (pt_mem s) (pt_root s) p = Some t \<Longrightarrow> \<not> (t = u \<and> i = j) \<Longrightarrow> mem' t i = pt_mem s t i"
      "tab P (pt_mem s) (pt_root s) q = Some u" "length q < L"
    and n: "\<not> prefix (q @ [j]) (idx L v)"
  shows "prefix p (idx L v) \<Longrightarrow> length p < L \<Longrightarrow> tab P (pt_mem s) (pt_root s) p = Some t
    \<Longrightarrow> seek P mem' t (drop (length p) (steps L v)) = seek P (pt_mem s) t (drop (length p) (steps L v))"
proof (induction "L - length p" arbitrary: p t rule: less_induct)
  case less
  have L: "L = 3 \<or> L = 4" using wf by (simp add: pt_wf_def)
  let ?i = "idx L v ! length p" and ?sz = "snd (steps L v ! length p)"
  have pre: "prefix (p @ [?i]) (idx L v)" using less.prems(1,2) L by (metis append_one_prefix length_idx)
  have "\<not> (t = u \<and> ?i = j)"
    using wf w(2,3) less.prems pre n unfolding pt_wf_def tree_inj_def by blast
  then have e: "mem' t ?i = pt_mem s t ?i" using w(1) less.prems(2,3) by blast
  show ?case
  proof (cases "drop (Suc (length p)) (steps L v)")
    case Nil
    then have "?sz \<noteq> None" using steps_None [OF L less.prems(2)] L by (auto simp: steps_def)
    then show ?thesis unfolding steps_at [OF L less.prems(2)] Nil using e by (auto simp: seek_last)
  next
    case (Cons y ys)
    then have lt: "Suc (length p) < L" using L by (metis drop_eq_Nil leI length_steps list.distinct(1))
    have sz: "?sz = None \<longleftrightarrow> L = 4 \<and> p = []" using steps_None [OF L less.prems(2)] by simp
    have leaf: "\<not> pte_leaf P (pt_mem s t ?i)" if "?sz = None" "pte_present P (pt_mem s t ?i)"
      using wf that lt less.prems(3) sz zero unfolding pt_wf_def entries_ok_def by metis
    show ?thesis
    proof (cases "pte_present P (pt_mem s t ?i) \<and> \<not> pte_leaf P (pt_mem s t ?i)")
      case True
      then have "tab P (pt_mem s) (pt_root s) (p @ [?i]) = Some (pte_addr P (pt_mem s t ?i))"
        using less.prems(3) by (simp add: tab_append)
      from less.hyps [OF _ pre _ this] lt
      have "seek P mem' (pte_addr P (pt_mem s t ?i)) (y # ys) = seek P (pt_mem s) (pte_addr P (pt_mem s t ?i)) (y # ys)"
        by (simp add: Cons)
      then show ?thesis unfolding steps_at [OF L less.prems(2)] Cons using e True by (simp add: seek_step)
    next
      case False
      then show ?thesis unfolding steps_at [OF L less.prems(2)] Cons using e leaf by (auto simp: seek_step)
    qed
  qed
qed

end
