(* ===== verification/Page_Map.thy ===== *)
theory Page_Map
  imports Page_Walk
begin

text \<open>
  Mapping and unmapping keep the tree of page tables well formed and change what the tables say of
  exactly the addresses of the page.
\<close>

declare Let_def [simp]

section \<open>Writing an entry that is no table\<close>

definition dead :: "pte_ops \<Rightarrow> pte \<Rightarrow> bool" where
  "dead P e \<longleftrightarrow> \<not> pte_present P e \<or> pte_leaf P e"

lemma tab_dead_write:
  assumes wf: "pt_wf P L s" and w: "same_but u j (pt_mem s) mem'" "tab P (pt_mem s) (pt_root s) q = Some u" "length q < L"
    and d: "Suc (length q) < L \<Longrightarrow> dead P (pt_mem s u j) \<and> dead P (mem' u j)" and p: "length p < L"
  shows "tab P mem' (pt_root s) p = tab P (pt_mem s) (pt_root s) p"
proof (cases "prefix (q @ [j]) p")
  case True
  then obtain r where r: "p = q @ j # r" by (auto simp: prefix_def)
  have "tab P mem' (pt_root s) q = Some u"
    using tab_other [OF wf w, of q] w(2,3) by (auto dest: prefix_length_le)
  then show ?thesis using d p w(2) by (auto simp: r tab_append dead_def)
qed (use tab_other [OF wf w p] in simp)

lemma dead_write_wf:
  assumes wf: "pt_wf P L s" and q: "tab P (pt_mem s) (pt_root s) q = Some u" "length q < L"
    and d: "Suc (length q) < L \<Longrightarrow> dead P (pt_mem s u j) \<and> dead P e \<and> (e \<noteq> 0 \<longrightarrow> pte_present P e \<and> (L = 4 \<longrightarrow> q \<noteq> []))"
  shows "pt_wf P L (upd_entry u j e s)"
proof -
  let ?s = "upd_entry u j e s"
  have e: "pt_mem ?s u j = e" "pt_root ?s = pt_root s" "pt_free ?s = pt_free s" by (simp_all add: upd_entry_def)
  have t: "tab P (pt_mem ?s) (pt_root ?s) p = tab P (pt_mem s) (pt_root s) p" if "length p < L" for p
    unfolding e(2) by (rule tab_dead_write [OF wf same_but_upd q _ that]) (use d e in auto)
  have "tree_inj P L ?s" using wf t unfolding pt_wf_def tree_inj_def by metis
  moreover have "frames_free P L ?s" using wf t unfolding pt_wf_def frames_free_def e(3) by metis
  moreover have "entries_ok P L ?s"
    unfolding entries_ok_def
  proof (intro allI impI)
    fix p w i assume a: "Suc (length p) < L \<and> tab P (pt_mem ?s) (pt_root ?s) p = Some w \<and> pt_mem ?s w i \<noteq> 0"
    then have tp: "tab P (pt_mem s) (pt_root s) p = Some w" using t [of p] by auto
    show "pte_present P (pt_mem ?s w i) \<and> (L = 4 \<and> p = [] \<longrightarrow> \<not> pte_leaf P (pt_mem ?s w i))"
    proof (cases "w = u \<and> i = j")
      case True
      then have "p = q" using wf a tp q unfolding pt_wf_def tree_inj_def by (metis Suc_lessD)
      then show ?thesis using a d True e by auto
    next
      case False
      then have "pt_mem ?s w i = pt_mem s w i" by (auto simp: upd_entry_def)
      then show ?thesis using wf a tp unfolding pt_wf_def entries_ok_def by auto
    qed
  qed
  ultimately show ?thesis using wf by (simp add: pt_wf_def)
qed

section \<open>Making a table\<close>

lemma tab_unreached:
  assumes "\<And>t. t \<noteq> f \<Longrightarrow> mem' t = mem t" "\<And>p'. length p' < L \<Longrightarrow> tab P mem t p' \<noteq> Some f" "length p < L"
  shows "tab P mem' t p = tab P mem t p"
  using assms(3)
proof (induction p rule: rev_induct)
  case (snoc x p)
  then have IH: "tab P mem' t p = tab P mem t p" by simp
  show ?case
  proof (cases "tab P mem t p")
    case (Some w)
    then have "w \<noteq> f" using assms(2) [of p] snoc.prems by auto
    then show ?thesis using IH Some assms(1) [of w] by (simp add: tab_append)
  qed (simp add: tab_append IH)
qed simp

definition make_table :: "pte_ops \<Rightarrow> usize \<Rightarrow> nat \<Rightarrow> page_table \<Rightarrow> page_table" where
  "make_table P u j s =
     (let f = hd (pt_free s)
      in upd_entry u j (pte_set_table P f 0)
           (s\<lparr>pt_free := tl (pt_free s), pt_intrm := pt_intrm s @ [f], pt_mem := (pt_mem s)(f := (\<lambda>_. 0))\<rparr>))"

lemma next_table_create:
  "is_unused (pt_mem s u j) \<Longrightarrow> pt_free s \<noteq> [] \<Longrightarrow> next_table_mut_or_create P u j s = (Ok (hd (pt_free s)), make_table P u j s)"
  "is_unused (pt_mem s u j) \<Longrightarrow> pt_free s = [] \<Longrightarrow> next_table_mut_or_create P u j s = (Err NoMemory, s)"
  "\<not> is_unused (pt_mem s u j) \<Longrightarrow> next_table_mut_or_create P u j s = (next_table_mut P (pt_mem s u j), s)"
  by (auto simp: next_table_mut_or_create_def alloc_intrm_table_def make_table_def is_unused_def split: list.splits)

text \<open>How many tables lie above the one that holds the entry of a page.\<close>

fun depth :: "nat \<Rightarrow> page_size \<Rightarrow> nat" where
  "depth L Size1G = L - 3" | "depth L Size2M = L - 2" | "depth L Size4K = L - 1" | "depth L Size16K = L - 1"

definition grows :: "pte_ops \<Rightarrow> nat \<Rightarrow> page_table \<Rightarrow> page_table \<Rightarrow> bool" where
  "grows P L s s' \<longleftrightarrow> pt_wf P L s' \<and> pt_root s' = pt_root s \<and> (\<forall>v. pt_query P L s' v = pt_query P L s v)"

context pte_laws
begin

lemma make_table_tab:
  assumes wf: "pt_wf P L s" and q: "tab P (pt_mem s) (pt_root s) q = Some u" "Suc (length q) < L"
    and j: "pt_mem s u j = 0" and f: "pt_free s = f # fs" and p: "length p < L"
  shows "tab P (pt_mem (make_table P u j s)) (pt_root s) p = (if p = q @ [j] then Some f else tab P (pt_mem s) (pt_root s) p)"
proof -
  let ?m1 = "(pt_mem s)(f := (\<lambda>_. 0))" and ?m2 = "pt_mem (make_table P u j s)"
  have ff: "frame_addr f" "\<And>p. length p < L \<Longrightarrow> tab P (pt_mem s) (pt_root s) p \<noteq> Some f"
    using wf f by (auto simp: pt_wf_def frames_free_def)
  have t1: "tab P ?m1 (pt_root s) p = tab P (pt_mem s) (pt_root s) p" if "length p < L" for p
    by (rule tab_unreached [OF _ ff(2) that]) auto
  have uf: "u \<noteq> f" using ff(2) [of q] q by auto
  have m2: "?m2 = ?m1(u := (?m1 u)(j := pte_set_table P f 0))" using f by (simp add: make_table_def upd_entry_def)
  then have sb: "same_but u j ?m1 ?m2" by (auto simp: same_but_def)
  have inj: "p' = q" if "tab P ?m1 (pt_root s) p' = Some u" "length p' < L" for p'
    using wf q that t1 unfolding pt_wf_def tree_inj_def by (metis Suc_lessD)
  have other: "tab P ?m2 (pt_root s) p = tab P ?m1 (pt_root s) p" if "length p < L" "\<not> prefix (q @ [j]) p" for p
  proof (rule tab_upd_other [OF sb])
    fix p' assume pr: "prefix (p' @ [j]) p"
    have "length p' < L" using prefix_length_le [OF pr] that(1) by simp
    then show "tab P ?m1 (pt_root s) p' \<noteq> Some u" using inj pr that(2) by blast
  qed
  show ?thesis
  proof (cases "prefix (q @ [j]) p")
    case False
    then show ?thesis using other [OF p] t1 [OF p] by auto
  next
    case True
    then obtain r where r: "p = q @ j # r" by (auto simp: prefix_def)
    have "tab P ?m2 (pt_root s) q = Some u"
      using other [of q] t1 [of q] q by (auto dest: prefix_length_le)
    moreover have "pte_present P (?m2 u j) \<and> \<not> pte_leaf P (?m2 u j) \<and> pte_addr P (?m2 u j) = f"
      using table_entry [OF ff(1)] by (simp add: m2)
    moreover have "?m2 f = (\<lambda>_. 0)" using uf by (simp add: m2)
    ultimately show ?thesis using q(1) j zero_absent by (cases r) (auto simp: r tab_append)
  qed
qed

lemma make_table_wf:
  assumes wf: "pt_wf P L s" and q: "tab P (pt_mem s) (pt_root s) q = Some u" "Suc (length q) < L"
    and j: "pt_mem s u j = 0" and f: "pt_free s = f # fs"
  shows "pt_wf P L (make_table P u j s)"
proof -
  let ?s = "make_table P u j s"
  note t = make_table_tab [OF assms]
  have root: "pt_root ?s = pt_root s" and free: "pt_free ?s = fs" using f by (simp_all add: make_table_def upd_entry_def)
  have ff: "\<And>p. length p < L \<Longrightarrow> tab P (pt_mem s) (pt_root s) p \<noteq> Some f" "frame_addr f"
    using wf f by (auto simp: pt_wf_def frames_free_def)
  have "tree_inj P L ?s"
    using wf ff(1) unfolding pt_wf_def tree_inj_def root by (auto simp: t split: if_splits)
  moreover have "frames_free P L ?s"
    using wf f unfolding pt_wf_def frames_free_def root free by (auto simp: t split: if_splits)
  moreover have "entries_ok P L ?s"
    unfolding entries_ok_def root
  proof (intro allI impI)
    fix p w i assume a: "Suc (length p) < L \<and> tab P (pt_mem ?s) (pt_root s) p = Some w \<and> pt_mem ?s w i \<noteq> 0"
    have m: "pt_mem ?s w i = (if w = u \<and> i = j then pte_set_table P f 0 else if w = f then 0 else pt_mem s w i)"
      using f by (auto simp: make_table_def upd_entry_def)
    show "pte_present P (pt_mem ?s w i) \<and> (L = 4 \<and> p = [] \<longrightarrow> \<not> pte_leaf P (pt_mem ?s w i))"
    proof (cases "w = u \<and> i = j")
      case True
      then show ?thesis using m table_entry [OF ff(2)] by simp
    next
      case False
      then have w: "w \<noteq> f" "pt_mem ?s w i = pt_mem s w i" using a m by auto
      have "tab P (pt_mem s) (pt_root s) p = Some w" using a t [of p] w(1) by (auto split: if_splits)
      moreover have "entries_ok P L s" using wf by (simp add: pt_wf_def)
      ultimately show ?thesis using a unfolding w(2) entries_ok_def by blast
    qed
  qed
  ultimately show ?thesis using wf by (simp add: pt_wf_def)
qed

lemma query_zero:
  assumes wf: "pt_wf P L s" and q: "prefix (q @ [j]) (idx L v)" "tab P (pt_mem s) (pt_root s) q = Some u"
    and z: "pt_mem s u j = 0"
  shows "pt_query P L s v = Err NotMapped"
proof -
  have L: "L = 3 \<or> L = 4" using wf by (simp add: pt_wf_def)
  have len: "length q < L" using q(1) L prefix_length_le by fastforce
  have i: "idx L v ! length q = j" using q(1) by (auto simp: prefix_def)
  have s: "seek P (pt_mem s) (pt_root s) (steps L v) = seek P (pt_mem s) u (drop (length q) (steps L v))"
    using seek_along [OF wf _ len q(2)] q(1) append_prefixD by blast
  show ?thesis
  proof (cases "drop (Suc (length q)) (steps L v)")
    case Nil
    then have "snd (steps L v ! length q) \<noteq> None" using steps_None [OF L len] L by (auto simp: steps_def)
    then show ?thesis
      unfolding pt_query_seek [OF L] s steps_at [OF L len] i Nil using z by (auto simp: seek_last is_unused_def)
  next
    case (Cons y ys)
    then show ?thesis
      unfolding pt_query_seek [OF L] s steps_at [OF L len] i Cons using z zero_absent zero_no_leaf by (simp add: seek_step)
  qed
qed

lemma query_page:
  assumes wf: "pt_wf P L s" and q: "prefix (q @ [j]) (idx L v)" "tab P (pt_mem s) (pt_root s) q = Some u"
    and e: "pt_mem s u j = e" "e \<noteq> 0" "Suc (length q) < L \<Longrightarrow> pte_leaf P e" "pte_flags P e = Ok fl" and z: "snd (steps L v ! length q) = Some z"
  shows "pt_query P L s v = Ok (pte_addr P e + page_offset z v, fl, z)"
proof -
  have L: "L = 3 \<or> L = 4" using wf by (simp add: pt_wf_def)
  have len: "length q < L" using q(1) L prefix_length_le by fastforce
  have i: "idx L v ! length q = j" using q(1) by (auto simp: prefix_def)
  have s: "seek P (pt_mem s) (pt_root s) (steps L v) = seek P (pt_mem s) u (drop (length q) (steps L v))"
    using seek_along [OF wf _ len q(2)] q(1) append_prefixD by blast
  show ?thesis
  proof (cases "drop (Suc (length q)) (steps L v)")
    case Nil
    then show ?thesis
      unfolding pt_query_seek [OF L] s steps_at [OF L len] i Nil z using e by (simp add: seek_last is_unused_def)
  next
    case (Cons y ys)
    then have "Suc (length q) < L" using L by (metis drop_eq_Nil leI length_steps list.distinct(1))
    then show ?thesis
      unfolding pt_query_seek [OF L] s steps_at [OF L len] i Cons z using e by (simp add: seek_step is_unused_def)
  qed
qed

lemma query_other:
  assumes wf: "pt_wf P L s"
    and w: "\<And>p t i. length p < L \<Longrightarrow> tab P (pt_mem s) (pt_root s) p = Some t \<Longrightarrow> \<not> (t = u \<and> i = j) \<Longrightarrow> pt_mem s' t i = pt_mem s t i"
    and q: "tab P (pt_mem s) (pt_root s) q = Some u" "length q < L" and n: "\<not> prefix (q @ [j]) (idx L v)" and r: "pt_root s' = pt_root s"
  shows "pt_query P L s' v = pt_query P L s v"
proof -
  have L: "L = 3 \<or> L = 4" using wf by (simp add: pt_wf_def)
  have "seek P (pt_mem s') (pt_root s) (drop (length ([] :: nat list)) (steps L v))
      = seek P (pt_mem s) (pt_root s) (drop (length ([] :: nat list)) (steps L v))"
    by (rule seek_other [OF wf zero_absent _ q n]) (use w L in auto)
  then show ?thesis unfolding pt_query_seek [OF L] r by simp
qed

lemma make_table_query:
  assumes wf: "pt_wf P L s" and q: "tab P (pt_mem s) (pt_root s) q = Some u" "Suc (length q) < L"
    and j: "pt_mem s u j = 0" and f: "pt_free s = f # fs"
  shows "pt_query P L (make_table P u j s) v = pt_query P L s v"
proof (cases "prefix (q @ [j]) (idx L v)")
  case False
  show ?thesis
  proof (rule query_other [OF wf _ q(1) _ False])
    fix p t i assume a: "length p < L" "tab P (pt_mem s) (pt_root s) p = Some t" "\<not> (t = u \<and> i = j)"
    have "t \<noteq> f" using wf f a by (auto simp: pt_wf_def frames_free_def)
    then show "pt_mem (make_table P u j s) t i = pt_mem s t i" using a(3) f by (auto simp: make_table_def upd_entry_def)
  qed (use q in \<open>simp_all add: make_table_def upd_entry_def\<close>)
next
  case True
  let ?s = "make_table P u j s"
  have L: "L = 3 \<or> L = 4" using wf by (simp add: pt_wf_def)
  have "tab P (pt_mem ?s) (pt_root ?s) (q @ [j]) = Some f"
    using make_table_tab [OF assms, of "q @ [j]"] q by (simp add: make_table_def upd_entry_def)
  moreover have "u \<noteq> f" using wf f q by (auto simp: pt_wf_def frames_free_def)
  then have "pt_mem ?s f i = 0" for i using f by (simp add: make_table_def upd_entry_def)
  moreover have "prefix ((q @ [j]) @ [idx L v ! Suc (length q)]) (idx L v)"
    using True q(2) L by (metis append_one_prefix length_append_singleton length_idx)
  ultimately have "pt_query P L ?s v = Err NotMapped"
    using query_zero [OF make_table_wf [OF assms]] by blast
  then show ?thesis using query_zero [OF wf True q(1) j] by simp
qed

lemma free_path:
  assumes wf: "pt_wf P L s" and n: "pt_query P L s v = Err NotMapped"
    and q: "prefix (q @ [j]) (idx L v)" "tab P (pt_mem s) (pt_root s) q = Some u" "Suc (length q) < L"
  shows "pt_mem s u j = 0 \<or> pte_present P (pt_mem s u j) \<and> \<not> pte_leaf P (pt_mem s u j)"
proof (rule ccontr)
  assume c: "\<not> ?thesis"
  have L: "L = 3 \<or> L = 4" using wf by (simp add: pt_wf_def)
  have "entries_ok P L s" using wf by (simp add: pt_wf_def)
  then have e: "pte_present P (pt_mem s u j)" "L = 4 \<longrightarrow> q \<noteq> []" using c q(2,3) unfolding entries_ok_def by blast+
  then obtain z where z: "snd (steps L v ! length q) = Some z"
    using steps_None [OF L, of "length q" v] q(3) by auto
  obtain fl where "pte_flags P (pt_mem s u j) = Ok fl" using flags_known by blast
  then have "pt_query P L s v = Ok (pte_addr P (pt_mem s u j) + page_offset z v, fl, z)"
    using c e by (intro query_page [OF wf q(1,2) refl _ _ _ z]) auto
  with n show False by simp
qed

text \<open>One level of the descent that makes missing tables.\<close>

lemma next_level:
  assumes wf: "pt_wf P L s" and n: "pt_query P L s v = Err NotMapped"
    and q: "prefix (q @ [j]) (idx L v)" "tab P (pt_mem s) (pt_root s) q = Some u" "Suc (length q) < L"
    and run: "next_table_mut_or_create P u j s = (r, s')"
  shows "grows P L s s' \<and> (r = Err NoMemory \<or> (\<exists>t. r = Ok t \<and> tab P (pt_mem s') (pt_root s') (q @ [j]) = Some t))"
proof (cases "pt_mem s u j = 0")
  case False
  then have "r = Ok (pte_addr P (pt_mem s u j))" "s' = s" "tab P (pt_mem s) (pt_root s) (q @ [j]) = Some (pte_addr P (pt_mem s u j))"
    using run free_path [OF wf n q] next_table_create(3) [of s u j P] q(2)
    by (auto simp: is_unused_def next_table_mut_def tab_append)
  then show ?thesis using wf by (simp add: grows_def)
next
  case True
  show ?thesis
  proof (cases "pt_free s")
    case Nil
    then show ?thesis using run True next_table_create(2) [of s u j P] wf by (auto simp: is_unused_def grows_def)
  next
    case (Cons f fs)
    then have "r = Ok f" "s' = make_table P u j s" using run True next_table_create(1) [of s u j P] by (auto simp: is_unused_def)
    moreover have "pt_root (make_table P u j s) = pt_root s" by (simp add: make_table_def upd_entry_def)
    ultimately show ?thesis
      using make_table_wf [OF wf q(2,3) True Cons] make_table_query [OF wf q(2,3) True Cons]
        make_table_tab [OF wf q(2,3) True Cons, of "q @ [j]"] q(3) by (simp add: grows_def)
  qed
qed

lemma grows_trans: "grows P L s s' \<Longrightarrow> grows P L s' s'' \<Longrightarrow> grows P L s s''"
  by (simp add: grows_def)

lemma then_with_Ok: "r = (Ok x, s) \<Longrightarrow> then_with r f = f x s"
  by simp

lemma from_third_level:
  assumes g: "grows P L s s3" and n: "pt_query P L s v = Err NotMapped"
    and q: "q @ [p3_index v, p2_index v, p1_index v] = idx L v" "tab P (pt_mem s3) (pt_root s3) q = Some p3"
    and sz: "pg_size pg \<noteq> Size16K" "pg_vaddr pg = v"
    and run: "(if pg_size pg = Size1G then (Ok (p3, p3_index v), s3)
              else then_with (next_table_mut_or_create P p3 (p3_index v) s3) (\<lambda>p2 s.
                     if pg_size pg = Size2M then (Ok (p2, p2_index v), s)
                     else then_with (next_table_mut_or_create P p2 (p2_index v) s) (\<lambda>p1 s. (Ok (p1, p1_index v), s)))) = (r, s')"
  shows "grows P L s s' \<and> (r = Err NoMemory \<or>
    (\<exists>t. r = Ok (t, idx L v ! depth L (pg_size pg)) \<and> tab P (pt_mem s') (pt_root s') (take (depth L (pg_size pg)) (idx L v)) = Some t))"
proof -
  have wf: "pt_wf P L s3" and n3: "pt_query P L s3 v = Err NotMapped" using g n by (auto simp: grows_def)
  then have L: "L = 3 \<or> L = 4" by (simp add: pt_wf_def)
  have len: "length q + 3 = L" using q(1) length_idx [OF L, of v] by (metis length_append length_Cons list.size(3) numeral_3_eq_3)
  then have lt: "Suc (length q) < L" "Suc (length (q @ [p3_index v])) < L"
    and dp: "depth L Size1G = length q" "depth L Size2M = Suc (length q)" "depth L Size4K = Suc (Suc (length q))" by auto
  have ix: "idx L v ! length q = p3_index v" "idx L v ! Suc (length q) = p2_index v" "idx L v ! Suc (Suc (length q)) = p1_index v"
    "take (length q) (idx L v) = q" "take (Suc (length q)) (idx L v) = q @ [p3_index v]"
    "take (Suc (Suc (length q))) (idx L v) = q @ [p3_index v, p2_index v]"
    unfolding q(1) [symmetric] by (simp_all add: nth_append)
  have pre: "prefix (q @ [p3_index v]) (idx L v)" "prefix ((q @ [p3_index v]) @ [p2_index v]) (idx L v)"
    unfolding q(1) [symmetric] by (auto simp: prefix_def)
  show ?thesis
  proof (cases "pg_size pg = Size1G")
    case True
    then show ?thesis using run g q(2) by (auto simp: dp ix simp del: depth.simps)
  next
    case False
    obtain r2 s2 where n2: "next_table_mut_or_create P p3 (p3_index v) s3 = (r2, s2)" by fastforce
    note a = next_level [OF wf n3 pre(1) q(2) lt(1) n2]
    have g2: "grows P L s s2" using a g grows_trans by blast
    show ?thesis
    proof (cases r2)
      case (Ok p2)
      then have t2: "tab P (pt_mem s2) (pt_root s2) (q @ [p3_index v]) = Some p2" using a by simp
      have wf2: "pt_wf P L s2" "pt_query P L s2 v = Err NotMapped" using g2 n by (auto simp: grows_def)
      show ?thesis
      proof (cases "pg_size pg = Size2M")
        case True
        then show ?thesis using run n2 Ok g2 t2 by (auto simp: dp ix simp del: depth.simps)
      next
        case F2: False
        then have k: "pg_size pg = Size4K" using False sz by (cases "pg_size pg") auto
        obtain r1 s1 where n1: "next_table_mut_or_create P p2 (p2_index v) s2 = (r1, s1)" by fastforce
        note b = next_level [OF wf2 pre(2) t2 lt(2) n1]
        have "grows P L s s1" using b g2 grows_trans by blast
        then show ?thesis using run n2 Ok n1 b k by (cases r1) (auto simp: dp ix simp del: depth.simps)
      qed
    qed (use run False n2 a g2 in auto)
  qed
qed

lemma get_or_create:
  assumes wf: "pt_wf P L s" and n: "pt_query P L s (pg_vaddr pg) = Err NotMapped" and sz: "pg_size pg \<noteq> Size16K"
    and run: "get_entry_mut_or_create P L pg s = (r, s')"
  shows "grows P L s s' \<and> (r = Err NoMemory \<or>
    (\<exists>t. r = Ok (t, idx L (pg_vaddr pg) ! depth L (pg_size pg))
       \<and> tab P (pt_mem s') (pt_root s') (take (depth L (pg_size pg)) (idx L (pg_vaddr pg))) = Some t))"
proof -
  let ?v = "pg_vaddr pg"
  have g: "grows P L s s" using wf by (simp add: grows_def)
  consider (three) "L = 3" | (four) "L = 4" using wf by (auto simp: pt_wf_def)
  then show ?thesis
  proof cases
    case three
    have q: "[] @ [p3_index ?v, p2_index ?v, p1_index ?v] = idx L ?v" by (simp add: three idx_def steps_def)
    show ?thesis
      by (rule from_third_level [OF g n q _ sz refl]) (use run three in \<open>simp_all add: get_entry_mut_or_create_def\<close>)
  next
    case four
    have q: "[p4_index ?v] @ [p3_index ?v, p2_index ?v, p1_index ?v] = idx L ?v" by (simp add: four idx_def steps_def)
    obtain r3 s3 where n3: "next_table_mut_or_create P (pt_root s) (p4_index ?v) s = (r3, s3)" by fastforce
    have pre: "prefix ([] @ [p4_index ?v]) (idx L ?v)" unfolding q [symmetric] by simp
    note a = next_level [OF wf n pre _ _ n3]
    show ?thesis
    proof (cases r3)
      case (Ok p3)
      then have "grows P L s s3" "tab P (pt_mem s3) (pt_root s3) [p4_index ?v] = Some p3" using a four by auto
      from from_third_level [OF this(1) n q this(2) sz refl] show ?thesis
        using run four n3 Ok by (simp add: get_entry_mut_or_create_def)
    qed (use run four n3 a in \<open>auto simp: get_entry_mut_or_create_def\<close>)
  qed
qed

end

section \<open>Mapping a page\<close>

lemma steps_Some:
  assumes "L = 3 \<or> L = 4" "k < L"
  shows "snd (steps L v ! k) = Some z \<longleftrightarrow> k = depth L z \<and> z \<noteq> Size16K"
  using assms by (cases z) (auto simp: steps_def numeral_eq_Suc less_Suc_eq)

lemma depth_less: "L = 3 \<or> L = 4 \<Longrightarrow> depth L z < L"
  by (cases z) auto

lemma depth_huge: "L = 3 \<or> L = 4 \<Longrightarrow> z \<noteq> Size16K \<Longrightarrow> Suc (depth L z) < L \<longleftrightarrow> is_huge z"
  by (cases z) auto

text \<open>Two addresses in the same page: below the \<open>12 + 9 L\<close> bits a walk looks at, they agree above the offset.\<close>

definition in_page :: "nat \<Rightarrow> page_size \<Rightarrow> usize \<Rightarrow> usize \<Rightarrow> bool" where
  "in_page L z v w \<longleftrightarrow> take_bit (12 + 9 * L) (align_down z w) = take_bit (12 + 9 * L) (align_down z v)"

definition same_bits :: "nat \<Rightarrow> nat \<Rightarrow> usize \<Rightarrow> usize \<Rightarrow> bool" where
  "same_bits a b v w \<longleftrightarrow> (\<forall>n. a \<le> n \<and> n < b \<longrightarrow> bit v n = bit w n)"

lemma same_bits_split: "a \<le> b \<Longrightarrow> b \<le> c \<Longrightarrow> same_bits a c v w \<longleftrightarrow> same_bits a b v w \<and> same_bits b c v w"
  unfolding same_bits_def by (meson le_less_trans less_le_trans not_le order.trans)

lemma index_same_bits:
  "unat (drop_bit k v AND (511 :: usize)) = unat (drop_bit k w AND 511) \<longleftrightarrow> same_bits k (k + 9) w v"
proof -
  have w: "n < 64" if "n < 9" for n :: nat using that by simp
  have m: "(511 :: usize) = mask 9" by (simp add: mask_eq_exp_minus_1)
  have "unat (drop_bit k v AND (511 :: usize)) = unat (drop_bit k w AND 511) \<longleftrightarrow> take_bit 9 (drop_bit k v) = take_bit 9 (drop_bit k w)"
    unfolding m take_bit_eq_mask [symmetric] by (simp only: word_unat_eq_iff)
  also have "\<dots> \<longleftrightarrow> (\<forall>n. n < 9 \<longrightarrow> bit v (k + n) = bit w (k + n))"
    unfolding bit_eq_iff by (simp add: bit_take_bit_iff bit_drop_bit_eq) (use w in blast)
  also have "\<dots> \<longleftrightarrow> same_bits k (k + 9) w v"
    unfolding same_bits_def by (metis add_less_cancel_left le_add1 le_Suc_ex)
  finally show ?thesis .
qed

fun page_shift :: "page_size \<Rightarrow> nat" where
  "page_shift Size4K = 12" | "page_shift Size16K = 14" | "page_shift Size2M = 21" | "page_shift Size1G = 30"

lemma page_size_bytes_mask: "page_size_bytes z - 1 = mask (page_shift z)"
  by (cases z) (simp_all add: mask_eq_exp_minus_1)

lemma in_page_bits: "in_page L z v w \<longleftrightarrow> same_bits (page_shift z) (12 + 9 * L) v w"
proof -
  have "bit x n \<Longrightarrow> n < 64" for x :: usize and n using bit_imp_le_length [of x n] by simp
  then show ?thesis
    unfolding in_page_def align_down_def page_size_bytes_mask same_bits_def bit_eq_iff
    by (simp add: bit_take_bit_iff bit_and_iff bit_not_iff bit_mask_iff) (meson not_le)
qed

lemma in_page_idx:
  assumes "L = 3 \<or> L = 4" "z \<noteq> Size16K"
  shows "in_page L z v w \<longleftrightarrow> take (Suc (depth L z)) (idx L w) = take (Suc (depth L z)) (idx L v)"
proof -
  have sp: "same_bits 12 39 v w \<longleftrightarrow> same_bits 12 21 v w \<and> same_bits 21 30 v w \<and> same_bits 30 39 v w"
    "same_bits 12 48 v w \<longleftrightarrow> same_bits 12 21 v w \<and> same_bits 21 30 v w \<and> same_bits 30 39 v w \<and> same_bits 39 48 v w"
    "same_bits 21 39 v w \<longleftrightarrow> same_bits 21 30 v w \<and> same_bits 30 39 v w"
    "same_bits 21 48 v w \<longleftrightarrow> same_bits 21 30 v w \<and> same_bits 30 39 v w \<and> same_bits 39 48 v w"
    "same_bits 30 48 v w \<longleftrightarrow> same_bits 30 39 v w \<and> same_bits 39 48 v w"
    using same_bits_split [of 12 21 39 v w] same_bits_split [of 21 30 39 v w] same_bits_split [of 30 39 48 v w]
      same_bits_split [of 12 21 48 v w] same_bits_split [of 21 30 48 v w] by simp_all
  show ?thesis
    using assms unfolding in_page_bits
    by (elim disjE; cases z)
      (simp_all only: page_size.simps simp_thms, simp_all add: sp idx_def steps_def p4_index_def p3_index_def p2_index_def p1_index_def index_same_bits conj_ac)
qed

lemma in_page_prefix:
  assumes "L = 3 \<or> L = 4" "z \<noteq> Size16K"
  shows "in_page L z v w \<longleftrightarrow> prefix (take (depth L z) (idx L v) @ [idx L v ! depth L z]) (idx L w)"
proof -
  have d: "depth L z < length (idx L v)" using depth_less [OF assms(1)] assms by simp
  have "take (depth L z) (idx L v) @ [idx L v ! depth L z] = take (Suc (depth L z)) (idx L v)"
    using take_Suc_conv_app_nth [OF d] by simp
  moreover have "length (take (Suc (depth L z)) (idx L v)) = Suc (depth L z)" using d by simp
  ultimately show ?thesis unfolding in_page_idx [OF assms] by (metis append_eq_conv_conj prefix_def take_is_prefix)
qed

context pte_laws
begin

lemma pt_map_ok:
  assumes wf: "pt_wf P L s" and n: "pt_query P L s (pg_vaddr pg) = Err NotMapped" and sz: "pg_size pg \<noteq> Size16K"
    and pa: "frame_addr (align_down (pg_size pg) paddr)" and fl: "intersects flags MMU_RXW"
    and run: "pt_map P L pg paddr flags s = (r, s')"
  shows "pt_wf P L s' \<and> pt_root s' = pt_root s \<and> r \<in> {Ok (), Err NoMemory, Err AlreadyMapped}
    \<and> (\<forall>v. pt_query P L s' v =
         (if r = Ok () \<and> in_page L (pg_size pg) (pg_vaddr pg) v
          then Ok (align_down (pg_size pg) paddr + page_offset (pg_size pg) v, shown flags, pg_size pg)
          else pt_query P L s v))"
proof -
  let ?v = "pg_vaddr pg" and ?z = "pg_size pg"
  let ?q = "take (depth L ?z) (idx L ?v)" and ?j = "idx L ?v ! depth L ?z"
  let ?e = "pte_set_flags P flags (is_huge ?z) (pte_set_addr P (align_down ?z paddr) 0)"
  have L: "L = 3 \<or> L = 4" using wf by (simp add: pt_wf_def)
  obtain r1 s1 where g: "get_entry_mut_or_create P L pg s = (r1, s1)" by fastforce
  note c = get_or_create [OF wf n sz g]
  have wf1: "pt_wf P L s1" and root: "pt_root s1 = pt_root s" and same: "\<And>v. pt_query P L s1 v = pt_query P L s v"
    using c by (auto simp: grows_def)
  show ?thesis
  proof (cases "\<exists>t. r1 = Ok (t, ?j) \<and> pt_mem s1 t ?j = 0")
    case False
    then have "s' = s1 \<and> (r = Err NoMemory \<or> r = Err AlreadyMapped)"
      using run g c by (auto simp: pt_map_def is_unused_def split: if_splits)
    then show ?thesis using wf1 root same by auto
  next
    case True
    then obtain t where t: "r1 = Ok (t, ?j)" "pt_mem s1 t ?j = 0" "tab P (pt_mem s1) (pt_root s1) ?q = Some t" using c by auto
    have s': "s' = upd_entry t ?j ?e s1" "r = Ok ()" using run g t by (auto simp: pt_map_def is_unused_def)
    have lq: "length ?q = depth L ?z" "length ?q < L" using depth_less [OF L, of ?z] L by simp_all
    note e = page_entry [OF pa fl, of "is_huge ?z"]
    have e0: "?e \<noteq> 0" using e present_not_zero by blast
    have huge: "Suc (length ?q) < L \<longleftrightarrow> is_huge ?z" using depth_huge [OF L sz] lq by simp
    have wf2: "pt_wf P L s'"
      unfolding s'(1)
    proof (rule dead_write_wf [OF wf1 t(3) lq(2)])
      assume "Suc (length ?q) < L"
      moreover have "L = 4 \<longrightarrow> depth L ?z \<noteq> 0" by (cases ?z) auto
      then have "L = 4 \<longrightarrow> ?q \<noteq> []" using lq(1) by (metis list.size(3))
      ultimately show "dead P (pt_mem s1 t ?j) \<and> dead P ?e \<and> (?e \<noteq> 0 \<longrightarrow> pte_present P ?e \<and> (L = 4 \<longrightarrow> ?q \<noteq> []))"
        using e huge t(2) zero_absent by (auto simp: dead_def)
    qed
    have q2: "tab P (pt_mem s') (pt_root s') ?q = Some t"
      using tab_other [OF wf1 same_but_upd t(3) lq(2) lq(2), of ?j ?e] t(3)
      by (auto simp: s'(1) upd_entry_def dest: prefix_length_le)
    have "pt_query P L s' v = (if in_page L ?z ?v v then Ok (align_down ?z paddr + page_offset ?z v, shown flags, ?z) else pt_query P L s v)" for v
    proof (cases "in_page L ?z ?v v")
      case True
      have "pt_query P L s' v = Ok (pte_addr P ?e + page_offset ?z v, shown flags, ?z)"
      proof (rule query_page [OF wf2 _ q2])
        show "prefix (?q @ [?j]) (idx L v)" using True in_page_prefix [OF L sz] by blast
        show "pt_mem s' t ?j = ?e" by (simp add: s'(1) upd_entry_def)
        show "snd (steps L v ! length ?q) = Some ?z" using steps_Some [OF L lq(2)] lq sz by simp
      qed (use e e0 huge in auto)
      then show ?thesis using True e by simp
    next
      case False
      have "pt_query P L s' v = pt_query P L s1 v"
        by (rule query_other [OF wf1 _ t(3) lq(2), where j = ?j])
          (use False in_page_prefix [OF L sz] in \<open>auto simp: s'(1) upd_entry_def\<close>)
      then show ?thesis using False same by simp
    qed
    then show ?thesis using wf2 s'(2) root by (simp add: s'(1) upd_entry_def)
  qed
qed

text \<open>The entry a walk stops at is in the table at the end of a path, at the depth of the size it reports.\<close>

lemma down_Ok:
  assumes wf: "pt_wf P L s" and "length p < L" "prefix p (idx L v)" "tab P (pt_mem s) (pt_root s) p = Some t"
    and "down P (pt_mem s) t (drop (length p) (steps L v)) = Ok (u, j, z)"
  shows "\<exists>q. prefix (q @ [j]) (idx L v) \<and> tab P (pt_mem s) (pt_root s) q = Some u \<and> length q = depth L z \<and> z \<noteq> Size16K
    \<and> (Suc (length q) < L \<longrightarrow> pte_leaf P (pt_mem s u j))"
  using assms(2-5)
proof (induction "L - length p" arbitrary: p t rule: less_induct)
  case less
  have L: "L = 3 \<or> L = 4" using wf by (simp add: pt_wf_def)
  let ?i = "idx L v ! length p" and ?z = "snd (steps L v ! length p)"
  have pi: "prefix (p @ [?i]) (idx L v)"
    using less.prems(1,2) L by (metis length_idx append_eq_conv_conj prefix_def prefix_order.dual_order.refl take_Suc_conv_app_nth take_is_prefix)
  have stop: ?case if "?z = Some z" "(u, j) = (t, ?i)" "Suc (length p) < L \<longrightarrow> pte_leaf P (pt_mem s t ?i)"
    using that pi less.prems(3) steps_Some [OF L less.prems(1)] by (intro exI [of _ p]) auto
  note st = steps_at [OF L less.prems(1), of v]
  show ?case
  proof (cases "Suc (length p) < L")
    case False
    then have "drop (Suc (length p)) (steps L v) = []" using L by simp
    then show ?thesis using less.prems(4) stop False unfolding st by (auto split: option.splits)
  next
    case True
    note st' = steps_at [OF L True, of v]
    show ?thesis
    proof (cases "?z \<noteq> None \<and> pte_leaf P (pt_mem s t ?i)")
      case True
      then show ?thesis using less.prems(4) stop unfolding st st' by auto
    next
      case False
      then have n: "result_bind (next_table_mut P (pt_mem s t ?i)) (\<lambda>t'. down P (pt_mem s) t' (drop (Suc (length p)) (steps L v))) = Ok (u, j, z)"
        using less.prems(4) unfolding st st' by (auto split: if_splits)
      then have pr: "pte_present P (pt_mem s t ?i)"
        and d: "down P (pt_mem s) (pte_addr P (pt_mem s t ?i)) (drop (length (p @ [?i])) (steps L v)) = Ok (u, j, z)"
        by (auto simp: next_table_mut_def split: if_splits)
      have "\<not> pte_leaf P (pt_mem s t ?i)"
      proof (cases "?z = None")
        case True
        then have "L = 4" "p = []" using steps_None [OF L less.prems(1)] by auto
        then show ?thesis using wf less.prems(3) present_not_zero [OF pr] unfolding pt_wf_def entries_ok_def by force
      qed (use False in blast)
      then have t': "tab P (pt_mem s) (pt_root s) (p @ [?i]) = Some (pte_addr P (pt_mem s t ?i))"
        using less.prems(3) pr by (simp add: tab_append)
      show ?thesis by (rule less.hyps [OF _ _ pi t' d]) (use \<open>Suc (length p) < L\<close> in simp_all)
    qed
  qed
qed

lemma pt_unmap_ok:
  assumes wf: "pt_wf P L s" and run: "pt_unmap P L v s = (r, s')"
  shows "pt_wf P L s' \<and> pt_root s' = pt_root s
    \<and> (\<forall>w. pt_query P L s' w =
         (case r of Ok (pa, z) \<Rightarrow> if in_page L z v w then Err NotMapped else pt_query P L s w | _ \<Rightarrow> pt_query P L s w))"
proof -
  have L: "L = 3 \<or> L = 4" using wf by (simp add: pt_wf_def)
  note g = get_entry_mut_down [OF L, of P s v]
  show ?thesis
  proof (cases "\<exists>u j z. get_entry_mut P L s v = Ok (u, j, z) \<and> pt_mem s u j \<noteq> 0")
    case False
    then have "s' = s" "\<not> (\<exists>x. r = Ok x)"
      using run by (cases "get_entry_mut P L s v"; auto simp: pt_unmap_def is_unused_def)+
    then show ?thesis using wf by (cases r) auto
  next
    case True
    then obtain u j z where e: "get_entry_mut P L s v = Ok (u, j, z)" "pt_mem s u j \<noteq> 0" by blast
    have r: "r = Ok (pte_addr P (pt_mem s u j), z)" "s' = upd_entry u j 0 s"
      using run e by (auto simp: pt_unmap_def is_unused_def)
    obtain q where q: "prefix (q @ [j]) (idx L v)" "tab P (pt_mem s) (pt_root s) q = Some u" "length q = depth L z" "z \<noteq> Size16K"
      "Suc (length q) < L \<longrightarrow> pte_leaf P (pt_mem s u j)"
      using down_Ok [OF wf, of "[]" v "pt_root s" u j z] e(1) L unfolding g by auto
    have lq: "length q < L" using q(3) depth_less [OF L, of z] by simp
    have wf': "pt_wf P L s'"
      unfolding r(2) by (rule dead_write_wf [OF wf q(2) lq]) (use q(5) zero_absent in \<open>auto simp: dead_def\<close>)
    have q': "tab P (pt_mem s') (pt_root s') q = Some u"
      using tab_other [OF wf same_but_upd q(2) lq lq, of j 0] q(2)
      by (auto simp: r(2) upd_entry_def dest: prefix_length_le)
    have qj: "take (depth L z) (idx L v) @ [idx L v ! depth L z] = q @ [j]"
      using q(1) unfolding q(3) [symmetric] by (auto simp: prefix_def)
    have "pt_query P L s' w = (if in_page L z v w then Err NotMapped else pt_query P L s w)" for w
    proof (cases "in_page L z v w")
      case True
      then show ?thesis using query_zero [OF wf' _ q', of j w] unfolding in_page_prefix [OF L q(4)] qj
        by (simp add: r(2) upd_entry_def)
    next
      case False
      have "pt_query P L s' w = pt_query P L s w"
        by (rule query_other [OF wf _ q(2) lq, where j = j])
          (use False in_page_prefix [OF L q(4)] qj in \<open>auto simp: r(2) upd_entry_def\<close>)
      then show ?thesis using False by simp
    qed
    then show ?thesis using wf' by (simp add: r upd_entry_def)
  qed
qed

end

end
