(* ===== verification/Page_Refine.thy ===== *)
theory Page_Refine
  imports Page_Map
begin

text \<open>
  The contract of a page table as a partial function from addresses to pages, the refinement of this
  contract by the tables of \<open>kernel-hal/src/utils/page_table.rs\<close> with the entries of x86_64 and
  RISC-V, and what \<open>update\<close> does to an entry that is not in use.
\<close>

section \<open>The table as a map\<close>

text \<open>
  The contract of a page table: a partial function from addresses to a physical address, flags and
  the size of the page. \<open>pt_event\<close> is a call with its result; \<open>spec_step\<close> is the effect of the
  call on the partial function, and is \<^const>\<open>None\<close> for a result that the contract does not allow.
\<close>

type_synonym translation = "usize \<Rightarrow> (usize \<times> mmu_flags \<times> page_size) option"

datatype pt_event =
    Pt_map page usize mmu_flags "unit paging_result"
  | Pt_unmap usize "(usize \<times> page_size) paging_result"

fun spec_step :: "nat \<Rightarrow> (mmu_flags \<Rightarrow> mmu_flags) \<Rightarrow> pt_event \<Rightarrow> translation \<Rightarrow> translation option" where
  "spec_step L shown (Pt_map pg paddr flags r) m =
     (if r = Ok () then
        Some (\<lambda>v. if in_page L (pg_size pg) (pg_vaddr pg) v
                   then Some (align_down (pg_size pg) paddr + page_offset (pg_size pg) v, shown flags, pg_size pg)
                   else m v)
      else if r = Err NoMemory \<or> r = Err AlreadyMapped then Some m
      else None)"
| "spec_step L shown (Pt_unmap v r) m =
     (case m v of
        None \<Rightarrow> if r = Err NotMapped then Some m else None
      | Some (pa, fl, z) \<Rightarrow>
          if r = Ok (pa - page_offset z v, z) then Some (\<lambda>w. if in_page L z v w then None else m w) else None)"

fun spec_run :: "nat \<Rightarrow> (mmu_flags \<Rightarrow> mmu_flags) \<Rightarrow> pt_event list \<Rightarrow> translation option" where
  "spec_run L shown [] = Some (\<lambda>_. None)"
| "spec_run L shown (e # es) = (case spec_run L shown es of None \<Rightarrow> None | Some m \<Rightarrow> spec_step L shown e m)"

definition view :: "translation \<Rightarrow> usize \<Rightarrow> (usize \<times> mmu_flags \<times> page_size) paging_result" where
  "view m v = (case m v of None \<Rightarrow> Err NotMapped | Some x \<Rightarrow> Ok x)"

text \<open>
  The runs of a table (last event first): made from frames of the allocator, then maps of addresses that are not
  mapped, with aligned frames below 2^52 and some access, and unmaps.
\<close>

inductive pt_run :: "pte_ops \<Rightarrow> nat \<Rightarrow> pt_event list \<Rightarrow> page_table \<Rightarrow> bool" for P L where
  fresh: "pt_new mem free = Ok s \<Longrightarrow> distinct free \<Longrightarrow> list_all frame_addr free \<Longrightarrow> pt_run P L [] s"
| mapped: "pt_run P L es s \<Longrightarrow> pt_query P L s (pg_vaddr pg) = Err NotMapped \<Longrightarrow> pg_size pg \<noteq> Size16K
    \<Longrightarrow> frame_addr (align_down (pg_size pg) paddr) \<Longrightarrow> intersects flags MMU_RXW
    \<Longrightarrow> pt_map P L pg paddr flags s = (r, s') \<Longrightarrow> pt_run P L (Pt_map pg paddr flags r # es) s'"
| unmapped: "pt_run P L es s \<Longrightarrow> pt_unmap P L v s = (r, s') \<Longrightarrow> pt_run P L (Pt_unmap v r # es) s'"

lemma pt_unmap_result:
  assumes q: "pt_query P L s v = view m v" and run: "pt_unmap P L v s = (r, s')"
    and fl: "\<And>e. \<exists>x. pte_flags P e = Ok x"
  shows "case m v of None \<Rightarrow> r = Err NotMapped | Some (pa, x, z) \<Rightarrow> r = Ok (pa - page_offset z v, z)"
proof (cases "get_entry_mut P L s v")
  case (Ok e)
  obtain t i z where e: "e = (t, i, z)" by (cases e) auto
  obtain x where "pte_flags P (pt_mem s t i) = Ok x" using fl by blast
  then show ?thesis using q run unfolding pt_query_def pt_unmap_def Ok e view_def
    by (auto split: if_splits option.splits)
qed (use q run in \<open>auto simp: pt_query_def pt_unmap_def view_def split: option.splits\<close>)

context pte_laws
begin

lemma fresh_wf:
  assumes "L = 3 \<or> L = 4" "pt_new mem free = Ok s" "distinct free" "list_all frame_addr free"
  shows "pt_wf P L s \<and> pt_query P L s v = Err NotMapped"
proof -
  obtain f fs where s: "free = f # fs" "s = \<lparr>pt_root = f, pt_intrm = [], pt_mem = mem(f := (\<lambda>_. 0)), pt_free = fs\<rparr>"
    using assms(2) by (cases free) (auto simp: pt_new_def)
  have t: "tab P (pt_mem s) (pt_root s) p = Some t \<longleftrightarrow> p = [] \<and> t = f" for p t
    using zero_absent by (cases p) (auto simp: s(2))
  have wf: "pt_wf P L s"
    unfolding pt_wf_def tree_inj_def frames_free_def entries_ok_def t
    using assms(1,3,4) by (auto simp: s list_all_iff)
  have "prefix ([] @ [hd (idx L v)]) (idx L v)"
    using length_idx [OF assms(1), of v] assms(1) by (cases "idx L v") auto
  then have "pt_query P L s v = Err NotMapped"
    by (rule query_zero [OF wf, where u = f]) (simp_all add: s(2))
  then show ?thesis using wf by blast
qed

lemma pt_run_refines:
  assumes "L = 3 \<or> L = 4" and fl: "\<And>e. \<exists>x. pte_flags P e = Ok x" and "pt_run P L es s"
  shows "pt_wf P L s \<and> (\<exists>m. spec_run L shown es = Some m \<and> (\<forall>v. pt_query P L s v = view m v))"
  using assms(3)
proof (induction rule: pt_run.induct)
  case fresh
  then show ?case using fresh_wf [OF assms(1)] by (simp add: view_def)
next
  case (mapped es s pg paddr flags r s')
  then obtain m where m: "spec_run L shown es = Some m" "\<And>v. pt_query P L s v = view m v" by blast
  have wf: "pt_wf P L s" using mapped.IH by blast
  note ok = pt_map_ok [OF wf mapped.hyps(2-6)]
  then obtain m' where m': "spec_step L shown (Pt_map pg paddr flags r) m = Some m'" by auto
  have "pt_query P L s' v = view m' v" for v
    using ok m' m(2) by (auto simp: view_def split: if_splits)
  then show ?case using ok m(1) m' by auto
next
  case (unmapped es s v r s')
  then obtain m where m: "spec_run L shown es = Some m" "\<And>v. pt_query P L s v = view m v" by blast
  have wf: "pt_wf P L s" using unmapped.IH by blast
  note ok = pt_unmap_ok [OF wf unmapped.hyps(2)]
  note res = pt_unmap_result [OF m(2) unmapped.hyps(2) fl]
  obtain m' where m': "spec_step L shown (Pt_unmap v r) m = Some m'" using res by (auto split: option.splits)
  have "pt_query P L s' w = view m' w" for w
    using ok m' m(2) res by (auto simp: view_def split: if_splits option.splits)
  then show ?case using ok m(1) m' by auto
qed

end


text \<open>A table with one small page, used by the examples below.\<close>

definition demo_empty :: page_table where
  "demo_empty = \<lparr>pt_root = 0x1000, pt_intrm = [], pt_mem = (\<lambda>_ _. 0), pt_free = [0x2000, 0x3000, 0x4000]\<rparr>"

definition demo_page :: page where
  "demo_page = \<lparr>pg_vaddr = 0x400000, pg_size = Size4K\<rparr>"

definition demo_table :: page_table where
  "demo_table = snd (pt_map x86_pte 4 demo_page 0x8000 MMU_READ demo_empty)"

lemmas demo_defs = demo_empty_def demo_page_def pt_map_def get_entry_mut_or_create_def next_table_mut_or_create_def
  alloc_intrm_table_def upd_entry_def is_unused_def p4_index_def p3_index_def p2_index_def p1_index_def x86_pte_def
  get_entry_mut_def next_table_mut_def pt_query_def X86_ADDR_MASK_def x86_bits contains_def intersects_def MMU_READ_def MMU_RXW_def

lemma demo_map: "pt_map x86_pte 4 demo_page 0x8000 MMU_READ demo_empty = (Ok (), demo_table)"
  unfolding demo_table_def by (simp add: demo_defs)

lemma demo_run: "pt_run x86_pte 4 [Pt_map demo_page 0x8000 MMU_READ (Ok ())] demo_table"
proof (rule pt_run.mapped [OF _ _ _ _ _ demo_map])
  show "pt_run x86_pte 4 [] demo_empty"
    by (rule pt_run.fresh [of "\<lambda>_ _. 0" "[0x1000, 0x2000, 0x3000, 0x4000]"])
      (auto simp: pt_new_def demo_empty_def frame_addr_def X86_ADDR_MASK_def fun_eq_iff)
qed (simp_all add: demo_defs frame_addr_def align_down_def)


section \<open>Updating an entry that is not in use\<close>

context pte_laws
begin

lemma update_unused:
  assumes wf: "pt_wf P L s" and g: "get_entry_mut P L s v = Ok (t, i, Size4K)" and z: "pt_mem s t i = 0"
    and fl: "intersects flags MMU_RXW" and z0: "pte_set_addr P 0 0 = 0"
  shows "\<exists>s'. pt_update P L v None (Some flags) s = (Ok Size4K, s')
    \<and> pt_query P L s' v = Ok (page_offset Size4K v, shown flags, Size4K)"
proof -
  have L: "L = 3 \<or> L = 4" using wf by (simp add: pt_wf_def)
  let ?e = "pte_set_flags P flags False 0" and ?s = "upd_entry t i (pte_set_flags P flags False 0) s"
  obtain q where q: "prefix (q @ [i]) (idx L v)" "tab P (pt_mem s) (pt_root s) q = Some t" "length q = depth L Size4K"
    using down_Ok [OF wf, of "[]" v "pt_root s" t i Size4K] g L get_entry_mut_down [OF L, of P s v] by auto
  have lq: "length q < L" "\<not> Suc (length q) < L" using q(3) L by auto
  have "frame_addr 0" by (simp add: frame_addr_def)
  note e = page_entry [OF this fl, of False, unfolded z0]
  have wf': "pt_wf P L ?s" by (rule dead_write_wf [OF wf q(2) lq(1)]) (use lq(2) in simp)
  have q': "tab P (pt_mem ?s) (pt_root ?s) q = Some t"
    using tab_other [OF wf same_but_upd q(2) lq(1) lq(1), of i ?e] q(2) by (auto simp: upd_entry_def dest: prefix_length_le)
  have "pt_query P L ?s v = Ok (pte_addr P ?e + page_offset Size4K v, shown flags, Size4K)"
  proof (rule query_page [OF wf' q(1) q'])
    show "pt_mem ?s t i = ?e" by (simp add: upd_entry_def)
    show "snd (steps L v ! length q) = Some Size4K" using steps_Some [OF L lq(1)] q(3) by simp
  qed (use e present_not_zero lq(2) in auto)
  moreover have "pt_update P L v None (Some flags) s = (Ok Size4K, ?s)"
    using g z by (simp add: pt_update_def)
  ultimately show ?thesis using e by simp
qed

end

text \<open>
  C38. \<open>update\<close> does not look whether the entry it finds is in use: changing the flags of an address that is
  not mapped, in a range of 2 MiB where some other page is, maps the address to the physical frame 0
  with the access asked for. \<open>VmMapping::protect\<close> and the write protection of copy-on-write call it for every page of
  their range, whether the page has been committed or not.
\<close>
theorem update_maps_frame_zero:
  assumes "(P, L, shown) \<in> {(x86_pte, 4, x86_shown), (rv_pte, 3, rv_shown)}" "pt_run P L es s"
    and "get_entry_mut P L s v = Ok (t, i, Size4K)" "pt_mem s t i = 0" "intersects flags MMU_RXW"
  shows "pt_query P L s v = Err NotMapped
    \<and> (\<exists>s'. pt_update P L v None (Some flags) s = (Ok Size4K, s')
         \<and> pt_query P L s' v = Ok (page_offset Size4K v, shown flags, Size4K))"
proof -
  have fl: "\<exists>x. pte_flags x86_pte e = Ok x" "\<exists>x. pte_flags rv_pte e = Ok x" for e
    by (auto simp: x86_pte_def rv_pte_def)
  have z: "pte_set_addr x86_pte 0 0 = 0" "pte_set_addr rv_pte 0 0 = 0" by (simp_all add: x86_pte_def rv_pte_def)
  have "pt_query P L s v = Err NotMapped" using assms(3,4) by (simp add: pt_query_def is_unused_def)
  then show ?thesis
    using assms x86.pt_run_refines [of 4 es s, OF _ fl(1)] rv.pt_run_refines [of 3 es s, OF _ fl(2)]
      x86.update_unused [of 4 s v t i flags, OF _ _ _ _ z(1)] rv.update_unused [of 3 s v t i flags, OF _ _ _ _ z(2)]
    by auto
qed

theorem update_maps_frame_zero_witness:
  "pt_query x86_pte 4 demo_table 0x401008 = Err NotMapped
   \<and> (\<exists>s'. pt_update x86_pte 4 0x401008 None (Some MMU_READ) demo_table = (Ok Size4K, s')
        \<and> pt_query x86_pte 4 s' 0x401008 = Ok (8, x86_shown MMU_READ, Size4K))"
proof -
  have "get_entry_mut x86_pte 4 demo_table 0x401008 = Ok (0x4000, 1, Size4K)" "pt_mem demo_table 0x4000 1 = 0"
    by (simp_all add: demo_table_def demo_defs)
  then show ?thesis
    using update_maps_frame_zero [OF _ demo_run, where v = "0x401008" and t = "0x4000" and i = 1 and shown = x86_shown and flags = MMU_READ]
    by (simp add: page_offset_def intersects_def MMU_RXW_def MMU_READ_def)
qed

end
