(* ===== verification/Interrupt_Off.thy ===== *)
theory Interrupt_Off
  imports Prelude
begin

text \<open>
  The nesting of interrupt-disabled sections (\<open>drivers/src/sync/interrupt.rs\<close>) that every lock of the
  kernel opens and closes, and the contract \<open>irq_protocol\<close> of a lock towards it: as long as each live
  guard stands for one \<open>push_off\<close>, interrupts are off on the cores that hold a guard, are as before on all
  other cores, and no \<open>pop_off\<close> panics.
\<close>

declare Let_def [simp]

section \<open>Model\<close>

text \<open>A core: its entry of \<open>CPUS\<close> and the interrupt flag of the hardware.\<close>

record cpu =
  noff :: u32
  interrupt_enable :: bool
  intr :: bool

definition MAX_CORE_NUM :: nat where "MAX_CORE_NUM = 16"

type_synonym cpus = "nat \<Rightarrow> cpu"

definition push_off :: "nat \<Rightarrow> cpus \<Rightarrow> (unit, cpus) result" where
  "push_off k T =
     (if k < MAX_CORE_NUM then
        Ok (T(k := (T k)\<lparr>intr := False,
                          interrupt_enable := (if noff (T k) = 0 then intr (T k) else interrupt_enable (T k)),
                          noff := noff (T k) + 1\<rparr>))
      else Panic)"

definition pop_off :: "nat \<Rightarrow> cpus \<Rightarrow> (unit, cpus) result" where
  "pop_off k T =
     (if k < MAX_CORE_NUM then
        if intr (T k) \<or> sint (noff (T k)) < 1 then Panic
        else
          let left = noff (T k) - 1
          in Ok (T(k := (T k)\<lparr>noff := left, intr := left = 0 \<and> interrupt_enable (T k)\<rparr>))
      else Panic)"

text \<open>A sequence of steps, in order; it ends at the first step that is refused or panics.\<close>

fun run_steps :: "('c \<Rightarrow> 's \<Rightarrow> ('e, 's) result) \<Rightarrow> 'c list \<Rightarrow> 's \<Rightarrow> ('e, 's) result" where
  "run_steps step [] s = Ok s"
| "run_steps step (c # cs) s = result_bind (step c s) (run_steps step cs)"

lemma run_steps_inv:
  assumes "\<And>c s s'. I s \<Longrightarrow> step c s = Ok s' \<Longrightarrow> I s'"
  shows "I s \<Longrightarrow> run_steps step cs s = Ok s' \<Longrightarrow> I s'"
  by (induction cs arbitrary: s) (auto dest: assms)

section \<open>Balanced sections\<close>

text \<open>
  \<open>irq_ok core init A T\<close>: the cores are in the state that the set \<open>A\<close> of open sections, each on its
  core, gives them; \<open>init\<close> tells the cores whose interrupts were on at first.
\<close>

definition sections :: "(nat \<Rightarrow> nat) \<Rightarrow> nat set \<Rightarrow> nat \<Rightarrow> nat" where
  "sections core A k = card {a \<in> A. core a = k}"

definition irq_ok :: "(nat \<Rightarrow> nat) \<Rightarrow> (nat \<Rightarrow> bool) \<Rightarrow> nat set \<Rightarrow> cpus \<Rightarrow> bool" where
  "irq_ok core init A T \<longleftrightarrow>
     (\<forall>k. unat (noff (T k)) = sections core A k
        \<and> (if sections core A k = 0 then intr (T k) = init k else \<not> intr (T k) \<and> interrupt_enable (T k) = init k))"

lemma sections_insert: "finite A \<Longrightarrow> a \<notin> A \<Longrightarrow> sections core (insert a A) k = (if core a = k then Suc (sections core A k) else sections core A k)"
proof -
  assume a: "finite A" "a \<notin> A"
  have "{x \<in> insert a A. core x = k} = (if core a = k then insert a {x \<in> A. core x = k} else {x \<in> A. core x = k})" by auto
  then show ?thesis using a by (simp add: sections_def)
qed

lemma sections_remove: "finite A \<Longrightarrow> a \<in> A \<Longrightarrow> sections core A k = (if core a = k then Suc (sections core (A - {a}) k) else sections core (A - {a}) k)"
  using sections_insert [of "A - {a}" a core k] by (simp add: insert_absorb)

lemma sections_le: "finite A \<Longrightarrow> sections core A k \<le> card A"
  unfolding sections_def by (rule card_mono) auto

lemma push_off_ok:
  assumes "irq_ok core init A T" "finite A" "a \<notin> A" "card A < 2 ^ 31" "push_off (core a) T = Ok T'"
  shows "irq_ok core init (insert a A) T'"
proof -
  have T': "T' = T(core a := (T (core a))\<lparr>intr := False,
      interrupt_enable := (if noff (T (core a)) = 0 then intr (T (core a)) else interrupt_enable (T (core a))),
      noff := noff (T (core a)) + 1\<rparr>)"
    using assms(5) by (auto simp: push_off_def split: if_splits)
  have n: "unat (noff (T (core a))) = sections core A (core a)" using assms(1) by (simp add: irq_ok_def)
  moreover have "sections core A (core a) < 2 ^ 31" using sections_le [OF assms(2)] assms(4) le_less_trans by blast
  ultimately have "unat (noff (T (core a)) + 1) = Suc (sections core A (core a))"
    by (subst unat_add_no_wrap) simp_all
  moreover have "noff (T (core a)) = 0 \<longleftrightarrow> sections core A (core a) = 0" using n by (simp add: unat_eq_0 [symmetric])
  ultimately show ?thesis
    using assms(1-3) unfolding irq_ok_def T' by (auto simp: sections_insert)
qed

lemma pop_off_ok:
  assumes "irq_ok core init A T" "finite A" "a \<in> A" "card A < 2 ^ 31" "core a < MAX_CORE_NUM"
  shows "\<exists>T'. pop_off (core a) T = Ok T' \<and> irq_ok core init (A - {a}) T'"
proof -
  let ?c = "T (core a)" and ?m = "sections core (A - {a}) (core a)"
  have m: "sections core A (core a) = Suc ?m" using sections_remove [OF assms(2,3), of core "core a"] by simp
  have n: "unat (noff ?c) = Suc ?m" "\<not> intr ?c" "interrupt_enable ?c = init (core a)"
    using assms(1) m by (auto simp: irq_ok_def)
  have "Suc ?m < 2 ^ 31" using sections_le [OF assms(2), of core "core a"] assms(4) m by linarith
  then have "sint (noff ?c) = int (Suc ?m)"
    unfolding sint_uint uint_nat n(1) by (intro signed_take_bit_int_eq_self) simp_all
  moreover have "unat (noff ?c - 1) = ?m" using n(1) by (simp add: unat_sub word_le_nat_alt)
  moreover have "noff ?c - 1 = 0 \<longleftrightarrow> ?m = 0" using calculation(2) by (simp add: unat_eq_0 [symmetric])
  ultimately show ?thesis
    using assms n sections_remove [OF assms(2,3), of core] unfolding irq_ok_def pop_off_def by auto
qed

section \<open>The contract of a lock\<close>

text \<open>
  What a step of a lock does to the set \<open>A\<close> of live guards and to the cores: nothing, open a section for
  a new guard, close the section of a guard, or open and close one in a failed attempt.
\<close>

definition irq_effect :: "(nat \<Rightarrow> nat) \<Rightarrow> nat \<Rightarrow> nat set \<Rightarrow> cpus \<Rightarrow> nat set \<Rightarrow> cpus \<Rightarrow> bool" where
  "irq_effect core n A T A' T' \<longleftrightarrow>
     A' = A \<and> T' = T
     \<or> (\<exists>a < n. a \<notin> A \<and> A' = insert a A \<and> push_off (core a) T = Ok T')
     \<or> (\<exists>a \<in> A. A' = A - {a} \<and> pop_off (core a) T = Ok T')
     \<or> (\<exists>a < n. \<exists>T1. a \<notin> A \<and> A' = A \<and> push_off (core a) T = Ok T1
          \<and> pop_off (core a) T1 = Ok T')"

text \<open>The ways a step may panic: a core without an entry in \<open>CPUS\<close>, or a \<open>pop_off\<close> of a section that is open.\<close>

definition irq_panic :: "(nat \<Rightarrow> nat) \<Rightarrow> nat \<Rightarrow> nat set \<Rightarrow> cpus \<Rightarrow> bool" where
  "irq_panic core n A T \<longleftrightarrow>
     (\<exists>a < n. MAX_CORE_NUM \<le> core a
        \<or> a \<in> A \<and> pop_off (core a) T = Panic
        \<or> a \<notin> A \<and> (\<exists>T1. push_off (core a) T = Ok T1 \<and> pop_off (core a) T1 = Panic))"

lemma irq_opened [simp]: "a \<notin> A \<Longrightarrow> a < n \<Longrightarrow> push_off (core a) T = Ok T' \<Longrightarrow> irq_effect core n A T (insert a A) T'"
  by (auto simp: irq_effect_def)

lemma irq_closed [simp]: "a \<in> A \<Longrightarrow> pop_off (core a) T = Ok T' \<Longrightarrow> irq_effect core n A T (A - {a}) T'"
  by (auto simp: irq_effect_def)

lemma irq_brief: "a \<notin> A \<Longrightarrow> a < n \<Longrightarrow> push_off (core a) T = Ok T1 \<Longrightarrow> pop_off (core a) T1 = Ok T' \<Longrightarrow> irq_effect core n A T A T'"
  by (auto simp: irq_effect_def)

lemma irq_same [simp]: "irq_effect core n A T A T"
  by (simp add: irq_effect_def)

lemma push_off_not_Err [simp]: "push_off k T \<noteq> Err x" by (simp add: push_off_def)

lemma pop_off_not_Err [simp]: "pop_off k T \<noteq> Err x" by (simp add: pop_off_def)

lemma push_off_Panic [simp]: "push_off k T = Panic \<longleftrightarrow> MAX_CORE_NUM \<le> k" by (auto simp: push_off_def)

lemma result_bind_Panic_iff: "result_bind r f = Panic \<longleftrightarrow> r = Panic \<or> (\<exists>x. r = Ok x \<and> f x = Panic)"
  by (cases r) auto

lemma irq_effect_ok:
  assumes ok: "irq_ok core init A T" and n: "A \<subseteq> {..<n}" "n < 2 ^ 31" and core: "\<forall>a < n. core a < MAX_CORE_NUM"
    and "irq_effect core n A T A' T'"
  shows "irq_ok core init A' T' \<and> A' \<subseteq> {..<n}"
proof -
  have fin: "finite A" and card: "card A < 2 ^ 31"
    using n finite_subset [OF n(1)] card_mono [OF _ n(1)] by auto
  have close: "irq_ok core init (B - {a}) T2"
    if "irq_ok core init B T1" "B \<subseteq> {..<n}" "a \<in> B" "pop_off (core a) T1 = Ok T2" for B a T1 T2
  proof -
    have "finite B" "card B < 2 ^ 31" "core a < MAX_CORE_NUM"
      using that n(2) core finite_subset [OF that(2)] card_mono [OF _ that(2)] by auto
    then show ?thesis using pop_off_ok [OF that(1) _ that(3)] that(4) by fastforce
  qed
  from assms(5) consider "A' = A" "T' = T"
    | a where "a < n" "a \<notin> A" "A' = insert a A" "push_off (core a) T = Ok T'"
    | a where "a \<in> A" "A' = A - {a}" "pop_off (core a) T = Ok T'"
    | a T1 where "a < n" "a \<notin> A" "A' = A" "push_off (core a) T = Ok T1" "pop_off (core a) T1 = Ok T'"
    unfolding irq_effect_def by blast
  then show ?thesis
  proof cases
    case (2 a)
    then show ?thesis using push_off_ok [OF ok fin _ card] n(1) by auto
  next
    case (3 a)
    then show ?thesis using close [OF ok n(1)] n(1) by auto
  next
    case (4 a T1)
    have "irq_ok core init (insert a A) T1" using push_off_ok [OF ok fin 4(2) card] 4(4) by blast
    then show ?thesis using close [of "insert a A" T1 a T'] 4 n(1) by simp
  qed (use ok n in simp_all)
qed

lemma irq_no_panic:
  assumes ok: "irq_ok core init A T" and n: "A \<subseteq> {..<n}" "n < 2 ^ 31" and core: "\<forall>a < n. core a < MAX_CORE_NUM"
  shows "\<not> irq_panic core n A T"
proof
  have fin: "finite A" and card: "card A < 2 ^ 31"
    using n finite_subset [OF n(1)] card_mono [OF _ n(1)] by auto
  assume "irq_panic core n A T"
  then consider a where "a \<in> A" "pop_off (core a) T = Panic" "a < n"
    | a T1 where "a < n" "a \<notin> A" "push_off (core a) T = Ok T1" "pop_off (core a) T1 = Panic"
    unfolding irq_panic_def using core by (meson not_le)
  then show False
  proof cases
    case (1 a)
    then show ?thesis using pop_off_ok [OF ok fin 1(1) card] core by fastforce
  next
    case (2 a T1)
    have "irq_ok core init (insert a A) T1" using push_off_ok [OF ok fin 2(2) card 2(3)] .
    moreover have "card (insert a A) < 2 ^ 31"
      using card_mono [of "{..<n}" "insert a A"] n 2(1) by simp
    ultimately show ?thesis using pop_off_ok [of core init "insert a A" T1 a] fin core 2 by fastforce
  qed
qed

locale irq_protocol =
  fixes step :: "'c \<Rightarrow> 's \<Rightarrow> (unit, 's) result"
    and live :: "'s \<Rightarrow> nat set"
    and table :: "'s \<Rightarrow> cpus"
    and core :: "nat \<Rightarrow> nat"
    and n :: nat
  assumes effect: "live s \<subseteq> {..<n} \<Longrightarrow> step c s = Ok s' \<Longrightarrow> irq_effect core n (live s) (table s) (live s') (table s')"
    and panics: "live s \<subseteq> {..<n} \<Longrightarrow> step c s = Panic \<Longrightarrow> irq_panic core n (live s) (table s)"
begin

lemma run_keeps_irq:
  assumes "n < 2 ^ 31" "\<forall>a < n. core a < MAX_CORE_NUM" "irq_ok core init (live s) (table s)" "live s \<subseteq> {..<n}"
  shows "run_steps step cs s \<noteq> Panic
    \<and> (\<forall>s'. run_steps step cs s = Ok s' \<longrightarrow> irq_ok core init (live s') (table s') \<and> live s' \<subseteq> {..<n})"
  using assms(3,4)
proof (induction cs arbitrary: s)
  case (Cons c cs)
  have np: "step c s \<noteq> Panic"
    using panics [OF Cons.prems(2)] irq_no_panic [OF Cons.prems(1,2) assms(1,2)] by blast
  show ?case
  proof (cases "step c s")
    case (Ok s1)
    note e = irq_effect_ok [OF Cons.prems(1,2) assms(1,2) effect [OF Cons.prems(2) Ok]]
    show ?thesis using Cons.IH [of s1] e Ok by auto
  qed (use np in auto)
qed simp

end

text \<open>What the invariant says of a core.\<close>

lemma irq_ok_core:
  assumes "irq_ok core init A T" "finite A"
  shows "intr (T k) = (if \<exists>a \<in> A. core a = k then False else init k)"
proof -
  have "sections core A k = 0 \<longleftrightarrow> \<not> (\<exists>a \<in> A. core a = k)" using assms(2) by (auto simp: sections_def)
  then show ?thesis using assms(1) by (auto simp: irq_ok_def)
qed

lemma irq_ok_initial: "\<forall>k. noff (T k) = 0 \<Longrightarrow> irq_ok core (\<lambda>k. intr (T k)) {} T"
  by (simp add: irq_ok_def sections_def)

end
