(* ===== verification/Ticket_Lock.thy ===== *)
theory Ticket_Lock
  imports Interrupt_Off
begin

text \<open>
  The kernel's mutex (\<open>drivers/src/sync/ticket.rs\<close>). A caller takes a ticket from \<open>next_ticket\<close> and spins until
  \<open>next_serving\<close> shows it; dropping the guard serves the next ticket. The operations are split at their
  atomic accesses, so that a list of commands is an interleaving of any number of callers; each caller
  runs on a core, whose interrupts the lock turns off.
\<close>

section \<open>Model\<close>

text \<open>Where a caller is: outside, spinning with a ticket, in \<open>try_lock\<close> (after loading \<open>next_ticket\<close>, after the check of
  \<open>next_serving\<close>), or the owner of the guard.\<close>

datatype ticket_phase = TIdle | Waiting usize | Trying usize | Checked usize | Holding usize

record ticket_mutex =
  next_ticket :: usize
  next_serving :: usize
  t_phase :: "nat \<Rightarrow> ticket_phase"
  t_cpus :: cpus

definition ticket_new :: "cpus \<Rightarrow> ticket_mutex" where
  "ticket_new T = \<lparr>next_ticket = 0, next_serving = 0, t_phase = (\<lambda>_. TIdle), t_cpus = T\<rparr>"

definition set_phase :: "nat \<Rightarrow> ticket_phase \<Rightarrow> ticket_mutex \<Rightarrow> ticket_mutex" where
  "set_phase a p s = s\<lparr>t_phase := (t_phase s)(a := p)\<rparr>"

definition lock_take :: "(nat \<Rightarrow> nat) \<Rightarrow> nat \<Rightarrow> ticket_mutex \<Rightarrow> (unit, ticket_mutex) result" where
  "lock_take core a s =
     (case t_phase s a of
        TIdle \<Rightarrow> result_bind (push_off (core a) (t_cpus s)) (\<lambda>T.
                  Ok (set_phase a (Waiting (next_ticket s)) (s\<lparr>t_cpus := T, next_ticket := next_ticket s + 1\<rparr>)))
      | _ \<Rightarrow> Err ())"

definition lock_spin :: "nat \<Rightarrow> ticket_mutex \<Rightarrow> (unit, ticket_mutex) result" where
  "lock_spin a s =
     (case t_phase s a of
        Waiting t \<Rightarrow> Ok (if next_serving s \<noteq> t then s else set_phase a (Holding t) s)
      | _ \<Rightarrow> Err ())"

definition try_lock_load :: "(nat \<Rightarrow> nat) \<Rightarrow> nat \<Rightarrow> ticket_mutex \<Rightarrow> (unit, ticket_mutex) result" where
  "try_lock_load core a s =
     (case t_phase s a of
        TIdle \<Rightarrow> result_bind (push_off (core a) (t_cpus s)) (\<lambda>T. Ok (set_phase a (Trying (next_ticket s)) (s\<lparr>t_cpus := T\<rparr>)))
      | _ \<Rightarrow> Err ())"

definition try_lock_check :: "(nat \<Rightarrow> nat) \<Rightarrow> nat \<Rightarrow> ticket_mutex \<Rightarrow> (unit, ticket_mutex) result" where
  "try_lock_check core a s =
     (case t_phase s a of
        Trying t \<Rightarrow>
          if next_serving s = t then Ok (set_phase a (Checked t) s)
          else result_bind (pop_off (core a) (t_cpus s)) (\<lambda>T. Ok (set_phase a TIdle (s\<lparr>t_cpus := T\<rparr>)))
      | _ \<Rightarrow> Err ())"

text \<open>The compare-and-exchange of \<open>try_update\<close>; it may also fail spuriously, and goes on with the value it has seen.\<close>

definition try_lock_exchange :: "bool \<Rightarrow> nat \<Rightarrow> ticket_mutex \<Rightarrow> (unit, ticket_mutex) result" where
  "try_lock_exchange spurious a s =
     (case t_phase s a of
        Checked t \<Rightarrow>
          if next_ticket s = t \<and> \<not> spurious then Ok (set_phase a (Holding t) (s\<lparr>next_ticket := t + 1\<rparr>))
          else Ok (set_phase a (Trying (next_ticket s)) s)
      | _ \<Rightarrow> Err ())"

definition guard_drop :: "(nat \<Rightarrow> nat) \<Rightarrow> nat \<Rightarrow> ticket_mutex \<Rightarrow> (unit, ticket_mutex) result" where
  "guard_drop core a s =
     (case t_phase s a of
        Holding t \<Rightarrow> result_bind (pop_off (core a) (t_cpus s)) (\<lambda>T. Ok (set_phase a TIdle (s\<lparr>next_serving := t + 1, t_cpus := T\<rparr>)))
      | _ \<Rightarrow> Err ())"

definition is_locked :: "ticket_mutex \<Rightarrow> bool" where
  "is_locked s \<longleftrightarrow> next_serving s \<noteq> next_ticket s"

datatype ticket_cmd =
    Lock_take nat | Lock_spin nat | Try_load nat | Try_check nat | Try_exchange bool nat | Guard_drop nat

fun cmd_caller :: "ticket_cmd \<Rightarrow> nat" where
  "cmd_caller (Lock_take a) = a" | "cmd_caller (Lock_spin a) = a" | "cmd_caller (Try_load a) = a"
| "cmd_caller (Try_check a) = a" | "cmd_caller (Try_exchange b a) = a" | "cmd_caller (Guard_drop a) = a"

fun ticket_atomic :: "(nat \<Rightarrow> nat) \<Rightarrow> ticket_cmd \<Rightarrow> ticket_mutex \<Rightarrow> (unit, ticket_mutex) result" where
  "ticket_atomic core (Lock_take a) = lock_take core a"
| "ticket_atomic core (Lock_spin a) = lock_spin a"
| "ticket_atomic core (Try_load a) = try_lock_load core a"
| "ticket_atomic core (Try_check a) = try_lock_check core a"
| "ticket_atomic core (Try_exchange b a) = try_lock_exchange b a"
| "ticket_atomic core (Guard_drop a) = guard_drop core a"

text \<open>
  The steps of the callers below \<open>n\<close>. Ticket numbers are words and wrap around. A \<open>try_lock\<close> that has read
  \<open>next_ticket\<close> relies on the number not coming back to the value it has read before its exchange (2^64 acquisitions
  later); \<open>returns_to\<close> marks the steps where it would, and these are left out.
\<close>

definition returns_to :: "nat \<Rightarrow> ticket_mutex \<Rightarrow> ticket_mutex \<Rightarrow> bool" where
  "returns_to n s s' \<longleftrightarrow> next_ticket s' \<noteq> next_ticket s
     \<and> list_ex (\<lambda>a. t_phase s a \<in> {Trying (next_ticket s'), Checked (next_ticket s')}) [0..<n]"

definition ticket_step :: "(nat \<Rightarrow> nat) \<Rightarrow> nat \<Rightarrow> ticket_cmd \<Rightarrow> ticket_mutex \<Rightarrow> (unit, ticket_mutex) result" where
  "ticket_step core n c s =
     (if cmd_caller c < n then
        result_bind (ticket_atomic core c s) (\<lambda>s'. if returns_to n s s' then Err () else Ok s')
      else Err ())"

fun ticket_of :: "ticket_phase \<Rightarrow> usize option" where
  "ticket_of (Waiting t) = Some t" | "ticket_of (Holding t) = Some t" | "ticket_of _ = None"

fun holding :: "ticket_phase \<Rightarrow> bool" where
  "holding (Holding t) = True" | "holding _ = False"

text \<open>The callers in the order in which a run gives them tickets, and in the order in which it lets them in.\<close>

fun arrivals :: "(nat \<Rightarrow> nat) \<Rightarrow> nat \<Rightarrow> ticket_cmd list \<Rightarrow> ticket_mutex \<Rightarrow> nat list" where
  "arrivals core n [] s = []"
| "arrivals core n (c # cs) s =
     (case ticket_step core n c s of
        Ok s' \<Rightarrow> (if next_ticket s' \<noteq> next_ticket s then [cmd_caller c] else []) @ arrivals core n cs s'
      | _ \<Rightarrow> [])"

fun entries :: "(nat \<Rightarrow> nat) \<Rightarrow> nat \<Rightarrow> ticket_cmd list \<Rightarrow> ticket_mutex \<Rightarrow> nat list" where
  "entries core n [] s = []"
| "entries core n (c # cs) s =
     (case ticket_step core n c s of
        Ok s' \<Rightarrow> (let a = cmd_caller c in if holding (t_phase s' a) \<and> \<not> holding (t_phase s a) then [a] else [])
                  @ entries core n cs s'
      | _ \<Rightarrow> [])"

section \<open>The queue behind the tickets\<close>

text \<open>
  \<open>queued n s q\<close>: the callers that have a ticket are those of the queue \<open>q\<close>, their tickets are the numbers from
  \<open>next_serving\<close> up to \<open>next_ticket\<close> in order, only the first of them can be the owner, and a \<open>try_lock\<close> whose check has
  succeeded finds the lock free if it still finds its number.
\<close>

definition queued :: "nat \<Rightarrow> ticket_mutex \<Rightarrow> nat list \<Rightarrow> bool" where
  "queued n s q \<longleftrightarrow>
     distinct q \<and> (\<forall>a \<ge> n. t_phase s a = TIdle)
     \<and> (\<forall>a. a \<in> set q \<longleftrightarrow> ticket_of (t_phase s a) \<noteq> None)
     \<and> (\<forall>i < length q. ticket_of (t_phase s (q ! i)) = Some (next_serving s + of_nat i))
     \<and> next_ticket s = next_serving s + of_nat (length q)
     \<and> (\<forall>a t. t_phase s a = Holding t \<longrightarrow> q \<noteq> [] \<and> a = hd q)
     \<and> (q = [] \<or> (\<forall>a. t_phase s a \<noteq> Checked (next_ticket s)))"

definition owner :: "ticket_mutex \<Rightarrow> nat list \<Rightarrow> nat list" where
  "owner s q = (if q \<noteq> [] \<and> holding (t_phase s (hd q)) then [hd q] else [])"

lemma queued_less: "queued n s q \<Longrightarrow> a \<in> set q \<Longrightarrow> a < n"
  unfolding queued_def by (metis not_le ticket_of.simps(3))

lemma queued_length:
  assumes "queued n s q" shows "length q \<le> n"
proof -
  have "set q \<subseteq> {..<n}" using queued_less [OF assms] by auto
  then show ?thesis using card_mono [of "{..<n}" "set q"] distinct_card [of q] assms by (simp add: queued_def)
qed

lemma of_nat_small: "m < 2 ^ 64 \<Longrightarrow> of_nat m = (0 :: usize) \<Longrightarrow> m = 0"
  using unat_of_nat [of m, where 'a = 64] by simp

lemma serving_is_head:
  assumes "queued n s q" "n < 2 ^ 64" "ticket_of (t_phase s a) = Some (next_serving s)"
  shows "q \<noteq> [] \<and> a = hd q"
proof -
  have "a \<in> set q" using assms(1,3) by (simp add: queued_def)
  then obtain i where i: "i < length q" "q ! i = a" by (auto simp: in_set_conv_nth)
  then have "of_nat i = (0 :: usize)" using assms(1,3) by (auto simp: queued_def)
  then have "i = 0" using of_nat_small [of i] i queued_length [OF assms(1)] assms(2) by simp
  then show ?thesis using i by (auto simp: hd_conv_nth)
qed

text \<open>The effect of each command on the queue.\<close>

lemmas ticket_defs = ticket_step_def lock_take_def lock_spin_def try_lock_load_def try_lock_check_def try_lock_exchange_def
  guard_drop_def set_phase_def

lemma take_queued:
  assumes q: "queued n s q" and st: "ticket_step core n (Lock_take a) s = Ok s'" and n: "n < 2 ^ 64"
  shows "queued n s' (q @ [a]) \<and> next_ticket s' \<noteq> next_ticket s \<and> \<not> holding (t_phase s' a) \<and> owner s' (q @ [a]) = owner s q"
proof -
  obtain T where a: "t_phase s a = TIdle" "a < n" "\<not> returns_to n s s'"
    "s' = s\<lparr>t_cpus := T, next_ticket := next_ticket s + 1, t_phase := (t_phase s)(a := Waiting (next_ticket s))\<rparr>"
    using st by (auto simp: ticket_defs split: ticket_phase.splits if_splits)
  have out: "a \<notin> set q" using q a(1) by (simp add: queued_def)
  have ch: "t_phase s b \<noteq> Checked (next_ticket s + 1)" for b
    using q a(3) by (cases "b < n") (auto simp: returns_to_def list_ex_iff a(4) queued_def)
  have "queued n s' (q @ [a])"
    using q out a(2) ch unfolding queued_def a(4)
    by (auto simp: nth_append less_Suc_eq hd_append split: if_splits)
  then show ?thesis using out by (auto simp: a(4) owner_def hd_append)
qed

lemma spin_queued:
  assumes q: "queued n s q" and st: "ticket_step core n (Lock_spin a) s = Ok s'" and n: "n < 2 ^ 64"
  shows "queued n s' q \<and> next_ticket s' = next_ticket s
    \<and> (s' = s \<or> \<not> holding (t_phase s a) \<and> holding (t_phase s' a) \<and> owner s q = [] \<and> owner s' q = [a])"
proof -
  obtain t where t: "t_phase s a = Waiting t" "s' = (if next_serving s \<noteq> t then s else s\<lparr>t_phase := (t_phase s)(a := Holding t)\<rparr>)"
    using st by (auto simp: ticket_defs split: ticket_phase.splits if_splits)
  show ?thesis
  proof (cases "next_serving s = t")
    case True
    then have h: "q \<noteq> []" "a = hd q" using serving_is_head [OF q n, of a] t(1) by simp_all
    have "queued n s' q" using q h t True unfolding queued_def by auto
    then show ?thesis using h t True by (auto simp: owner_def)
  qed (use q t in auto)
qed

lemma queued_rephase:
  assumes q: "queued n s q" and a: "ticket_of (t_phase s a) = None" "a < n" and p: "ticket_of p = None"
    "q = [] \<or> p \<noteq> Checked (next_ticket s)"
  shows "queued n (s\<lparr>t_cpus := T, t_phase := (t_phase s)(a := p)\<rparr>) q"
proof -
  have out: "a \<notin> set q" using q a(1) by (simp add: queued_def)
  then have "q ! i \<noteq> a" if "i < length q" for i using that nth_mem by blast
  then show ?thesis using q a p out unfolding queued_def by (cases p; cases "q = []") auto
qed

lemma try_queued:
  assumes q: "queued n s q" and st: "ticket_step core n c s = Ok s'" and n: "n < 2 ^ 64" and c: "c = Try_load a \<or> c = Try_check a"
  shows "queued n s' q \<and> next_ticket s' = next_ticket s \<and> \<not> holding (t_phase s' a) \<and> owner s' q = owner s q"
proof -
  have "\<exists>p T. (p = TIdle \<or> p = Trying (next_ticket s) \<or> p = Checked (next_serving s)) \<and> ticket_of (t_phase s a) = None \<and> a < n
    \<and> s' = s\<lparr>t_cpus := T, t_phase := (t_phase s)(a := p)\<rparr>"
    using c
  proof
    assume "c = Try_load a"
    then show ?thesis using st
      by (intro exI [of _ "Trying (next_ticket s)"] exI [of _ "t_cpus s'"]) (auto simp: ticket_defs split: ticket_phase.splits if_splits)
  next
    assume "c = Try_check a"
    then show ?thesis using st
      by (intro exI [of _ "t_phase s' a"] exI [of _ "t_cpus s'"]) (auto simp: ticket_defs split: ticket_phase.splits if_splits)
  qed
  then obtain p T where p: "p = TIdle \<or> p = Trying (next_ticket s) \<or> p = Checked (next_serving s)" "ticket_of (t_phase s a) = None" "a < n"
    "s' = s\<lparr>t_cpus := T, t_phase := (t_phase s)(a := p)\<rparr>" by blast
  have e: "next_ticket s = next_serving s \<Longrightarrow> q = []"
    using q of_nat_small [of "length q"] queued_length [OF q] n by (auto simp: queued_def)
  have "a \<notin> set q" using q p(2) by (simp add: queued_def)
  moreover have "queued n s' q"
    unfolding p(4) by (rule queued_rephase [OF q p(2,3)]) (use p(1) e in auto)
  ultimately show ?thesis using p by (auto simp: owner_def)
qed

lemma exchange_queued:
  assumes q: "queued n s q" and st: "ticket_step core n (Try_exchange b a) s = Ok s'" and n: "n < 2 ^ 64"
  shows "next_ticket s' = next_ticket s \<and> queued n s' q \<and> \<not> holding (t_phase s' a) \<and> owner s' q = owner s q
    \<or> next_ticket s' \<noteq> next_ticket s \<and> q = [] \<and> queued n s' [a] \<and> \<not> holding (t_phase s a) \<and> holding (t_phase s' a) \<and> owner s' [a] = [a]"
proof -
  obtain t where t: "t_phase s a = Checked t" "a < n" "\<not> returns_to n s s'"
    "s' = (if next_ticket s = t \<and> \<not> b then s\<lparr>next_ticket := t + 1, t_phase := (t_phase s)(a := Holding t)\<rparr>
           else s\<lparr>t_phase := (t_phase s)(a := Trying (next_ticket s))\<rparr>)"
    using st by (auto simp: ticket_defs split: ticket_phase.splits if_splits)
  show ?thesis
  proof (cases "next_ticket s = t \<and> \<not> b")
    case True
    then have e: "q = []" "next_ticket s = next_serving s" using q t(1) by (auto simp: queued_def)
    have ch: "t_phase s c \<noteq> Checked (t + 1)" for c
      using q t(3) True by (cases "c < n") (auto simp: returns_to_def list_ex_iff t(4) queued_def)
    have "queued n s' [a]" using q t True e ch unfolding queued_def by auto
    then show ?thesis using t True e by (simp add: owner_def)
  next
    case False
    have "queued n (s\<lparr>t_cpus := t_cpus s, t_phase := (t_phase s)(a := Trying (next_ticket s))\<rparr>) q"
      by (rule queued_rephase [OF q]) (use t in simp_all)
    moreover have "a \<notin> set q" using q t(1) by (simp add: queued_def)
    ultimately show ?thesis using False t by (auto simp: owner_def)
  qed
qed

lemma drop_queued:
  assumes q: "queued n s q" and st: "ticket_step core n (Guard_drop a) s = Ok s'" and n: "n < 2 ^ 64"
  shows "\<exists>q'. q = a # q' \<and> queued n s' q' \<and> next_ticket s' = next_ticket s \<and> \<not> holding (t_phase s' a) \<and> owner s q = [a] \<and> owner s' q' = []"
proof -
  obtain t T where t: "t_phase s a = Holding t" "a < n"
    "s' = s\<lparr>next_serving := t + 1, t_cpus := T, t_phase := (t_phase s)(a := TIdle)\<rparr>"
    using st by (auto simp: ticket_defs split: ticket_phase.splits if_splits)
  then obtain q' where q': "q = a # q'" using q by (cases q) (auto simp: queued_def)
  have ph: "ticket_of (t_phase s (q ! i)) = Some (next_serving s + of_nat i)" if "i < length q" for i
    using q that by (auto simp: queued_def)
  have serving: "t = next_serving s" using ph [of 0] q' t(1) by simp
  have nth: "ticket_of (t_phase s (q' ! i)) = Some (t + 1 + of_nat i)" if "i < length q'" for i
    using ph [of "Suc i"] that q' serving by simp
  have out: "a \<notin> set q'" and mem: "\<And>b. b \<noteq> a \<Longrightarrow> b \<in> set q' \<longleftrightarrow> ticket_of (t_phase s b) \<noteq> None"
    using q q' by (auto simp: queued_def)
  have no: "\<not> holding (t_phase s b)" if "b \<noteq> a" for b
    using q q' that by (cases "t_phase s b") (auto simp: queued_def)
  have idle: "\<forall>b \<ge> n. t_phase s b = TIdle" and last: "next_ticket s = next_serving s + of_nat (length q)" "distinct q"
    and ch: "\<forall>b. t_phase s b \<noteq> Checked (next_ticket s)"
    using q q' by (auto simp: queued_def)
  have ph': "t_phase s' = (t_phase s)(a := TIdle)" "next_serving s' = t + 1" "next_ticket s' = next_ticket s" by (simp_all add: t(3))
  have "queued n s' q'"
    unfolding queued_def ph'
  proof (intro conjI)
    show "\<forall>b. b \<in> set q' \<longleftrightarrow> ticket_of (((t_phase s)(a := TIdle)) b) \<noteq> None" using out mem by simp
    show "\<forall>i < length q'. ticket_of (((t_phase s)(a := TIdle)) (q' ! i)) = Some (t + 1 + of_nat i)"
      using nth out nth_mem by fastforce
    show "\<forall>b u. ((t_phase s)(a := TIdle)) b = Holding u \<longrightarrow> q' \<noteq> [] \<and> b = hd q'"
      using no by (metis fun_upd_apply holding.simps(1) ticket_phase.distinct(7))
    show "q' = [] \<or> (\<forall>b. ((t_phase s)(a := TIdle)) b \<noteq> Checked (next_ticket s))" using ch by simp
  qed (use idle last q' serving in \<open>simp_all add: add.assoc\<close>)
  moreover have "owner s' q' = []" using out no by (auto simp: owner_def t(3))
  ultimately show ?thesis using q' t by (auto simp: owner_def)
qed

lemma step_history:
  assumes q: "queued n s q" and st: "ticket_step core n c s = Ok s'" and n: "n < 2 ^ 64"
  shows "\<exists>q1 d. queued n s' q1
    \<and> q @ (if next_ticket s' \<noteq> next_ticket s then [cmd_caller c] else []) = d @ q1
    \<and> owner s q @ (if holding (t_phase s' (cmd_caller c)) \<and> \<not> holding (t_phase s (cmd_caller c)) then [cmd_caller c] else []) = d @ owner s' q1"
proof (cases c)
  case (Lock_take a)
  then show ?thesis using take_queued [OF q _ n, of core a s'] st by (intro exI [of _ "q @ [a]"] exI [of _ "[]"]) auto
next
  case (Lock_spin a)
  then show ?thesis using spin_queued [OF q _ n, of core a s'] st by (intro exI [of _ q] exI [of _ "[]"]) auto
next
  case (Try_load a)
  then show ?thesis using try_queued [OF q st n] by (intro exI [of _ q] exI [of _ "[]"]) auto
next
  case (Try_check a)
  then show ?thesis using try_queued [OF q st n] by (intro exI [of _ q] exI [of _ "[]"]) auto
next
  case (Try_exchange b a)
  have "ticket_step core n (Try_exchange b a) s = Ok s'" using st Try_exchange by simp
  from exchange_queued [OF q this n] show ?thesis
  proof
    assume "next_ticket s' = next_ticket s \<and> queued n s' q \<and> \<not> holding (t_phase s' a) \<and> owner s' q = owner s q"
    then show ?thesis using Try_exchange by (intro exI [of _ q] exI [of _ "[]"]) auto
  next
    assume "next_ticket s' \<noteq> next_ticket s \<and> q = [] \<and> queued n s' [a] \<and> \<not> holding (t_phase s a) \<and> holding (t_phase s' a) \<and> owner s' [a] = [a]"
    then show ?thesis using Try_exchange by (intro exI [of _ "[a]"] exI [of _ "[]"]) (auto simp: owner_def)
  qed
next
  case (Guard_drop a)
  have "ticket_step core n (Guard_drop a) s = Ok s'" using st Guard_drop by simp
  from drop_queued [OF q this n] obtain q' where "q = a # q'" "queued n s' q'" "next_ticket s' = next_ticket s" "\<not> holding (t_phase s' a)"
    "owner s q = [a]" "owner s' q' = []" by blast
  then show ?thesis using Guard_drop by (intro exI [of _ q'] exI [of _ "[a]"]) auto
qed

lemma run_history:
  assumes "queued n s q" "run_steps (ticket_step core n) cs s = Ok s'" "n < 2 ^ 64"
  shows "\<exists>q' d. queued n s' q' \<and> q @ arrivals core n cs s = d @ q' \<and> owner s q @ entries core n cs s = d @ owner s' q'"
  using assms(1,2)
proof (induction cs arbitrary: s q)
  case (Cons c cs)
  obtain s1 where s1: "ticket_step core n c s = Ok s1" "run_steps (ticket_step core n) cs s1 = Ok s'"
    using Cons.prems(2) by auto
  obtain q1 d where 1: "queued n s1 q1"
    "q @ (if next_ticket s1 \<noteq> next_ticket s then [cmd_caller c] else []) = d @ q1"
    "owner s q @ (if holding (t_phase s1 (cmd_caller c)) \<and> \<not> holding (t_phase s (cmd_caller c)) then [cmd_caller c] else []) = d @ owner s1 q1"
    using step_history [OF Cons.prems(1) s1(1) assms(3)] by blast
  obtain q' d' where 2: "queued n s' q'" "q1 @ arrivals core n cs s1 = d' @ q'" "owner s1 q1 @ entries core n cs s1 = d' @ owner s' q'"
    using Cons.IH [OF 1(1) s1(2)] by blast
  have "q @ arrivals core n (c # cs) s = (d @ d') @ q'"
    using arg_cong [OF 1(2), of "\<lambda>x. x @ arrivals core n cs s1"] 2(2) s1(1) by simp
  moreover have "owner s q @ entries core n (c # cs) s = (d @ d') @ owner s' q'"
    using arg_cong [OF 1(3), of "\<lambda>x. x @ entries core n cs s1"] 2(3) s1(1) by simp
  ultimately show ?case using 2(1) by blast
qed auto

lemma queued_new: "queued n (ticket_new T) []"
  by (simp add: queued_def ticket_new_def)

lemma head_enters:
  assumes q: "queued n s (a # q)" and t: "t_phase s a = Waiting t"
  shows "\<exists>s'. ticket_step core n (Lock_spin a) s = Ok s' \<and> holding (t_phase s' a)"
proof -
  have "a < n" by (rule queued_less [OF q]) simp
  moreover have "\<forall>i < length (a # q). ticket_of (t_phase s ((a # q) ! i)) = Some (next_serving s + of_nat i)"
    using q unfolding queued_def by blast
  then have "t = next_serving s" using t by (auto dest: spec [of _ 0])
  ultimately show ?thesis using t by (simp add: ticket_defs returns_to_def)
qed

text \<open>
  C9. The kernel mutex is a fair lock, under every interleaving of the atomic accesses of any number of callers of
  \<open>lock\<close>, \<open>try_lock\<close> and the drop of guards, and although the ticket numbers wrap around: at most one caller has the guard;
  callers get it in the order in which they took their tickets; \<open>is_locked\<close> tells whether any ticket is
  out; and when callers wait while nobody has the guard, one of them enters at its next spin, so no
  ticket is ever lost.
\<close>
theorem ticket_lock_fair_mutex:
  assumes "n < 2 ^ 64" "run_steps (ticket_step core n) cs (ticket_new T) = Ok s"
  shows "(\<forall>a b. holding (t_phase s a) \<and> holding (t_phase s b) \<longrightarrow> a = b)
    \<and> (\<exists>waiting. arrivals core n cs (ticket_new T) = entries core n cs (ticket_new T) @ waiting)
    \<and> (is_locked s \<longleftrightarrow> (\<exists>a. ticket_of (t_phase s a) \<noteq> None))
    \<and> ((\<exists>a t. t_phase s a = Waiting t) \<and> \<not> (\<exists>a. holding (t_phase s a))
       \<longrightarrow> (\<exists>a s'. ticket_step core n (Lock_spin a) s = Ok s' \<and> holding (t_phase s' a)))"
proof -
  obtain q d where q: "queued n s q" "arrivals core n cs (ticket_new T) = d @ q" "entries core n cs (ticket_new T) = d @ owner s q"
    using run_history [OF queued_new assms(2,1)] by (auto simp: owner_def)
  have mem: "\<And>a. a \<in> set q \<longleftrightarrow> ticket_of (t_phase s a) \<noteq> None" using q(1) by (simp add: queued_def)
  have "holding (t_phase s a) \<Longrightarrow> a = hd q" for a using q(1) by (cases "t_phase s a") (auto simp: queued_def)
  then have one: "\<forall>a b. holding (t_phase s a) \<and> holding (t_phase s b) \<longrightarrow> a = b" by blast
  have "\<exists>w. q = owner s q @ w" by (cases q) (auto simp: owner_def)
  then have fifo: "\<exists>w. arrivals core n cs (ticket_new T) = entries core n cs (ticket_new T) @ w" using q(2,3) by auto
  have "is_locked s \<longleftrightarrow> length q \<noteq> 0"
    using q(1) of_nat_small [of "length q"] queued_length [OF q(1)] assms(1) by (auto simp: is_locked_def queued_def)
  then have locked: "is_locked s \<longleftrightarrow> (\<exists>a. ticket_of (t_phase s a) \<noteq> None)" using mem by (cases q) (auto, metis list.set_intros(1))
  have "\<exists>a s'. ticket_step core n (Lock_spin a) s = Ok s' \<and> holding (t_phase s' a)"
    if w: "\<exists>a t. t_phase s a = Waiting t" and h: "\<not> (\<exists>a. holding (t_phase s a))"
  proof -
    obtain b u where "t_phase s b = Waiting u" using w by blast
    then have "b \<in> set q" using mem by simp
    then obtain a q' where a: "q = a # q'" by (cases q) auto
    then obtain t where "t_phase s a = Waiting t" using mem [of a] spec [OF h [simplified], of a] by (cases "t_phase s a") auto
    then show ?thesis using head_enters q(1) a by blast
  qed
  then show ?thesis using one fifo locked by blast
qed

text \<open>Two callers and a \<open>try_lock\<close> that gives up; the second caller waits for the drop of the first.\<close>

definition demo_cpus :: cpus where
  "demo_cpus = (\<lambda>_. \<lparr>noff = 0, interrupt_enable = False, intr = True\<rparr>)"

definition demo_lock_run :: "ticket_cmd list" where
  "demo_lock_run = [Lock_take 0, Lock_take 1, Lock_spin 1, Lock_spin 0, Try_load 2, Guard_drop 0, Try_check 2, Lock_spin 1]"

theorem ticket_lock_fair_mutex_witness:
  "\<exists>s. run_steps (ticket_step id 3) demo_lock_run (ticket_new demo_cpus) = Ok s
     \<and> holding (t_phase s 1) \<and> \<not> holding (t_phase s 0) \<and> is_locked s
     \<and> entries id 3 demo_lock_run (ticket_new demo_cpus) = [0, 1]
     \<and> (\<exists>waiting. arrivals id 3 demo_lock_run (ticket_new demo_cpus) = entries id 3 demo_lock_run (ticket_new demo_cpus) @ waiting)"
proof -
  note d = demo_lock_run_def demo_cpus_def ticket_new_def ticket_defs returns_to_def push_off_def pop_off_def MAX_CORE_NUM_def upt_rec
  obtain s where s: "run_steps (ticket_step id 3) demo_lock_run (ticket_new demo_cpus) = Ok s" "holding (t_phase s 1)" "\<not> holding (t_phase s 0)"
    by (simp add: d)
  moreover have "entries id 3 demo_lock_run (ticket_new demo_cpus) = [0, 1]" by (simp add: d)
  moreover have "ticket_of (t_phase s 1) \<noteq> None" using s(2) by (cases "t_phase s 1") simp_all
  moreover have "(3 :: nat) < 2 ^ 64" by simp
  note f = ticket_lock_fair_mutex [OF this s(1)]
  ultimately show ?thesis using f [THEN conjunct2, THEN conjunct1] f [THEN conjunct2, THEN conjunct2, THEN conjunct1] by blast
qed

section \<open>Interrupts\<close>

definition t_live :: "ticket_mutex \<Rightarrow> nat set" where
  "t_live s = {a. t_phase s a \<noteq> TIdle}"

lemma t_live_set_phase: "t_live (set_phase a p s) = (if p = TIdle then t_live s - {a} else insert a (t_live s))"
  by (auto simp: t_live_def set_phase_def)

lemma t_cpus_set_phase [simp]: "t_cpus (set_phase a p s) = t_cpus s"
  by (simp add: set_phase_def)

lemma t_live_update [simp]:
  "t_live (s\<lparr>t_cpus := T\<rparr>) = t_live s" "t_live (s\<lparr>next_ticket := x\<rparr>) = t_live s" "t_live (s\<lparr>next_serving := x\<rparr>) = t_live s"
  by (simp_all add: t_live_def)

lemma t_live_iff [simp]: "a \<in> t_live s \<longleftrightarrow> t_phase s a \<noteq> TIdle"
  by (simp add: t_live_def)

lemmas atomic_defs = ticket_step_def lock_take_def lock_spin_def try_lock_load_def try_lock_check_def try_lock_exchange_def guard_drop_def

lemma ticket_effect:
  assumes "ticket_step core n c s = Ok s'"
  shows "irq_effect core n (t_live s) (t_cpus s) (t_live s') (t_cpus s')"
  using assms by (cases c) (auto simp: atomic_defs t_live_set_phase insert_absorb split: ticket_phase.splits if_splits)

lemma ticket_panics:
  assumes "ticket_step core n c s = Panic"
  shows "irq_panic core n (t_live s) (t_cpus s)"
  using assms unfolding irq_panic_def
  by (cases c) (auto simp: atomic_defs result_bind_Panic_iff split: ticket_phase.splits if_splits)

interpretation ticket: irq_protocol "ticket_step core n" t_live t_cpus core n for core n
  by unfold_locales (auto intro: ticket_effect ticket_panics)

end
