(* ===== verification/Rw_Lock.thy ===== *)
theory Rw_Lock
  imports Interrupt_Off
begin

text \<open>
  The kernel's readers-writer lock (\<open>drivers/src/sync/rwlock.rs\<close>): a word with the flags \<open>WRITER\<close> and
  \<open>UPGRADED\<close> and, above them, the number of readers. The operations are split at their atomic accesses. A caller stands for one
  guard or one attempt to get one and runs on a core; a thread with several guards is several callers.
\<close>

section \<open>Model\<close>

definition READER :: usize where "READER = push_bit 2 1"
definition UPGRADED :: usize where "UPGRADED = push_bit 1 1"
definition WRITER :: usize where "WRITER = 1"

text \<open>
  \<open>Retreating\<close> is a reader that has to undo its increment; \<open>Down_upgradable\<close> and \<open>Down_writing\<close> are guards in
  \<open>downgrade\<close>, between the increment and the drop of the old guard; \<open>Leaked\<close> has the reference that \<open>leak\<close> returned.
\<close>

datatype rw_phase =
    RIdle | Retreating | Reading | Upgradable | Writing | Down_upgradable | Down_writing | Leaked

record rw_lock =
  rw_word :: usize
  rw_phase :: "nat \<Rightarrow> rw_phase"
  rw_cpus :: cpus

definition rw_new :: "cpus \<Rightarrow> rw_lock" where
  "rw_new T = \<lparr>rw_word = 0, rw_phase = (\<lambda>_. RIdle), rw_cpus = T\<rparr>"

definition to_phase :: "nat \<Rightarrow> rw_phase \<Rightarrow> usize \<Rightarrow> cpus \<Rightarrow> rw_lock \<Rightarrow> rw_lock" where
  "to_phase a p w T s = s\<lparr>rw_word := w, rw_cpus := T, rw_phase := (rw_phase s)(a := p)\<rparr>"

text \<open>A weak exchange may fail although the word is the one expected.\<close>

definition compare_exchange :: "bool \<Rightarrow> bool \<Rightarrow> usize \<Rightarrow> usize \<Rightarrow> bool" where
  "compare_exchange strong spurious w current \<longleftrightarrow> w = current \<and> (strong \<or> \<not> spurious)"

definition try_read :: "(nat \<Rightarrow> nat) \<Rightarrow> nat \<Rightarrow> rw_lock \<Rightarrow> (unit, rw_lock) result" where
  "try_read core a s =
     result_bind (push_off (core a) (rw_cpus s)) (\<lambda>T.
       let value = rw_word s
       in Ok (to_phase a (if value AND (WRITER OR UPGRADED) \<noteq> 0 then Retreating else Reading) (value + READER) T s))"

definition try_read_undo :: "(nat \<Rightarrow> nat) \<Rightarrow> nat \<Rightarrow> rw_lock \<Rightarrow> (unit, rw_lock) result" where
  "try_read_undo core a s =
     result_bind (pop_off (core a) (rw_cpus s)) (\<lambda>T. Ok (to_phase a RIdle (rw_word s - READER) T s))"

definition read_guard_drop :: "(nat \<Rightarrow> nat) \<Rightarrow> nat \<Rightarrow> rw_phase \<Rightarrow> rw_lock \<Rightarrow> (unit, rw_lock) result" where
  "read_guard_drop core a next s =
     result_bind (pop_off (core a) (rw_cpus s)) (\<lambda>T. Ok (to_phase a next (rw_word s - READER) T s))"

definition try_write_internal :: "(nat \<Rightarrow> nat) \<Rightarrow> bool \<Rightarrow> bool \<Rightarrow> nat \<Rightarrow> rw_lock \<Rightarrow> (unit, rw_lock) result" where
  "try_write_internal core strong spurious a s =
     result_bind (push_off (core a) (rw_cpus s)) (\<lambda>T.
       if compare_exchange strong spurious (rw_word s) 0 then Ok (to_phase a Writing WRITER T s)
       else result_bind (pop_off (core a) T) (\<lambda>T. Ok (to_phase a RIdle (rw_word s) T s)))"

definition write_guard_drop :: "(nat \<Rightarrow> nat) \<Rightarrow> nat \<Rightarrow> rw_phase \<Rightarrow> rw_lock \<Rightarrow> (unit, rw_lock) result" where
  "write_guard_drop core a next s =
     result_bind (pop_off (core a) (rw_cpus s)) (\<lambda>T. Ok (to_phase a next (rw_word s AND NOT (WRITER OR UPGRADED)) T s))"

definition try_upgradeable_read :: "(nat \<Rightarrow> nat) \<Rightarrow> nat \<Rightarrow> rw_lock \<Rightarrow> (unit, rw_lock) result" where
  "try_upgradeable_read core a s =
     result_bind (push_off (core a) (rw_cpus s)) (\<lambda>T.
       let w = rw_word s OR UPGRADED
       in if rw_word s AND (WRITER OR UPGRADED) = 0 then Ok (to_phase a Upgradable w T s)
          else result_bind (pop_off (core a) T) (\<lambda>T. Ok (to_phase a RIdle w T s)))"

definition upgradable_guard_drop :: "(nat \<Rightarrow> nat) \<Rightarrow> nat \<Rightarrow> rw_phase \<Rightarrow> rw_lock \<Rightarrow> (unit, rw_lock) result" where
  "upgradable_guard_drop core a next s =
     result_bind (pop_off (core a) (rw_cpus s)) (\<lambda>T. Ok (to_phase a next (rw_word s - UPGRADED) T s))"

definition try_upgrade_internal :: "bool \<Rightarrow> bool \<Rightarrow> nat \<Rightarrow> rw_lock \<Rightarrow> (unit, rw_lock) result" where
  "try_upgrade_internal strong spurious a s =
     Ok (if compare_exchange strong spurious (rw_word s) UPGRADED then to_phase a Writing WRITER (rw_cpus s) s else s)"

text \<open>The two \<open>downgrade\<close> functions: reserve a read guard, then drop the old guard, with its \<open>pop_off\<close>.\<close>

definition upgradable_downgrade :: "nat \<Rightarrow> rw_lock \<Rightarrow> (unit, rw_lock) result" where
  "upgradable_downgrade a s = Ok (to_phase a Down_upgradable (rw_word s + READER) (rw_cpus s) s)"

definition write_downgrade :: "nat \<Rightarrow> rw_lock \<Rightarrow> (unit, rw_lock) result" where
  "write_downgrade a s = Ok (to_phase a Down_writing (rw_word s + READER) (rw_cpus s) s)"

definition downgrade_to_upgradeable :: "nat \<Rightarrow> rw_lock \<Rightarrow> (unit, rw_lock) result" where
  "downgrade_to_upgradeable a s = Ok (to_phase a Upgradable UPGRADED (rw_cpus s) s)"

text \<open>
  The \<open>leak\<close> functions. Those of the read guards copy the reference out of a guard that is then dropped at
  the end of the function.
\<close>

definition read_guard_leak :: "(nat \<Rightarrow> nat) \<Rightarrow> nat \<Rightarrow> rw_lock \<Rightarrow> (unit, rw_lock) result" where
  "read_guard_leak core a s =
     result_bind (pop_off (core a) (rw_cpus s)) (\<lambda>T. read_guard_drop core a Leaked (s\<lparr>rw_cpus := T\<rparr>))"

definition upgradable_guard_leak :: "(nat \<Rightarrow> nat) \<Rightarrow> nat \<Rightarrow> rw_lock \<Rightarrow> (unit, rw_lock) result" where
  "upgradable_guard_leak core a s = upgradable_guard_drop core a Leaked s"

definition write_guard_leak :: "(nat \<Rightarrow> nat) \<Rightarrow> nat \<Rightarrow> rw_lock \<Rightarrow> (unit, rw_lock) result" where
  "write_guard_leak core a s =
     result_bind (pop_off (core a) (rw_cpus s)) (\<lambda>T. Ok (to_phase a Leaked (rw_word s) T s))"

definition reader_count :: "rw_lock \<Rightarrow> usize" where
  "reader_count s = rw_word s div READER + (rw_word s AND UPGRADED) div UPGRADED"

definition writer_count :: "rw_lock \<Rightarrow> usize" where
  "writer_count s = (rw_word s AND WRITER) div WRITER"

definition force_read_decrement :: "rw_lock \<Rightarrow> rw_lock" where
  "force_read_decrement s = s\<lparr>rw_word := rw_word s - READER\<rparr>"

definition force_write_unlock :: "rw_lock \<Rightarrow> rw_lock" where
  "force_write_unlock s = s\<lparr>rw_word := rw_word s AND NOT (WRITER OR UPGRADED)\<rparr>"

text \<open>
  The steps of a caller, each allowed in the phase in which the types of the guards allow it. A strong exchange is
  one of \<open>try_write\<close> and \<open>try_upgrade\<close>, a weak one of \<open>write\<close> and \<open>upgrade\<close>.
\<close>

datatype rw_cmd =
    Try_read | Undo_read | Drop_read | Try_write bool bool | Drop_write | Try_upgradeable | Drop_upgradable
  | Try_upgrade bool bool | Downgrade_upgradable | Finish_upgradable | Downgrade_write | Finish_write
  | To_upgradeable | Leak_read | Leak_upgradable | Leak_write

fun required :: "rw_cmd \<Rightarrow> rw_phase" where
  "required Try_read = RIdle"
| "required Undo_read = Retreating"
| "required Drop_read = Reading"
| "required (Try_write _ _) = RIdle"
| "required Drop_write = Writing"
| "required Try_upgradeable = RIdle"
| "required Drop_upgradable = Upgradable"
| "required (Try_upgrade _ _) = Upgradable"
| "required Downgrade_upgradable = Upgradable"
| "required Finish_upgradable = Down_upgradable"
| "required Downgrade_write = Writing"
| "required Finish_write = Down_writing"
| "required To_upgradeable = Writing"
| "required Leak_read = Reading"
| "required Leak_upgradable = Upgradable"
| "required Leak_write = Writing"

fun rw_atomic :: "(nat \<Rightarrow> nat) \<Rightarrow> rw_cmd \<Rightarrow> nat \<Rightarrow> rw_lock \<Rightarrow> (unit, rw_lock) result" where
  "rw_atomic core Try_read a s = try_read core a s"
| "rw_atomic core Undo_read a s = try_read_undo core a s"
| "rw_atomic core Drop_read a s = read_guard_drop core a RIdle s"
| "rw_atomic core (Try_write strong spurious) a s = try_write_internal core strong spurious a s"
| "rw_atomic core Drop_write a s = write_guard_drop core a RIdle s"
| "rw_atomic core Try_upgradeable a s = try_upgradeable_read core a s"
| "rw_atomic core Drop_upgradable a s = upgradable_guard_drop core a RIdle s"
| "rw_atomic core (Try_upgrade strong spurious) a s = try_upgrade_internal strong spurious a s"
| "rw_atomic core Downgrade_upgradable a s = upgradable_downgrade a s"
| "rw_atomic core Finish_upgradable a s = upgradable_guard_drop core a Reading s"
| "rw_atomic core Downgrade_write a s = write_downgrade a s"
| "rw_atomic core Finish_write a s = write_guard_drop core a Reading s"
| "rw_atomic core To_upgradeable a s = downgrade_to_upgradeable a s"
| "rw_atomic core Leak_read a s = read_guard_leak core a s"
| "rw_atomic core Leak_upgradable a s = upgradable_guard_leak core a s"
| "rw_atomic core Leak_write a s = write_guard_leak core a s"

definition rw_step :: "(nat \<Rightarrow> nat) \<Rightarrow> nat \<Rightarrow> (rw_cmd \<Rightarrow> bool) \<Rightarrow> nat \<times> rw_cmd \<Rightarrow> rw_lock \<Rightarrow> (unit, rw_lock) result" where
  "rw_step core n allowed c s =
     (if fst c < n \<and> allowed (snd c) \<and> rw_phase s (fst c) = required (snd c) then rw_atomic core (snd c) (fst c) s
      else Err ())"

end
