(* ===== verification/Rw_Safety.thy ===== *)
theory Rw_Safety
  imports Rw_Lock
begin

text \<open>
  Mutual exclusion of the readers-writer lock under every interleaving, with the operations for which it holds, and
  what goes wrong with the others.
\<close>

section \<open>The word of the lock\<close>

definition enc :: "nat \<Rightarrow> bool \<Rightarrow> bool \<Rightarrow> usize" where
  "enc c u w = push_bit 2 (of_nat c) OR push_bit 1 (of_bool u) OR of_bool w"

lemma flag_bits: "bit (push_bit 1 (of_bool u) OR of_bool w :: usize) k \<Longrightarrow> k < 2"
proof -
  have "take_bit 2 (push_bit 1 (of_bool u) OR of_bool w :: usize) = push_bit 1 (of_bool u) OR of_bool w"
    by (cases u; cases w) simp_all
  then show "bit (push_bit 1 (of_bool u) OR of_bool w :: usize) k \<Longrightarrow> k < 2" by (metis bit_take_bit_iff)
qed

lemma enc_sum: "enc c u w = 4 * of_nat c + 2 * of_bool u + of_bool w"
proof -
  have "push_bit 2 (of_nat c) OR (push_bit 1 (of_bool u) OR of_bool w) = push_bit 2 (of_nat c) + (push_bit 1 (of_bool u) OR (of_bool w :: usize))"
    by (rule disjunctive_add [symmetric]) (use flag_bits in \<open>fastforce simp: bit_push_bit_iff\<close>)
  moreover have "push_bit 1 (of_bool u) OR of_bool w = 2 * of_bool u + (of_bool w :: usize)"
    by (cases u; cases w) simp_all
  ultimately show ?thesis unfolding enc_def or.assoc by (simp add: push_bit_eq_mult)
qed

lemma enc_unat: "c < 2 ^ 62 \<Longrightarrow> unat (enc c u w) = 4 * c + 2 * of_bool u + of_bool w"
proof -
  assume c: "c < 2 ^ 62"
  have "enc c u w = of_nat (4 * c + 2 * of_bool u + of_bool w)" by (simp add: enc_sum)
  moreover have "4 * c + 2 * of_bool u + of_bool w < 2 ^ 64" using c by (auto simp: of_bool_def)
  ultimately show ?thesis using unat_of_nat [of "4 * c + 2 * of_bool u + of_bool w", where 'a = 64] by simp
qed

lemma enc_inj: "c < 2 ^ 62 \<Longrightarrow> c' < 2 ^ 62 \<Longrightarrow> enc c u w = enc c' u' w' \<longleftrightarrow> c = c' \<and> u = u' \<and> w = w'"
proof -
  assume "c < 2 ^ 62" "c' < 2 ^ 62"
  then have "enc c u w = enc c' u' w' \<longleftrightarrow> 4 * c + 2 * of_bool u + of_bool w = 4 * c' + 2 * of_bool u' + (of_bool w' :: nat)"
    using enc_unat by (metis word_unat_eq_iff)
  also have "\<dots> \<longleftrightarrow> c = c' \<and> u = u' \<and> w = w'" by (auto simp: of_bool_def) presburger+
  finally show ?thesis .
qed

lemma enc_words: "0 = enc 0 False False" "WRITER = enc 0 False True" "UPGRADED = enc 0 True False"
  by (simp_all add: enc_def WRITER_def UPGRADED_def)

lemma enc_read: "enc c u w + READER = enc (Suc c) u w" "enc (Suc c) u w - READER = enc c u w"
  by (simp_all add: enc_sum READER_def)

lemma enc_clear_upgraded: "enc c True w - UPGRADED = enc c False w"
  by (simp add: enc_sum UPGRADED_def)

lemma mask_bits: "WRITER OR UPGRADED = mask 2"
  by (simp add: WRITER_def UPGRADED_def mask_eq_exp_minus_1)

lemma enc_bits: "bit (enc c u w) 0 = w" "bit (enc c u w) (Suc 0) = u" "bit (enc c u w) (Suc (Suc k)) \<longleftrightarrow> bit (push_bit 2 (of_nat c) :: usize) (Suc (Suc k))"
  by (auto simp: enc_def bit_or_iff bit_push_bit_iff bit_1_iff)

lemma enc_flags: "enc c u w AND (WRITER OR UPGRADED) = 0 \<longleftrightarrow> \<not> u \<and> \<not> w"
proof -
  have two: "k < 64" if "k < 2" for k :: nat using that by simp
  have "enc c u w AND mask 2 = 0 \<longleftrightarrow> (\<forall>k < 2. \<not> bit (enc c u w) k)"
    by (simp add: bit_eq_iff bit_and_iff bit_mask_iff) (use two in blast)
  also have "\<dots> \<longleftrightarrow> \<not> u \<and> \<not> w" by (auto simp: numeral_2_eq_2 less_Suc_eq enc_bits)
  finally show ?thesis unfolding mask_bits .
qed

lemma enc_clear: "enc c u w AND NOT (WRITER OR UPGRADED) = enc c False False"
proof -
  have "bit (enc c u w AND NOT (mask 2)) k = bit (enc c False False) k" for k
    by (cases k; cases "k - 1") (auto simp: bit_and_iff bit_not_iff bit_mask_iff enc_bits dest: bit_imp_le_length)
  then show ?thesis unfolding mask_bits by (rule bit_word_eqI)
qed

lemma enc_set_upgraded: "enc c u w OR UPGRADED = enc c True w"
  by (auto simp: enc_def UPGRADED_def or.assoc or.commute or.left_commute)

lemmas enc_simps = enc_read enc_clear_upgraded enc_flags enc_clear enc_set_upgraded

section \<open>The invariant\<close>

definition counted :: "rw_phase \<Rightarrow> bool" where
  "counted p \<longleftrightarrow> p = Retreating \<or> p = Reading \<or> p = Down_upgradable \<or> p = Down_writing"

definition writer :: "rw_phase \<Rightarrow> bool" where
  "writer p \<longleftrightarrow> p = Writing \<or> p = Down_writing"

definition upgrader :: "rw_phase \<Rightarrow> bool" where
  "upgrader p \<longleftrightarrow> p = Upgradable \<or> p = Down_upgradable"

lemmas phase_defs = counted_def writer_def upgrader_def

definition tally :: "nat \<Rightarrow> (nat \<Rightarrow> rw_phase) \<Rightarrow> nat" where
  "tally n f = card {a. a < n \<and> counted (f a)}"

lemma tally_upd:
  assumes "a < n"
  shows "tally n (f(a := p)) + of_bool (counted (f a)) = tally n f + of_bool (counted p)"
proof -
  let ?R = "{b. b < n \<and> b \<noteq> a \<and> counted (f b)}"
  have *: "tally n g = card ?R + of_bool (counted (g a))" if "\<And>b. b \<noteq> a \<Longrightarrow> g b = f b" for g
  proof -
    have "{b. b < n \<and> counted (g b)} = (if counted (g a) then insert a ?R else ?R)"
      using assms by (auto simp: that) (metis that)+
    then show ?thesis by (simp add: tally_def)
  qed
  show ?thesis using * [of f] * [of "f(a := p)"] by simp
qed

lemma tally_le: "tally n f \<le> n"
  using card_mono [of "{..<n}" "{a. a < n \<and> counted (f a)}"] by (auto simp: tally_def)

lemma tally_0: "tally n f = 0 \<Longrightarrow> a < n \<Longrightarrow> \<not> counted (f a)"
  by (auto simp: tally_def)

text \<open>
  The word counts the readers, also those in retreat; \<open>WRITER\<close> is set exactly while there is a writer; \<open>UPGRADED\<close> is set
  while there is an upgradable guard, and may also be set by a failed attempt while there is a writer. A writer is
  alone with readers in retreat.
\<close>

definition exclusive :: "(nat \<Rightarrow> rw_phase) \<Rightarrow> bool" where
  "exclusive f \<longleftrightarrow>
     (\<forall>a b. writer (f a) \<and> a \<noteq> b \<longrightarrow> f b = RIdle \<or> f b = Retreating)
     \<and> (\<forall>a b. upgrader (f a) \<and> a \<noteq> b \<longrightarrow> \<not> upgrader (f b))"

definition agrees :: "(nat \<Rightarrow> rw_phase) \<Rightarrow> bool \<Rightarrow> bool \<Rightarrow> bool" where
  "agrees f u w \<longleftrightarrow>
     (w \<longleftrightarrow> (\<exists>a. writer (f a))) \<and> (u \<longrightarrow> (\<exists>a. writer (f a) \<or> upgrader (f a))) \<and> ((\<exists>a. upgrader (f a)) \<longrightarrow> u)"

text \<open>The commands for which exclusion holds: all but \<open>downgrade_to_upgradeable\<close> and the \<open>leak\<close> functions.\<close>

fun guarded :: "rw_cmd \<Rightarrow> bool" where
  "guarded To_upgradeable = False" | "guarded Leak_read = False" | "guarded Leak_upgradable = False" | "guarded Leak_write = False"
| "guarded _ = True"

lemma tally_same: "a < n \<Longrightarrow> counted p = counted (f a) \<Longrightarrow> tally n (f(a := p)) = tally n f"
  using tally_upd [of a n f p] by simp

lemma tally_in: "a < n \<Longrightarrow> counted p \<Longrightarrow> \<not> counted (f a) \<Longrightarrow> tally n (f(a := p)) = Suc (tally n f)"
  using tally_upd [of a n f p] by simp

lemma tally_out: "a < n \<Longrightarrow> \<not> counted p \<Longrightarrow> counted (f a) \<Longrightarrow> tally n f = Suc (tally n (f(a := p)))"
  using tally_upd [of a n f p] by simp

text \<open>What the phases of the callers become, for each kind of step, seen from the caller that takes it.\<close>

definition fits :: "(nat \<Rightarrow> rw_phase) \<Rightarrow> bool \<Rightarrow> bool \<Rightarrow> bool" where
  "fits f u w \<longleftrightarrow> exclusive f \<and> agrees f u w"

definition other :: "nat \<Rightarrow> (rw_phase \<Rightarrow> bool) \<Rightarrow> (nat \<Rightarrow> rw_phase) \<Rightarrow> bool" where
  "other a P f \<longleftrightarrow> (\<exists>b. b \<noteq> a \<and> P (f b))"

definition others_exclusive :: "nat \<Rightarrow> (nat \<Rightarrow> rw_phase) \<Rightarrow> bool" where
  "others_exclusive a f \<longleftrightarrow>
     (\<forall>b c. b \<noteq> a \<and> c \<noteq> a \<and> writer (f b) \<and> b \<noteq> c \<longrightarrow> f c = RIdle \<or> f c = Retreating)
     \<and> (\<forall>b c. b \<noteq> a \<and> c \<noteq> a \<and> upgrader (f b) \<and> b \<noteq> c \<longrightarrow> \<not> upgrader (f c))"

definition busy :: "rw_phase \<Rightarrow> bool" where
  "busy p \<longleftrightarrow> p \<noteq> RIdle \<and> p \<noteq> Retreating"

lemma other_upd [simp]: "other a P (f(a := p)) = other a P f"
  by (auto simp: other_def)

lemma others_exclusive_upd [simp]: "others_exclusive a (f(a := p)) = others_exclusive a f"
  by (simp add: others_exclusive_def) blast

lemma ex_phase: "(\<exists>b. P (f b)) \<longleftrightarrow> P (f a) \<or> other a P f"
  unfolding other_def by metis

lemma exclusive_at:
  "exclusive f \<longleftrightarrow> others_exclusive a f \<and> (writer (f a) \<longrightarrow> \<not> other a busy f) \<and> (other a writer f \<longrightarrow> \<not> busy (f a))
     \<and> (upgrader (f a) \<longrightarrow> \<not> other a upgrader f)"
proof
  assume "exclusive f"
  then have w: "\<And>b c. writer (f b) \<Longrightarrow> b \<noteq> c \<Longrightarrow> \<not> busy (f c)" and u: "\<And>b c. upgrader (f b) \<Longrightarrow> b \<noteq> c \<Longrightarrow> \<not> upgrader (f c)"
    unfolding exclusive_def busy_def by blast+
  have "others_exclusive a f" using w u unfolding others_exclusive_def busy_def by blast
  then show "others_exclusive a f \<and> (writer (f a) \<longrightarrow> \<not> other a busy f) \<and> (other a writer f \<longrightarrow> \<not> busy (f a))
     \<and> (upgrader (f a) \<longrightarrow> \<not> other a upgrader f)"
    using w u unfolding other_def by metis
next
  assume r: "others_exclusive a f \<and> (writer (f a) \<longrightarrow> \<not> other a busy f) \<and> (other a writer f \<longrightarrow> \<not> busy (f a))
     \<and> (upgrader (f a) \<longrightarrow> \<not> other a upgrader f)"
  then have o: "others_exclusive a f" and m: "writer (f a) \<Longrightarrow> \<not> other a busy f" "other a writer f \<Longrightarrow> \<not> busy (f a)"
    "upgrader (f a) \<Longrightarrow> \<not> other a upgrader f" by blast+
  have other: "other a P f" if "P (f b)" "b \<noteq> a" for b P using that unfolding other_def by blast
  have "f c = RIdle \<or> f c = Retreating" if "writer (f b)" "b \<noteq> c" for b c
  proof (cases "b = a \<or> c = a")
    case True
    then have "\<not> busy (f c)" using m(1,2) other [of busy c] other [of writer b] that by metis
    then show ?thesis by (simp add: busy_def)
  qed (use o that in \<open>unfold others_exclusive_def, blast\<close>)
  moreover have "\<not> upgrader (f c)" if "upgrader (f b)" "b \<noteq> c" for b c
  proof (cases "b = a \<or> c = a")
    case True
    then show ?thesis using m(3) other [of upgrader b] other [of upgrader c] that by metis
  qed (use o that in \<open>unfold others_exclusive_def, blast\<close>)
  ultimately show "exclusive f" unfolding exclusive_def by blast
qed

lemma other_busy: "other a writer f \<Longrightarrow> other a busy f" "other a upgrader f \<Longrightarrow> other a busy f"
  by (auto simp: other_def busy_def phase_defs)

lemma fits_at:
  "fits f u w \<longleftrightarrow> others_exclusive a f \<and> (writer (f a) \<longrightarrow> \<not> other a busy f) \<and> (other a writer f \<longrightarrow> \<not> busy (f a))
     \<and> (upgrader (f a) \<longrightarrow> \<not> other a upgrader f)
     \<and> (w \<longleftrightarrow> writer (f a) \<or> other a writer f)
     \<and> (u \<longrightarrow> writer (f a) \<or> other a writer f \<or> upgrader (f a) \<or> other a upgrader f)
     \<and> (upgrader (f a) \<or> other a upgrader f \<longrightarrow> u)"
  unfolding fits_def agrees_def exclusive_at [of f a] ex_disj_distrib ex_phase [of writer f a] ex_phase [of upgrader f a] by blast

lemma fits_read: "fits f u w \<Longrightarrow> f a = RIdle \<Longrightarrow> fits (f(a := if u \<or> w then Retreating else Reading)) u w"
  using other_busy [of a f] unfolding fits_at [of _ _ _ a] fun_upd_same other_upd others_exclusive_upd
  by (cases "f a"; simp add: phase_defs busy_def; blast)

lemma fits_leave: "fits f u w \<Longrightarrow> f a = Retreating \<or> f a = Reading \<Longrightarrow> fits (f(a := RIdle)) u w"
  using other_busy [of a f] unfolding fits_at [of _ _ _ a] fun_upd_same other_upd others_exclusive_upd
  by (cases "f a"; simp add: phase_defs busy_def; blast)

lemma fits_write: "fits f u w \<Longrightarrow> f a = RIdle \<or> f a = Upgradable \<Longrightarrow> \<not> other a busy f \<Longrightarrow> fits (f(a := Writing)) False True"
  using other_busy [of a f] unfolding fits_at [of _ _ _ a] fun_upd_same other_upd others_exclusive_upd
  by (cases "f a"; simp add: phase_defs busy_def; blast)

lemma fits_drop_write: "fits f u w \<Longrightarrow> writer (f a) \<Longrightarrow> p = RIdle \<or> p = Reading \<Longrightarrow> fits (f(a := p)) False False"
  using other_busy [of a f] unfolding fits_at [of _ _ _ a] fun_upd_same other_upd others_exclusive_upd
  by (cases "f a"; simp add: phase_defs busy_def; blast)

lemma fits_upgradable: "fits f u w \<Longrightarrow> f a = RIdle \<Longrightarrow> \<not> u \<Longrightarrow> \<not> w \<Longrightarrow> fits (f(a := Upgradable)) True False"
  using other_busy [of a f] unfolding fits_at [of _ _ _ a] fun_upd_same other_upd others_exclusive_upd
  by (cases "f a"; simp add: phase_defs busy_def; blast)

lemma fits_flag: "fits f u w \<Longrightarrow> u \<or> w \<Longrightarrow> fits f True w"
  using other_busy [of a f] unfolding fits_at [of _ _ _ a] fun_upd_same other_upd others_exclusive_upd
  by (cases "f a"; simp add: phase_defs busy_def; blast)

lemma fits_drop_upgradable: "fits f u w \<Longrightarrow> upgrader (f a) \<Longrightarrow> p = RIdle \<or> p = Reading \<Longrightarrow> fits (f(a := p)) False False"
  using other_busy [of a f] unfolding fits_at [of _ _ _ a] fun_upd_same other_upd others_exclusive_upd
  by (cases "f a"; simp add: phase_defs busy_def; blast)

lemma fits_down_upgradable: "fits f u w \<Longrightarrow> f a = Upgradable \<Longrightarrow> fits (f(a := Down_upgradable)) u w"
  using other_busy [of a f] unfolding fits_at [of _ _ _ a] fun_upd_same other_upd others_exclusive_upd
  by (cases "f a"; simp add: phase_defs busy_def; blast)

lemma fits_down_writing: "fits f u w \<Longrightarrow> f a = Writing \<Longrightarrow> fits (f(a := Down_writing)) u w"
  using other_busy [of a f] unfolding fits_at [of _ _ _ a] fun_upd_same other_upd others_exclusive_upd
  by (cases "f a"; simp add: phase_defs busy_def; blast)

lemma fits_upgrader: "fits f u w \<Longrightarrow> upgrader (f a) \<Longrightarrow> u \<and> \<not> w"
  using other_busy [of a f] unfolding fits_at [of _ _ _ a] by (cases "f a"; simp add: phase_defs busy_def; blast)

definition rw_inv :: "nat \<Rightarrow> rw_lock \<Rightarrow> bool" where
  "rw_inv n s \<longleftrightarrow> (\<forall>a \<ge> n. rw_phase s a = RIdle) \<and> (\<forall>a. rw_phase s a \<noteq> Leaked)
     \<and> (\<exists>u w. rw_word s = enc (tally n (rw_phase s)) u w \<and> fits (rw_phase s) u w)"

lemma rw_invI:
  assumes "rw_inv n s" "a < n" "p \<noteq> Leaked" "x = enc (tally n ((rw_phase s)(a := p))) u w" "fits ((rw_phase s)(a := p)) u w"
  shows "rw_inv n (to_phase a p x T s)"
  using assms unfolding rw_inv_def to_phase_def by auto

text \<open>A word without readers leaves only callers in the phases of the flags.\<close>

lemma no_other_busy:
  assumes "rw_inv n s" "rw_word s = enc 0 u False" "n < 2 ^ 62" "rw_phase s a = RIdle \<and> \<not> u \<or> rw_phase s a = Upgradable"
  shows "\<not> other a busy (rw_phase s)"
proof -
  let ?f = "rw_phase s"
  obtain u' w' where 1: "rw_word s = enc (tally n ?f) u' w'" "fits ?f u' w'" using assms(1) unfolding rw_inv_def by blast
  have "tally n ?f < 2 ^ 62" using tally_le [of n ?f] assms(3) by simp
  then have z: "tally n ?f = 0" "u' = u" "\<not> w'" using 1(1) assms(2) enc_inj [of "tally n ?f" 0 u' w' u False] by auto
  have c: "\<not> counted (?f b)" for b
    using tally_0 [OF z(1), of b] assms(1) by (cases "b < n") (auto simp: rw_inv_def counted_def)
  have "\<not> other a writer ?f \<and> \<not> other a upgrader ?f"
    using 1(2) z(2,3) assms(4) unfolding fits_at [of _ _ _ a] by (auto simp: phase_defs)
  then have "\<not> writer (?f b) \<and> \<not> upgrader (?f b)" if "b \<noteq> a" for b using that unfolding other_def by blast
  then have "\<not> busy (?f b)" if "b \<noteq> a" for b
    using that c [of b] assms(1) by (cases "?f b") (auto simp: phase_defs busy_def rw_inv_def)
  then show ?thesis by (auto simp: other_def)
qed

lemma rw_inv_obtain:
  assumes "rw_inv n s"
  obtains u w where "rw_word s = enc (tally n (rw_phase s)) u w" "fits (rw_phase s) u w"
  using assms unfolding rw_inv_def by blast

lemma inv_enter:
  assumes "rw_inv n s" "a < n" "rw_phase s a = RIdle"
  shows "rw_inv n (to_phase a (if rw_word s AND (WRITER OR UPGRADED) \<noteq> 0 then Retreating else Reading) (rw_word s + READER) T s)"
proof -
  obtain u w where x: "rw_word s = enc (tally n (rw_phase s)) u w" "fits (rw_phase s) u w" by (rule rw_inv_obtain [OF assms(1)])
  have p: "(if rw_word s AND (WRITER OR UPGRADED) \<noteq> 0 then Retreating else Reading) = (if u \<or> w then Retreating else Reading)"
    using x(1) by (simp add: enc_flags)
  show ?thesis unfolding p
    by (rule rw_invI [OF assms(1,2) _ _ fits_read [OF x(2)]]) (use x(1) assms in \<open>auto simp: tally_in enc_read counted_def\<close>)
qed

lemma inv_leave:
  assumes "rw_inv n s" "a < n" "rw_phase s a = Retreating \<or> rw_phase s a = Reading"
  shows "rw_inv n (to_phase a RIdle (rw_word s - READER) T s)"
proof -
  obtain u w where x: "rw_word s = enc (tally n (rw_phase s)) u w" "fits (rw_phase s) u w" by (rule rw_inv_obtain [OF assms(1)])
  have "tally n (rw_phase s) = Suc (tally n ((rw_phase s)(a := RIdle)))"
    by (rule tally_out) (use assms in \<open>auto simp: counted_def\<close>)
  then show ?thesis
    by (intro rw_invI [OF assms(1,2) _ _ fits_leave [OF x(2)]]) (use x(1) assms in \<open>auto simp: enc_read\<close>)
qed

lemma inv_write:
  assumes "rw_inv n s" "a < n" "n < 2 ^ 62" "rw_word s = enc 0 u False" "rw_phase s a = RIdle \<and> \<not> u \<or> rw_phase s a = Upgradable"
  shows "rw_inv n (to_phase a Writing WRITER T s)"
proof -
  obtain u' w where x: "rw_word s = enc (tally n (rw_phase s)) u' w" "fits (rw_phase s) u' w" by (rule rw_inv_obtain [OF assms(1)])
  have "tally n (rw_phase s) = 0"
    using x(1) assms(3,4) enc_inj [of "tally n (rw_phase s)" 0 u' w u False] tally_le [of n "rw_phase s"] by simp
  moreover have "\<not> other a busy (rw_phase s)" by (rule no_other_busy [OF assms(1,4,3,5)])
  ultimately show ?thesis
    by (intro rw_invI [OF assms(1,2) _ _ fits_write [OF x(2)]]) (use assms in \<open>auto simp: tally_same enc_words(2) counted_def\<close>)
qed

lemma inv_drop_write:
  assumes "rw_inv n s" "a < n" "rw_phase s a = Writing \<and> p = RIdle \<or> rw_phase s a = Down_writing \<and> p = Reading"
  shows "rw_inv n (to_phase a p (rw_word s AND NOT (WRITER OR UPGRADED)) T s)"
proof -
  obtain u w where x: "rw_word s = enc (tally n (rw_phase s)) u w" "fits (rw_phase s) u w" by (rule rw_inv_obtain [OF assms(1)])
  have clear: "rw_word s AND NOT (WRITER OR UPGRADED) = enc (tally n (rw_phase s)) False False" unfolding x(1) by (rule enc_clear)
  show ?thesis unfolding clear
    by (rule rw_invI [OF assms(1,2) _ _ fits_drop_write [OF x(2)]]) (use assms in \<open>auto simp: tally_same counted_def writer_def\<close>)
qed

lemma inv_upgradable:
  assumes "rw_inv n s" "a < n" "rw_phase s a = RIdle"
  shows "rw_inv n (to_phase a (if rw_word s AND (WRITER OR UPGRADED) = 0 then Upgradable else RIdle) (rw_word s OR UPGRADED) T s)"
proof -
  obtain u w where x: "rw_word s = enc (tally n (rw_phase s)) u w" "fits (rw_phase s) u w" by (rule rw_inv_obtain [OF assms(1)])
  have set: "rw_word s OR UPGRADED = enc (tally n (rw_phase s)) True w" unfolding x(1) by (rule enc_set_upgraded)
  have free: "rw_word s AND (WRITER OR UPGRADED) = 0 \<longleftrightarrow> \<not> u \<and> \<not> w" unfolding x(1) by (rule enc_flags)
  have "fits ((rw_phase s)(a := if \<not> u \<and> \<not> w then Upgradable else RIdle)) True w"
    using fits_upgradable [OF x(2) assms(3)] fits_flag [OF x(2)] assms(3) by (auto simp: fun_upd_idem)
  then show ?thesis unfolding set free
    by (intro rw_invI [OF assms(1,2)]) (use assms(2,3) in \<open>auto simp: tally_same counted_def\<close>)
qed

lemma inv_drop_upgradable:
  assumes "rw_inv n s" "a < n" "rw_phase s a = Upgradable \<and> p = RIdle \<or> rw_phase s a = Down_upgradable \<and> p = Reading"
  shows "rw_inv n (to_phase a p (rw_word s - UPGRADED) T s)"
proof -
  obtain u w where x: "rw_word s = enc (tally n (rw_phase s)) u w" "fits (rw_phase s) u w" by (rule rw_inv_obtain [OF assms(1)])
  have "u" "\<not> w" using fits_upgrader [OF x(2), of a] assms(3) by (auto simp: upgrader_def)
  then have clear: "rw_word s - UPGRADED = enc (tally n (rw_phase s)) False False" using x(1) by (simp add: enc_clear_upgraded)
  show ?thesis unfolding clear
    by (rule rw_invI [OF assms(1,2) _ _ fits_drop_upgradable [OF x(2)]]) (use assms in \<open>auto simp: tally_same counted_def upgrader_def\<close>)
qed

lemma inv_downgrade:
  assumes "rw_inv n s" "a < n" "rw_phase s a = Upgradable \<and> p = Down_upgradable \<or> rw_phase s a = Writing \<and> p = Down_writing"
  shows "rw_inv n (to_phase a p (rw_word s + READER) T s)"
proof -
  obtain u w where x: "rw_word s = enc (tally n (rw_phase s)) u w" "fits (rw_phase s) u w" by (rule rw_inv_obtain [OF assms(1)])
  have "fits ((rw_phase s)(a := p)) u w" using assms(3) fits_down_upgradable [OF x(2)] fits_down_writing [OF x(2)] by auto
  then show ?thesis by (intro rw_invI [OF assms(1,2)]) (use x(1) assms in \<open>auto simp: tally_in enc_read counted_def\<close>)
qed

lemmas rw_defs = try_read_def try_read_undo_def read_guard_drop_def try_write_internal_def write_guard_drop_def try_upgradeable_read_def
  upgradable_guard_drop_def try_upgrade_internal_def upgradable_downgrade_def write_downgrade_def compare_exchange_def

lemma to_phase_eq: "to_phase a p x T s = to_phase a q y U s \<longleftrightarrow> p = q \<and> x = y \<and> T = U"
  by (cases s) (auto simp: to_phase_def dest: fun_upd_eqD)

lemma inv_idle: "rw_inv n s \<Longrightarrow> rw_phase s a = RIdle \<Longrightarrow> rw_inv n (to_phase a RIdle (rw_word s) T s)"
  by (simp add: rw_inv_def to_phase_def fun_upd_idem)

lemma rw_step_inv:
  assumes inv: "rw_inv n s" and st: "rw_step core n guarded (a, c) s = Ok s'" and n: "n < 2 ^ 62"
  shows "rw_inv n s'"
proof -
  have a: "a < n" "rw_phase s a = required c" "guarded c" and at: "rw_atomic core c a s = Ok s'"
    using st by (auto simp: rw_step_def split: if_splits)
  have up: "rw_inv n (to_phase a Upgradable (rw_word s OR UPGRADED) T s)"
    if "rw_phase s a = RIdle" "rw_word s AND (WRITER OR UPGRADED) = 0" for T using inv_upgradable [OF inv a(1) that(1)] that(2) by simp
  have no_up: "rw_inv n (to_phase a RIdle (rw_word s OR UPGRADED) T s)"
    if "rw_phase s a = RIdle" "rw_word s AND (WRITER OR UPGRADED) \<noteq> 0" for T using inv_upgradable [OF inv a(1) that(1)] that(2) by simp
  have wr: "rw_inv n (to_phase a Writing WRITER T s)" if "rw_word s = 0" "rw_phase s a = RIdle" for T
    using inv_write [OF inv a(1) n, of False] that enc_words(1) by simp
  have wu: "rw_inv n (to_phase a Writing WRITER T s)" if "rw_word s = UPGRADED" "rw_phase s a = Upgradable" for T
    using inv_write [OF inv a(1) n, of True] that enc_words(3) by simp
  have en: "rw_inv n (to_phase a Reading (rw_word s + READER) T s)"
    if "rw_phase s a = RIdle" "rw_word s AND (WRITER OR UPGRADED) = 0" for T using inv_enter [OF inv a(1) that(1)] that(2) by simp
  have no_en: "rw_inv n (to_phase a Retreating (rw_word s + READER) T s)"
    if "rw_phase s a = RIdle" "rw_word s AND (WRITER OR UPGRADED) \<noteq> 0" for T using inv_enter [OF inv a(1) that(1)] that(2) by simp
  note rules = en no_en inv_leave [OF inv a(1)] inv_drop_write [OF inv a(1)] inv_drop_upgradable [OF inv a(1)]
    inv_downgrade [OF inv a(1)] inv_idle [OF inv] up no_up wr wu to_phase_eq
  show ?thesis
    using at a(2,3) inv by (cases c) (auto simp: rw_defs rules simp del: bit.de_Morgan_disj split: if_splits)
qed

section \<open>Exclusion\<close>

lemma rw_inv_new: "rw_inv n (rw_new T)"
proof -
  have "tally n (\<lambda>_. RIdle) = 0" by (simp add: tally_def counted_def)
  moreover have "fits (\<lambda>_. RIdle) False False" by (simp add: fits_def exclusive_def agrees_def phase_defs)
  ultimately show ?thesis using enc_words(1) by (auto simp: rw_inv_def rw_new_def intro!: exI [of _ False])
qed

lemma rw_run_inv:
  assumes "n < 2 ^ 62" "run_steps (rw_step core n guarded) cs (rw_new T) = Ok s"
  shows "rw_inv n s"
proof (rule run_steps_inv [where I = "rw_inv n", OF _ _ assms(2)])
  show "rw_inv n s'" if "rw_inv n s" "rw_step core n guarded c s = Ok s'" for c s s'
    using rw_step_inv [OF that(1) _ assms(1), of core "fst c" "snd c" s'] that(2) by simp
qed (rule rw_inv_new)


text \<open>A reader has to retreat from a writer and comes back; a third caller gets an upgradable guard beside it and upgrades it when the
  reader has left.\<close>

definition demo_rw_run :: "(nat \<times> rw_cmd) list" where
  "demo_rw_run = [(0, Try_write True False), (1, Try_read), (0, Drop_write), (1, Undo_read), (1, Try_read), (2, Try_upgradeable),
     (1, Drop_read), (2, Try_upgrade True False)]"

definition demo_cores :: cpus where
  "demo_cores = (\<lambda>_. \<lparr>noff = 0, interrupt_enable = False, intr = True\<rparr>)"

lemmas demo_rw_defs = demo_cores_def rw_new_def rw_step_def rw_defs to_phase_def push_off_def pop_off_def MAX_CORE_NUM_def READER_def
  UPGRADED_def WRITER_def downgrade_to_upgradeable_def


end
