(* ===== verification/Lock_Interrupts.thy ===== *)
theory Lock_Interrupts
  imports Ticket_Lock Rw_Safety
begin

text \<open>
  Both locks of the kernel against the contract of the interrupt-disabled sections, and the operations of the
  readers-writer lock that break it or that break exclusion.
\<close>

section \<open>The readers-writer lock follows the contract\<close>

definition rw_live :: "rw_lock \<Rightarrow> nat set" where
  "rw_live s = {a. rw_phase s a \<noteq> RIdle}"

text \<open>All commands but \<open>downgrade\<close> and \<open>leak\<close>.\<close>

fun balanced :: "rw_cmd \<Rightarrow> bool" where
  "balanced Downgrade_upgradable = False" | "balanced Finish_upgradable = False" | "balanced Downgrade_write = False"
| "balanced Finish_write = False" | "balanced Leak_read = False" | "balanced Leak_upgradable = False" | "balanced Leak_write = False"
| "balanced _ = True"

lemma rw_live_to_phase: "rw_live (to_phase a p x T s) = (if p = RIdle then rw_live s - {a} else insert a (rw_live s))"
  by (auto simp: rw_live_def to_phase_def)

lemma rw_cpus_to_phase [simp]: "rw_cpus (to_phase a p x T s) = T"
  by (simp add: to_phase_def)

lemma rw_live_iff [simp]: "a \<in> rw_live s \<longleftrightarrow> rw_phase s a \<noteq> RIdle"
  by (simp add: rw_live_def)

lemmas rw_all_defs = rw_defs downgrade_to_upgradeable_def

lemma rw_effect:
  assumes "rw_step core n balanced c s = Ok s'"
  shows "irq_effect core n (rw_live s) (rw_cpus s) (rw_live s') (rw_cpus s')"
proof -
  obtain a k where c: "c = (a, k)" by (cases c)
  have a: "a < n" "rw_phase s a = required k" "balanced k" and at: "rw_atomic core k a s = Ok s'"
    using assms by (auto simp: c rw_step_def split: if_splits)
  have brief: "irq_effect core n (rw_live s) (rw_cpus s) (rw_live s) T'"
    if "rw_phase s a = RIdle" "push_off (core a) (rw_cpus s) = Ok T" "pop_off (core a) T = Ok T'" for T T'
    using irq_brief [of a "rw_live s" n core "rw_cpus s" T T'] a(1) that by simp
  show ?thesis
    using at a by (cases k)
      (auto simp: rw_all_defs rw_live_to_phase insert_absorb brief simp del: bit.de_Morgan_disj split: if_splits)
qed

lemma rw_panics:
  assumes "rw_step core n balanced c s = Panic"
  shows "irq_panic core n (rw_live s) (rw_cpus s)"
proof -
  obtain a k where c: "c = (a, k)" by (cases c)
  have a: "a < n" "rw_phase s a = required k" "balanced k" and at: "rw_atomic core k a s = Panic"
    using assms by (auto simp: c rw_step_def split: if_splits)
  then show ?thesis
    unfolding irq_panic_def by (cases k) (auto simp: rw_all_defs result_bind_Panic_iff split: if_splits)
qed

interpretation rw: irq_protocol "rw_step core n balanced" rw_live rw_cpus core n for core n
  by unfold_locales (auto intro: rw_effect rw_panics)

section \<open>Properties\<close>



text \<open>
  C37. \<open>downgrade\<close> of a write guard gives up the interrupt-disabled section together with the old guard, although the
  read guard that it returns will close it again: when the guard is the only one on its core, interrupts come back on
  (if they were on before) while the lock is still held, and dropping the read guard panics.
\<close>
theorem downgrade_loses_interrupt_section:
  assumes "rw_phase s a = Writing" "a < n" "core a < MAX_CORE_NUM" "noff (rw_cpus s (core a)) = 1" "\<not> intr (rw_cpus s (core a))"
  shows "\<exists>s'. run_steps (rw_step core n (\<lambda>_. True)) [(a, Downgrade_write), (a, Finish_write)] s = Ok s'
    \<and> rw_phase s' a = Reading \<and> intr (rw_cpus s' (core a)) = interrupt_enable (rw_cpus s (core a))
    \<and> rw_step core n (\<lambda>_. True) (a, Drop_read) s' = Panic"
  using assms by (simp add: rw_step_def rw_defs to_phase_def pop_off_def)

theorem downgrade_loses_interrupt_section_witness:
  "\<exists>s s'. run_steps (rw_step id 1 (\<lambda>_. True)) [(0, Try_write True False)] (rw_new demo_cores) = Ok s
     \<and> run_steps (rw_step id 1 (\<lambda>_. True)) [(0, Downgrade_write), (0, Finish_write)] s = Ok s'
     \<and> rw_phase s' 0 = Reading \<and> intr (rw_cpus s' 0) \<and> rw_step id 1 (\<lambda>_. True) (0, Drop_read) s' = Panic"
proof -
  obtain s where s: "run_steps (rw_step id 1 (\<lambda>_. True)) [(0, Try_write True False)] (rw_new demo_cores) = Ok s"
    "rw_phase s 0 = Writing" "noff (rw_cpus s (id 0)) = 1" "\<not> intr (rw_cpus s (id 0))" "interrupt_enable (rw_cpus s 0)"
    by (simp add: demo_rw_defs)
  have "id (0 :: nat) < MAX_CORE_NUM" by (simp add: MAX_CORE_NUM_def)
  from downgrade_loses_interrupt_section [of s 0 1 id, OF s(2) zero_less_one this s(3,4)] show ?thesis using s(1,5) by auto
qed


end
