(* ===== verification/Vmo_Paged.thy ===== *)
theory Vmo_Paged
  imports Vmar
begin

text \<open>
  The paged VM object (\<open>zircon-object/src/vm/vmo/paged.rs\<close>): a tree of nodes whose leaves are the objects that handles
  name and whose inner, hidden, nodes hold the pages that two clones still share. The objects are cells of a heap,
  named by numbers; byte quantities are numbers below 2^64, with the wrap-around of the release build.
  Physical frames are names too: the frame allocator is a supply of names that are not in use, and a
  frame that is given back is not handed out again.
\<close>

declare Let_def [simp]

section \<open>State\<close>

datatype page_tag = Owned | LeftSplit | RightSplit

datatype vmo_type = Origin | Snapshot | Hidden nat nat

datatype cache_policy = Cached | Uncached | UncachedDevice | WriteCombining

record page_state =
  ps_frame :: nat
  ps_tag :: page_tag
  ps_pin :: u8

record paged =
  pv_owner :: nat
  pv_type :: vmo_type
  pv_parent :: "nat option"
  pv_offset :: nat
  pv_limit :: nat
  pv_size :: nat
  pv_frames :: "nat \<Rightarrow> page_state option"
  pv_mappings :: "nat list"
  pv_cache :: cache_policy
  pv_contiguous :: bool
  pv_pin_count :: nat

text \<open>A change that the object asks a mapping for: pages, from the first and how many.\<close>

record mapping_change =
  mc_mapping :: nat
  mc_start :: nat
  mc_count :: nat
  mc_op :: range_change_op

record vmo_heap =
  vh_vmos :: "nat \<Rightarrow> paged option"
  vh_next :: nat
  vh_owner :: nat
  vh_mem :: "nat \<Rightarrow> nat \<Rightarrow> u8"
  vh_supply :: "nat list"
  vh_changes :: "mapping_change list"

definition PG :: nat where "PG = 4096"

definition usz :: "nat \<Rightarrow> nat" where "usz x = x mod 2 ^ 64"

definition ZERO_FRAME :: nat where "ZERO_FRAME = 0"

text \<open>
  Operations on the heap: the outer \<^const>\<open>None\<close> is a recursion that has used up its bound, an error or a panic keeps the
  changes made so far.
\<close>

type_synonym 'a vm = "vmo_heap \<Rightarrow> ('a zx_result \<times> vmo_heap) option"

definition ret :: "'a \<Rightarrow> 'a vm" where "ret a h = Some (Ok a, h)"
definition fail :: "zx_error \<Rightarrow> 'a vm" where "fail e h = Some (Err e, h)"
definition vpanic :: "'a vm" where "vpanic h = Some (Panic, h)"

definition bind :: "'a vm \<Rightarrow> ('a \<Rightarrow> 'b vm) \<Rightarrow> 'b vm" where
  "bind m f h =
     (case m h of
        None \<Rightarrow> None
      | Some (Ok a, h') \<Rightarrow> f a h'
      | Some (Err e, h') \<Rightarrow> Some (Err e, h')
      | Some (Panic, h') \<Rightarrow> Some (Panic, h'))"

definition node :: "nat \<Rightarrow> paged vm" where
  "node v h = (case vh_vmos h v of Some x \<Rightarrow> Some (Ok x, h) | None \<Rightarrow> Some (Panic, h))"

definition set_node :: "nat \<Rightarrow> paged \<Rightarrow> vmo_heap \<Rightarrow> vmo_heap" where
  "set_node v x h = h\<lparr>vh_vmos := (vh_vmos h)(v \<mapsto> x)\<rparr>"

definition put :: "nat \<Rightarrow> paged \<Rightarrow> unit vm" where
  "put v x h = Some (Ok (), set_node v x h)"

definition frame_new :: "nat vm" where
  "frame_new h = (case vh_supply h of [] \<Rightarrow> Some (Err NO_MEMORY, h) | f # fs \<Rightarrow> Some (Ok f, h\<lparr>vh_supply := fs\<rparr>))"

definition frame_new_zero :: "nat vm" where
  "frame_new_zero = bind frame_new (\<lambda>f h. Some (Ok f, h\<lparr>vh_mem := (vh_mem h)(f := \<lambda>_. 0)\<rparr>))"

definition pmem_copy :: "nat \<Rightarrow> nat \<Rightarrow> unit vm" where
  "pmem_copy dst src h = Some (Ok (), h\<lparr>vh_mem := (vh_mem h)(dst := vh_mem h src)\<rparr>)"

definition notify :: "mapping_change list \<Rightarrow> unit vm" where
  "notify cs h = Some (Ok (), h\<lparr>vh_changes := vh_changes h @ cs\<rparr>)"

section \<open>The tree\<close>

fun is_hidden :: "vmo_type \<Rightarrow> bool" where
  "is_hidden (Hidden l r) = True" | "is_hidden _ = False"

text \<open>The \<open>child\<close> is \<^const>\<open>None\<close> for the empty weak reference.\<close>

fun get_tag_and_other :: "vmo_type \<Rightarrow> nat option \<Rightarrow> page_tag \<times> nat option" where
  "get_tag_and_other (Hidden l r) child =
     (if child = Some l then (LeftSplit, Some r) else if child = Some r then (RightSplit, Some l) else (Owned, None))"
| "get_tag_and_other _ child = (Owned, None)"

fun negate :: "page_tag \<Rightarrow> page_tag option" where
  "negate LeftSplit = Some RightSplit" | "negate RightSplit = Some LeftSplit" | "negate Owned = None"

definition is_split :: "page_tag \<Rightarrow> bool" where "is_split t \<longleftrightarrow> t \<noteq> Owned"

definition page_state_new :: "nat \<Rightarrow> page_state" where
  "page_state_new f = \<lparr>ps_frame = f, ps_tag = Owned, ps_pin = 0\<rparr>"

definition set_frame :: "nat \<Rightarrow> nat \<Rightarrow> page_state option \<Rightarrow> vmo_heap \<Rightarrow> vmo_heap" where
  "set_frame v i ps h =
     (case vh_vmos h v of
        Some x \<Rightarrow> set_node v (x\<lparr>pv_frames := (pv_frames x)(i := ps)\<rparr>) h
      | None \<Rightarrow> h)"

definition new_owner_id :: "nat vm" where
  "new_owner_id h = Some (Ok (vh_owner h), h\<lparr>vh_owner := vh_owner h + 1\<rparr>)"

definition wrap :: "paged \<Rightarrow> nat vm" where
  "wrap x h = Some (Ok (vh_next h), set_node (vh_next h) x (h\<lparr>vh_next := vh_next h + 1\<rparr>))"

definition paged_new :: "nat \<Rightarrow> nat vm" where
  "paged_new n =
     bind new_owner_id (\<lambda>owner.
     wrap \<lparr>pv_owner = owner, pv_type = Origin, pv_parent = None, pv_offset = 0, pv_limit = 0, pv_size = usz (n * PG),
       pv_frames = Map.empty, pv_mappings = [], pv_cache = Cached, pv_contiguous = False, pv_pin_count = 0\<rparr>)"

section \<open>Committing a page\<close>

text \<open>Tell the mappings of a node, and of the nodes below it, that a range of it has changed.\<close>

definition mapping_changes :: "nat list \<Rightarrow> nat \<Rightarrow> nat \<Rightarrow> range_change_op \<Rightarrow> mapping_change list" where
  "mapping_changes ms start count op = map (\<lambda>m. \<lparr>mc_mapping = m, mc_start = start, mc_count = count, mc_op = op\<rparr>) ms"

definition page_count :: "nat \<Rightarrow> nat" where "page_count x = usz (x + PG - 1) div PG"

fun node_range_change :: "nat \<Rightarrow> nat \<Rightarrow> nat \<Rightarrow> nat \<Rightarrow> range_change_op \<Rightarrow> unit vm" where
  "node_range_change 0 v lo hi op h = None"
| "node_range_change (Suc n) v lo hi op h =
     bind (node v) (\<lambda>x.
       let start = max (pv_offset x) lo; stop = min (pv_limit x) hi
       in if start \<ge> stop then ret ()
          else
            let start = start - pv_offset x; stop = stop - pv_offset x
            in bind (notify (mapping_changes (pv_mappings x) (page_count start) (page_count stop - page_count start) op)) (\<lambda>_.
                 case pv_type x of
                   Hidden l r \<Rightarrow> bind (node_range_change n l start stop op) (\<lambda>_. node_range_change n r start stop op)
                 | _ \<Rightarrow> ret ())) h"

datatype commit_result = Ref nat | CopyOnWrite nat bool | NewPage nat

definition out_of_range :: "paged \<Rightarrow> nat \<Rightarrow> bool" where
  "out_of_range x i =
     (if is_hidden (pv_type x) \<or> pv_parent x = None then pv_size x div PG \<le> i
      else pv_limit x \<le> usz (pv_offset x + usz (i * PG)))"

text \<open>The part of \<open>commit_page_internal\<close> from the point where the page is a frame of the node.\<close>

definition take_frame :: "nat \<Rightarrow> nat \<Rightarrow> bool \<Rightarrow> commit_result vm" where
  "take_frame v i need_unmap =
     bind (node v) (\<lambda>x.
       case pv_frames x i of
         None \<Rightarrow> vpanic
       | Some ps \<Rightarrow> (\<lambda>h. Some (Ok (CopyOnWrite (ps_frame ps) need_unmap), set_frame v i None h)))"

definition commit_owned :: "nat \<Rightarrow> nat \<Rightarrow> bool \<Rightarrow> page_tag \<Rightarrow> bool \<Rightarrow> commit_result vm" where
  "commit_owned v i write child_tag need_unmap =
     bind (node v) (\<lambda>x.
     bind (notify (if need_unmap then mapping_changes (pv_mappings x) i 1 RangeUnmap else [])) (\<lambda>_.
       case pv_frames x i of
         None \<Rightarrow> vpanic
       | Some ps \<Rightarrow>
           if is_split (ps_tag ps) then take_frame v i need_unmap
           else if write \<and> is_split child_tag then
             bind frame_new (\<lambda>f.
             bind (pmem_copy f (ps_frame ps)) (\<lambda>_ h.
               Some (Ok (CopyOnWrite f True), set_frame v i (Some (ps\<lparr>ps_tag := child_tag\<rparr>)) h)))
           else ret (Ref (ps_frame ps))))"

definition commit_hit :: "nat \<Rightarrow> nat \<Rightarrow> bool \<Rightarrow> nat option \<Rightarrow> bool \<Rightarrow> commit_result vm" where
  "commit_hit v i write child need_unmap =
     bind (node v) (\<lambda>x.
       let (child_tag, other) = get_tag_and_other (pv_type x) child
       in if is_hidden (pv_type x) then
            (case other of
               None \<Rightarrow> vpanic
             | Some o' \<Rightarrow>
                 bind (node o') (\<lambda>ox.
                   if pv_offset ox div PG \<le> i \<and> i < pv_limit ox div PG then
                     bind (if need_unmap then (\<lambda>h. node_range_change (vh_next h) o' (usz (i * PG)) (usz ((1 + i) * PG)) RangeUnmap h) else ret ())
                       (\<lambda>_. commit_owned v i write child_tag need_unmap)
                   else take_frame v i need_unmap))
          else commit_owned v i write child_tag need_unmap)"

text \<open>No frame here, and no parent to ask: a zero page.\<close>

definition commit_fresh :: "nat \<Rightarrow> nat \<Rightarrow> bool \<Rightarrow> nat option \<Rightarrow> commit_result vm" where
  "commit_fresh v i write child =
     bind (node v) (\<lambda>x.
       if \<not> write then ret (Ref ZERO_FRAME)
       else
         bind frame_new_zero (\<lambda>f.
           if is_hidden (pv_type x) then (if out_of_range x i then vpanic else ret (NewPage f))
           else (\<lambda>h. commit_hit v i write child False (set_frame v i (Some (page_state_new f)) h))))"

text \<open>What the parent has found; a contiguous object keeps the frame of its parent and gives it the copy.\<close>

definition commit_from_parent :: "nat \<Rightarrow> nat \<Rightarrow> nat \<Rightarrow> nat \<Rightarrow> bool \<Rightarrow> nat option \<Rightarrow> commit_result \<Rightarrow> commit_result vm" where
  "commit_from_parent v i p pi write child r =
     bind (node v) (\<lambda>x.
       case r of
         Ref pa \<Rightarrow> ret r
       | NewPage f \<Rightarrow>
           if is_hidden (pv_type x) then ret r
           else (\<lambda>h. commit_hit v i write child False (set_frame v i (Some (page_state_new f)) h))
       | CopyOnWrite f unmap \<Rightarrow>
           if pv_contiguous x then
             bind (node p) (\<lambda>px h.
               let new = page_state_new f;
                   (kept, given) = (case pv_frames px pi of
                      Some ps \<Rightarrow> (Some (ps\<lparr>ps_frame := ps_frame new, ps_pin := ps_pin new\<rparr>), new\<lparr>ps_frame := ps_frame ps, ps_pin := ps_pin ps\<rparr>)
                    | None \<Rightarrow> (None, new))
               in case snd (get_tag_and_other (pv_type px) (Some v)) of
                    None \<Rightarrow> Some (Panic, set_frame p pi kept h)
                  | Some sibling \<Rightarrow>
                      bind (\<lambda>h. node_range_change (vh_next h) sibling (usz (pi * PG)) (usz ((pi + 1) * PG)) RangeUnmap h)
                        (\<lambda>_ h. commit_hit v i write child False (set_frame v i (Some given) h)) (set_frame p pi kept h))
           else (\<lambda>h. commit_hit v i write child unmap (set_frame v i (Some (page_state_new f)) h)))"

fun commit_page_internal :: "nat \<Rightarrow> nat \<Rightarrow> nat \<Rightarrow> bool \<Rightarrow> nat option \<Rightarrow> commit_result vm" where
  "commit_page_internal 0 v i write child h = None"
| "commit_page_internal (Suc n) v i write child h =
     bind (node v) (\<lambda>x.
       if pv_frames x i \<noteq> None then commit_hit v i write child False
       else
         case pv_parent x of
           None \<Rightarrow> commit_fresh v i write child
         | Some p \<Rightarrow>
             if out_of_range x i then commit_fresh v i write child
             else
               let pi = usz (i + pv_offset x div PG)
               in bind (commit_page_internal n p pi write (Some v)) (commit_from_parent v i p pi write child)) h"

section \<open>Reading and writing\<close>

text \<open>All frames of a contiguous object lie one after the other.\<close>

definition check_contig :: "paged \<Rightarrow> bool" where
  "check_contig x \<longleftrightarrow> \<not> pv_contiguous x \<or>
     (let fs = List.map_filter (\<lambda>i. map_option (\<lambda>ps. (i, ps_frame ps)) (pv_frames x i)) [0..<pv_size x div PG]
      in case fs of [] \<Rightarrow> True | (i, f) # _ \<Rightarrow> list_all (\<lambda>(j, g). int g - int j = int f - int i) fs)"

definition commit_page :: "nat \<Rightarrow> nat \<Rightarrow> bool \<Rightarrow> nat vm" where
  "commit_page v i write =
     bind (\<lambda>h. commit_page_internal (vh_next h) v i write None h) (\<lambda>r.
       case r of
         Ref pa \<Rightarrow> bind (node v) (\<lambda>x. if check_contig x then ret pa else vpanic)
       | _ \<Rightarrow> vpanic)"

fun for_each :: "('a \<Rightarrow> unit vm) \<Rightarrow> 'a list \<Rightarrow> unit vm" where
  "for_each f [] = ret ()"
| "for_each f (x # xs) = bind (f x) (\<lambda>_. for_each f xs)"

definition page_blocks :: "nat \<Rightarrow> nat \<Rightarrow> block_range list" where
  "page_blocks offset len = block_ranges \<lparr>iter_begin = offset, iter_end = usz (offset + len), iter_log2 = 12\<rparr>"

text \<open>Bytes of a frame, from an offset in the page.\<close>

definition pmem_read :: "nat \<Rightarrow> nat \<Rightarrow> nat \<Rightarrow> vmo_heap \<Rightarrow> u8 list" where
  "pmem_read f from len h = map (vh_mem h f) [from..<from + len]"

definition pmem_write :: "nat \<Rightarrow> nat \<Rightarrow> u8 list \<Rightarrow> unit vm" where
  "pmem_write f from bs h =
     Some (Ok (), h\<lparr>vh_mem := (vh_mem h)(f := (\<lambda>k. if from \<le> k \<and> k < from + length bs then bs ! (k - from) else vh_mem h f k))\<rparr>)"

fun read_blocks :: "nat \<Rightarrow> block_range list \<Rightarrow> u8 list vm" where
  "read_blocks v [] = ret []"
| "read_blocks v (b # bs) =
     bind (commit_page v (blk_block b) False) (\<lambda>f.
     bind (\<lambda>h. Some (Ok (pmem_read f (blk_begin b) (block_len b) h), h)) (\<lambda>x.
     bind (read_blocks v bs) (\<lambda>xs. ret (x @ xs))))"

definition paged_read :: "nat \<Rightarrow> nat \<Rightarrow> nat \<Rightarrow> u8 list vm" where
  "paged_read v offset len =
     bind (node v) (\<lambda>x. if pv_cache x \<noteq> Cached then fail BAD_STATE else read_blocks v (page_blocks offset len))"

fun write_blocks :: "nat \<Rightarrow> u8 list \<Rightarrow> block_range list \<Rightarrow> unit vm" where
  "write_blocks v buf [] = ret ()"
| "write_blocks v buf (b # bs) =
     bind (commit_page v (blk_block b) True) (\<lambda>f.
     bind (pmem_write f (blk_begin b) (take (block_len b) buf)) (\<lambda>_. write_blocks v (drop (block_len b) buf) bs))"

definition paged_write :: "nat \<Rightarrow> nat \<Rightarrow> u8 list \<Rightarrow> unit vm" where
  "paged_write v offset buf =
     bind (node v) (\<lambda>x. if pv_cache x \<noteq> Cached then fail BAD_STATE else write_blocks v buf (page_blocks offset (length buf)))"

definition commit_range :: "nat \<Rightarrow> nat \<Rightarrow> nat \<Rightarrow> unit vm" where
  "commit_range v offset len =
     for_each (\<lambda>i. bind (commit_page v (usz (offset div PG + i)) True) (\<lambda>_. ret ())) [0..<len div PG]"

definition decommit_page :: "nat \<Rightarrow> nat \<Rightarrow> unit vm" where
  "decommit_page v i h = Some (Ok (), set_frame v i None h)"

definition decommit_range :: "nat \<Rightarrow> nat \<Rightarrow> nat \<Rightarrow> unit vm" where
  "decommit_range v offset len =
     bind (node v) (\<lambda>x.
       if pv_parent x \<noteq> None then fail NOT_SUPPORTED
       else for_each (\<lambda>i. decommit_page v (usz (offset div PG + i))) [0..<len div PG])"

section \<open>Clones\<close>

definition replace_link :: "nat \<Rightarrow> nat \<Rightarrow> vmo_type \<Rightarrow> vmo_type option" where
  "replace_link old new t =
     (case t of
        Hidden l r \<Rightarrow> if l = old then Some (Hidden new r) else if r = old then Some (Hidden l new) else None
      | _ \<Rightarrow> None)"

text \<open>A snapshot: the pages move to a hidden node that becomes the parent of the object and of its clone.\<close>

definition paged_create_child :: "nat \<Rightarrow> nat \<Rightarrow> nat \<Rightarrow> nat vm" where
  "paged_create_child v offset len =
     (if offset mod PG \<noteq> 0 \<or> len mod PG \<noteq> 0 then vpanic
      else
        bind (node v) (\<lambda>x.
          if pv_contiguous x then fail INVALID_ARGS
          else if pv_cache x \<noteq> Cached \<or> pv_pin_count x \<noteq> 0 then fail BAD_STATE
          else
            bind new_owner_id (\<lambda>owner.
            bind (wrap \<lparr>pv_owner = owner, pv_type = Snapshot, pv_parent = None, pv_offset = offset,
                        pv_limit = min (usz (offset + len)) (pv_size x), pv_size = len, pv_frames = Map.empty, pv_mappings = [],
                        pv_cache = Cached, pv_contiguous = False, pv_pin_count = 0\<rparr>) (\<lambda>child.
            bind (wrap \<lparr>pv_owner = pv_owner x, pv_type = Hidden v child, pv_parent = pv_parent x, pv_offset = pv_offset x,
                        pv_limit = pv_limit x, pv_size = pv_size x, pv_frames = pv_frames x, pv_mappings = [],
                        pv_cache = Cached, pv_contiguous = pv_contiguous x, pv_pin_count = pv_pin_count x\<rparr>) (\<lambda>hidden.
            bind (case pv_parent x of
                    None \<Rightarrow> ret ()
                  | Some p \<Rightarrow> bind (node p) (\<lambda>px.
                      if is_hidden (pv_type px) then
                        (case replace_link v hidden (pv_type px) of None \<Rightarrow> vpanic | Some t \<Rightarrow> put p (px\<lparr>pv_type := t\<rparr>))
                      else ret ())) (\<lambda>_.
            bind (put v (x\<lparr>pv_frames := Map.empty, pv_parent := Some hidden, pv_offset := 0, pv_limit := pv_size x\<rparr>)) (\<lambda>_.
            bind (node child) (\<lambda>cx.
            bind (put child (cx\<lparr>pv_parent := Some hidden\<rparr>)) (\<lambda>_.
            bind (notify (mapping_changes (pv_mappings x) (page_count offset) (page_count len) RemoveWrite)) (\<lambda>_.
              ret child))))))))))"

end
