(* ===== verification/Vmo_Tree.thy ===== *)
theory Vmo_Tree
  imports Vmo_Paged
begin

text \<open>
  The tree of a family of clones: which frame an object sees at a page, the invariant of the tree, and the elementary changes
  that a commit is made of (a page moves down to the only child that sees it, is copied down to a child that writes it, or
  appears in a leaf), each of which leaves what every object sees as it was.
\<close>

section \<open>Reading the tree\<close>

definition shape :: "vmo_heap \<Rightarrow> nat \<Rightarrow> paged option" where
  "shape h v = map_option (\<lambda>x. x\<lparr>pv_frames := Map.empty\<rparr>) (vh_vmos h v)"

definition fr :: "vmo_heap \<Rightarrow> nat \<Rightarrow> nat \<Rightarrow> page_state option" where
  "fr h v i = (case vh_vmos h v of Some x \<Rightarrow> pv_frames x i | None \<Rightarrow> None)"

definition par :: "vmo_heap \<Rightarrow> nat \<Rightarrow> nat option" where
  "par h v = (case shape h v of Some x \<Rightarrow> pv_parent x | None \<Rightarrow> None)"

definition off :: "vmo_heap \<Rightarrow> nat \<Rightarrow> nat" where
  "off h v = (case shape h v of Some x \<Rightarrow> pv_offset x div PG | None \<Rightarrow> 0)"

definition len :: "vmo_heap \<Rightarrow> nat \<Rightarrow> nat" where
  "len h v = (case shape h v of Some x \<Rightarrow> pv_size x div PG | None \<Rightarrow> 0)"

definition leaf :: "vmo_heap \<Rightarrow> nat \<Rightarrow> bool" where
  "leaf h v \<longleftrightarrow> (case shape h v of Some x \<Rightarrow> \<not> is_hidden (pv_type x) | None \<Rightarrow> False)"

definition children :: "vmo_heap \<Rightarrow> nat \<Rightarrow> (nat \<times> nat) option" where
  "children h v = (case shape h v of Some x \<Rightarrow> (case pv_type x of Hidden l r \<Rightarrow> Some (l, r) | _ \<Rightarrow> None) | None \<Rightarrow> None)"

text \<open>The bytes of page \<open>i\<close> of a node: the first frame on the way up, or zeros.\<close>

fun page_view :: "nat \<Rightarrow> vmo_heap \<Rightarrow> nat \<Rightarrow> nat \<Rightarrow> nat \<Rightarrow> u8" where
  "page_view 0 h v i = (\<lambda>_. 0)"
| "page_view (Suc n) h v i =
     (case fr h v i of
        Some ps \<Rightarrow> vh_mem h (ps_frame ps)
      | None \<Rightarrow> (case par h v of None \<Rightarrow> (\<lambda>_. 0) | Some p \<Rightarrow> page_view n h p (i + off h v)))"

definition vmo_page :: "vmo_heap \<Rightarrow> nat \<Rightarrow> nat \<Rightarrow> nat \<Rightarrow> u8" where
  "vmo_page h v i = page_view (vh_next h) h v i"

section \<open>The invariant\<close>

definition parent_ok :: "(nat \<Rightarrow> nat) \<Rightarrow> vmo_heap \<Rightarrow> nat \<Rightarrow> paged \<Rightarrow> nat \<Rightarrow> bool" where
  "parent_ok d h v x p \<longleftrightarrow>
     (\<exists>px l r. shape h p = Some px \<and> d p < d v \<and> pv_type px = Hidden l r \<and> l \<noteq> r \<and> (v = l \<or> v = r)
        \<and> pv_offset x mod PG = 0 \<and> pv_limit x = pv_offset x + pv_size x \<and> pv_limit x \<le> pv_size px)"

definition tree_ok :: "(nat \<Rightarrow> nat) \<Rightarrow> vmo_heap \<Rightarrow> bool" where
  "tree_ok d h \<longleftrightarrow>
     (\<forall>v x. shape h v = Some x \<longrightarrow>
        v < vh_next h \<and> d v < vh_next h \<and> pv_size x mod PG = 0 \<and> pv_size x < 2 ^ 64 \<and> \<not> pv_contiguous x \<and> pv_cache x = Cached \<and> pv_pin_count x = 0
        \<and> (\<forall>p. pv_parent x = Some p \<longrightarrow> parent_ok d h v x p)
        \<and> (\<forall>l r. pv_type x = Hidden l r \<longrightarrow> par h l = Some v \<and> par h r = Some v))"

definition frame_unique :: "vmo_heap \<Rightarrow> nat \<Rightarrow> nat \<Rightarrow> nat \<Rightarrow> bool" where
  "frame_unique h v i f \<longleftrightarrow> (\<forall>w j qs. fr h w j = Some qs \<and> ps_frame qs = f \<longrightarrow> w = v \<and> j = i)"

definition frame_fits :: "vmo_heap \<Rightarrow> nat \<Rightarrow> nat \<Rightarrow> page_state \<Rightarrow> bool" where
  "frame_fits h v i ps \<longleftrightarrow>
     ps_frame ps \<notin> set (vh_supply h) \<and> ps_frame ps \<noteq> ZERO_FRAME \<and> i < len h v \<and> (leaf h v \<longrightarrow> ps_tag ps = Owned) \<and> frame_unique h v i (ps_frame ps)"

definition supply_ok :: "vmo_heap \<Rightarrow> bool" where
  "supply_ok h \<longleftrightarrow> distinct (vh_supply h) \<and> ZERO_FRAME \<notin> set (vh_supply h) \<and> vh_mem h ZERO_FRAME = (\<lambda>_. 0)"

definition frames_ok :: "vmo_heap \<Rightarrow> bool" where
  "frames_ok h \<longleftrightarrow> supply_ok h \<and> (\<forall>v i ps. fr h v i = Some ps \<longrightarrow> frame_fits h v i ps)"

text \<open>A request for page \<open>m\<close> of \<open>w\<close> comes to a node if no node below it on the way has a frame.\<close>

inductive asks :: "vmo_heap \<Rightarrow> nat \<Rightarrow> nat \<Rightarrow> nat \<Rightarrow> nat \<Rightarrow> bool" for h w m where
  asks_start: "asks h w m w m"
| asks_up: "asks h w m c j \<Longrightarrow> fr h c j = None \<Longrightarrow> par h c = Some p \<Longrightarrow> asks h w m p (j + off h c)"

definition asked :: "vmo_heap \<Rightarrow> nat \<Rightarrow> nat \<Rightarrow> bool" where
  "asked h c j \<longleftrightarrow> (\<exists>w m. leaf h w \<and> m < len h w \<and> asks h w m c j)"

text \<open>A page that has been split off to a child is not asked for by that child any more.\<close>

fun tag_child :: "nat \<times> nat \<Rightarrow> page_tag \<Rightarrow> nat option" where
  "tag_child (l, r) LeftSplit = Some l" | "tag_child (l, r) RightSplit = Some r" | "tag_child (l, r) Owned = None"

definition split_ok :: "vmo_heap \<Rightarrow> bool" where
  "split_ok h \<longleftrightarrow>
     (\<forall>v lr i ps c j. children h v = Some lr \<and> fr h v i = Some ps \<and> tag_child lr (ps_tag ps) = Some c \<and> i = j + off h c
        \<longrightarrow> \<not> (asked h c j \<and> fr h c j = None))"

definition vmo_inv :: "(nat \<Rightarrow> nat) \<Rightarrow> vmo_heap \<Rightarrow> bool" where
  "vmo_inv d h \<longleftrightarrow> tree_ok d h \<and> frames_ok h \<and> split_ok h"

section \<open>Changing frames\<close>

definition same_tree :: "vmo_heap \<Rightarrow> vmo_heap \<Rightarrow> bool" where
  "same_tree h h' \<longleftrightarrow> shape h' = shape h \<and> vh_next h' = vh_next h"

lemma same_tree_refl [simp]: "same_tree h h" by (simp add: same_tree_def)

lemma same_tree_trans: "same_tree h h' \<Longrightarrow> same_tree h' h'' \<Longrightarrow> same_tree h h''" by (simp add: same_tree_def)

lemma same_tree_simps:
  assumes "same_tree h h'"
  shows "shape h' = shape h" "vh_next h' = vh_next h" "par h' = par h" "off h' = off h" "len h' = len h" "leaf h' = leaf h" "children h' = children h"
  using assms by (auto simp: same_tree_def par_def off_def len_def leaf_def children_def fun_eq_iff)

lemma tree_ok_same: "same_tree h h' \<Longrightarrow> tree_ok d h' = tree_ok d h"
  unfolding tree_ok_def parent_ok_def by (simp add: same_tree_simps)

lemma shape_set_frame [simp]: "shape (set_frame v i ps h) = shape h"
  by (auto simp: shape_def set_frame_def set_node_def fun_eq_iff split: option.splits)

lemma set_frame_fields [simp]:
  "vh_next (set_frame v i ps h) = vh_next h" "vh_mem (set_frame v i ps h) = vh_mem h" "vh_supply (set_frame v i ps h) = vh_supply h"
  by (auto simp: set_frame_def set_node_def split: option.splits)

lemma same_tree_set_frame [simp]: "same_tree h (set_frame v i ps h)"
  by (simp add: same_tree_def)

lemma shape_fields [simp]:
  "shape (h\<lparr>vh_mem := m\<rparr>) = shape h" "shape (h\<lparr>vh_supply := s\<rparr>) = shape h" "shape (h\<lparr>vh_changes := c\<rparr>) = shape h"
  by (simp_all add: shape_def fun_eq_iff)

lemma fr_fields [simp]:
  "fr (h\<lparr>vh_mem := m\<rparr>) = fr h" "fr (h\<lparr>vh_supply := s\<rparr>) = fr h" "fr (h\<lparr>vh_changes := c\<rparr>) = fr h"
  by (simp_all add: fr_def fun_eq_iff)

lemma same_tree_fields [simp]:
  "same_tree h (h\<lparr>vh_mem := m\<rparr>)" "same_tree h (h\<lparr>vh_supply := s\<rparr>)" "same_tree h (h\<lparr>vh_changes := c\<rparr>)"
  by (simp_all add: same_tree_def)

lemmas set_frame_tree [simp] = same_tree_simps(3-7) [OF same_tree_set_frame]

lemmas fields_tree [simp] =
  same_tree_simps(3-7) [OF same_tree_fields(1)] same_tree_simps(3-7) [OF same_tree_fields(2)] same_tree_simps(3-7) [OF same_tree_fields(3)]

lemma fr_set_frame: "shape h v \<noteq> None \<Longrightarrow> fr (set_frame v i ps h) w j = (if w = v \<and> j = i then ps else fr h w j)"
  by (auto simp: shape_def fr_def set_frame_def set_node_def split: option.splits)

lemma fr_alive: "fr h v i = Some ps \<Longrightarrow> shape h v \<noteq> None"
  by (auto simp: fr_def shape_def split: option.splits)

lemma par_alive: "par h v = Some p \<Longrightarrow> shape h v \<noteq> None"
  by (auto simp: par_def split: option.splits)

section \<open>Facts of the tree\<close>

lemma tree_alive:
  assumes "tree_ok d h" "shape h v \<noteq> None"
  shows "v < vh_next h" "d v < vh_next h"
  using assms unfolding tree_ok_def by auto

lemma tree_par:
  assumes "tree_ok d h" "par h v = Some p"
  obtains l r where "shape h p \<noteq> None" "d p < d v" "children h p = Some (l, r)" "l \<noteq> r" "v = l \<or> v = r"
    "off h v + len h v \<le> len h p" "\<not> leaf h p"
proof -
  obtain x where x: "shape h v = Some x" "pv_parent x = Some p"
    using assms(2) by (auto simp: par_def split: option.splits)
  note a = assms(1) [unfolded tree_ok_def, THEN spec, THEN spec, THEN mp, OF x(1)]
  then have sz: "pv_size x mod PG = 0" and "parent_ok d h v x p" using x(2) by auto
  then obtain px l r where px: "shape h p = Some px" "d p < d v" "pv_type px = Hidden l r" "l \<noteq> r" "v = l \<or> v = r"
    "pv_offset x mod PG = 0" "pv_limit x = pv_offset x + pv_size x" "pv_limit x \<le> pv_size px"
    unfolding parent_ok_def by (elim exE conjE)
  have "pv_offset x div PG + pv_size x div PG = (pv_offset x + pv_size x) div PG"
    using px(6) sz by (simp add: div_add1_eq)
  also have "\<dots> \<le> pv_size px div PG" using px(7,8) by (simp add: div_le_mono)
  finally have le: "pv_offset x div PG + pv_size x div PG \<le> pv_size px div PG" .
  show thesis
    by (rule that [of l r]) (use x px le in \<open>auto simp: off_def len_def children_def leaf_def\<close>)
qed

lemma tree_up:
  assumes "tree_ok d h" "par h v = Some p"
  shows "shape h v \<noteq> None" "shape h p \<noteq> None" "d p < d v" "v \<noteq> p" "\<not> leaf h p"
  using par_alive [OF assms(2)] by (auto intro: tree_par [OF assms])

lemma tree_children:
  assumes "tree_ok d h" "children h v = Some (l, r)"
  shows "par h l = Some v" "par h r = Some v"
  using assms unfolding tree_ok_def children_def by (auto split: option.splits vmo_type.splits)

lemma children_differ: "tree_ok d h \<Longrightarrow> children h v = Some (l, r) \<Longrightarrow> l \<noteq> r"
  using tree_children(1) [of d h v l r] by (auto elim: tree_par)

lemma asks_range: "asks h w m c j \<Longrightarrow> tree_ok d h \<Longrightarrow> m < len h w \<Longrightarrow> j < len h c"
proof (induction rule: asks.induct)
  case (asks_up c j p)
  then show ?case by (auto elim!: tree_par [of d h c p])
qed simp

lemma asked_range: "asked h c j \<Longrightarrow> tree_ok d h \<Longrightarrow> j < len h c"
  by (auto simp: asked_def dest: asks_range)

lemma asked_start: "leaf h w \<Longrightarrow> m < len h w \<Longrightarrow> asked h w m"
  by (auto simp: asked_def intro: asks_start)

lemma asked_up: "asked h c j \<Longrightarrow> fr h c j = None \<Longrightarrow> par h c = Some p \<Longrightarrow> asked h p (j + off h c)"
  by (auto simp: asked_def intro: asks_up)

text \<open>A request that reaches an inner node has come up through one of its children.\<close>

lemma asked_from_child:
  assumes "asked h p k" "\<not> leaf h p"
  obtains c j where "par h c = Some p" "k = j + off h c" "asked h c j" "fr h c j = None"
proof -
  obtain w m where w: "leaf h w" "m < len h w" "asks h w m p k" using assms(1) by (auto simp: asked_def)
  from w(3) show thesis
  proof (cases rule: asks.cases)
    case asks_start
    then show ?thesis using w(1) assms(2) by simp
  next
    case (asks_up c j)
    then show ?thesis using w(1,2) that [of c j] by (auto simp: asked_def)
  qed
qed

lemma par_child: "tree_ok d h \<Longrightarrow> children h p = Some (l, r) \<Longrightarrow> par h c = Some p \<Longrightarrow> c = l \<or> c = r"
  by (auto elim: tree_par)

lemma page_view_fuel:
  assumes "tree_ok d h"
  shows "d v < n \<Longrightarrow> d v < n' \<Longrightarrow> page_view n h v i = page_view n' h v i"
proof (induction "d v" arbitrary: v n n' i rule: less_induct)
  case less
  obtain a b where ab: "n = Suc a" "n' = Suc b" using less.prems by (metis Nat.lessE)
  have "par h v = Some p \<Longrightarrow> page_view a h p (i + off h v) = page_view b h p (i + off h v)" for p
    using less ab by (auto elim!: tree_par [OF assms, of v p] intro!: less.hyps)
  then show ?case by (simp add: ab split: option.split)
qed

lemma vmo_page_unfold:
  assumes "tree_ok d h"
  shows "vmo_page h v i = (case fr h v i of Some ps \<Rightarrow> vh_mem h (ps_frame ps)
           | None \<Rightarrow> (case par h v of None \<Rightarrow> (\<lambda>_. 0) | Some p \<Rightarrow> vmo_page h p (i + off h v)))"
proof (cases "shape h v")
  case None
  then have "fr h v i = None" "par h v = None" by (auto simp: par_def fr_def shape_def split: option.splits)
  then show ?thesis by (cases "vh_next h") (simp_all add: vmo_page_def)
next
  case (Some x)
  then have "d v < vh_next h" using tree_alive [OF assms] by auto
  then have "vmo_page h v i = page_view (Suc (vh_next h)) h v i"
    unfolding vmo_page_def by (intro page_view_fuel [OF assms]) auto
  then show ?thesis by (simp add: vmo_page_def split: option.splits)
qed

lemma vmo_page_hit: "tree_ok d h \<Longrightarrow> fr h v i = Some ps \<Longrightarrow> vmo_page h v i = vh_mem h (ps_frame ps)"
  by (simp add: vmo_page_unfold [of d h v i])

lemma vmo_page_up: "tree_ok d h \<Longrightarrow> fr h v i = None \<Longrightarrow> par h v = Some p \<Longrightarrow> vmo_page h v i = vmo_page h p (i + off h v)"
  by (simp add: vmo_page_unfold [of d h v i])

lemma vmo_page_none: "tree_ok d h \<Longrightarrow> fr h v i = None \<Longrightarrow> par h v = None \<Longrightarrow> vmo_page h v i = (\<lambda>_. 0)"
  by (simp add: vmo_page_unfold [of d h v i])

section \<open>Changes that no object sees\<close>

text \<open>What every leaf sees stays as it was.\<close>

definition unseen :: "(nat \<Rightarrow> nat) \<Rightarrow> vmo_heap \<Rightarrow> vmo_heap \<Rightarrow> bool" where
  "unseen d h h' \<longleftrightarrow> same_tree h h' \<and> vmo_inv d h' \<and> (\<forall>w m. leaf h w \<longrightarrow> m < len h w \<longrightarrow> vmo_page h' w m = vmo_page h w m)"

lemma unseen_refl: "vmo_inv d h \<Longrightarrow> unseen d h h" by (simp add: unseen_def)

lemma unseen_trans: "unseen d h h' \<Longrightarrow> unseen d h' h'' \<Longrightarrow> unseen d h h''"
  unfolding unseen_def by (auto simp: same_tree_simps intro: same_tree_trans)

text \<open>
  A set of requests that contains all that the leaves make, is closed upwards after the change, and within which every
  frame after the change has the bytes that were seen before.
\<close>

definition covers :: "vmo_heap \<Rightarrow> vmo_heap \<Rightarrow> (nat \<Rightarrow> nat \<Rightarrow> bool) \<Rightarrow> bool" where
  "covers h h' Q \<longleftrightarrow>
     (\<forall>w m. leaf h w \<and> m < len h w \<longrightarrow> Q w m)
     \<and> (\<forall>n k. Q n k \<longrightarrow> asked h n k)
     \<and> (\<forall>n k. Q n k \<and> fr h' n k = None \<longrightarrow> fr h n k = None \<and> (\<forall>p. par h n = Some p \<longrightarrow> Q p (k + off h n)))
     \<and> (\<forall>n k qs. Q n k \<and> fr h' n k = Some qs \<longrightarrow> vh_mem h' (ps_frame qs) = vmo_page h n k)"

lemma coversI:
  assumes "\<And>w m. leaf h w \<Longrightarrow> m < len h w \<Longrightarrow> Q w m" "\<And>n k. Q n k \<Longrightarrow> asked h n k"
    "\<And>n k. Q n k \<Longrightarrow> fr h' n k = None \<Longrightarrow> fr h n k = None"
    "\<And>n k p. Q n k \<Longrightarrow> fr h' n k = None \<Longrightarrow> fr h n k = None \<Longrightarrow> par h n = Some p \<Longrightarrow> Q p (k + off h n)"
    "\<And>n k qs. Q n k \<Longrightarrow> fr h' n k = Some qs \<Longrightarrow> vh_mem h' (ps_frame qs) = vmo_page h n k"
  shows "covers h h' Q"
  using assms unfolding covers_def by blast

lemma covers_asks:
  assumes "covers h h' Q" "same_tree h h'"
  shows "asks h' w m n k \<Longrightarrow> leaf h w \<Longrightarrow> m < len h w \<Longrightarrow> Q n k"
proof (induction rule: asks.induct)
  case asks_start
  then show ?case using assms(1) by (auto simp: covers_def)
next
  case (asks_up c j p)
  then show ?case using assms(1) by (auto simp: covers_def same_tree_simps [OF assms(2)])
qed

lemma covers_asked: "covers h h' Q \<Longrightarrow> same_tree h h' \<Longrightarrow> asked h' n k \<Longrightarrow> Q n k"
  by (auto simp: asked_def same_tree_simps intro: covers_asks)

lemma covers_view:
  assumes c: "covers h h' Q" and s: "same_tree h h'" and t: "tree_ok d h"
  shows "Q n k \<Longrightarrow> vmo_page h' n k = vmo_page h n k"
proof (induction "d n" arbitrary: n k rule: less_induct)
  case less
  have t': "tree_ok d h'" using t s by (simp add: tree_ok_same)
  show ?case
  proof (cases "fr h' n k")
    case None
    then have n: "fr h n k = None" "\<And>p. par h n = Some p \<Longrightarrow> Q p (k + off h n)"
      using c less.prems unfolding covers_def by blast+
    have "par h n = Some p \<Longrightarrow> vmo_page h' p (k + off h n) = vmo_page h p (k + off h n)" for p
      using less.hyps [of p] n(2) by (auto elim!: tree_par [OF t])
    then show ?thesis
      using None n(1) vmo_page_unfold [OF t, of n k] vmo_page_unfold [OF t', of n k]
      by (simp add: same_tree_simps [OF s] split: option.splits)
  next
    case (Some qs)
    then show ?thesis using c less.prems vmo_page_hit [OF t'] unfolding covers_def by metis
  qed
qed

lemma unseen_covers:
  assumes "covers h h' Q" "same_tree h h'" "tree_ok d h" "frames_ok h'" "split_ok h'"
  shows "unseen d h h'"
  using assms covers_view [OF assms(1-3)] by (auto simp: unseen_def vmo_inv_def tree_ok_same covers_def)

lemma split_covers:
  assumes c: "covers h h' Q" and s: "same_tree h h'" and o: "split_ok h"
    and new: "\<And>v i qs lr c j. fr h' v i = Some qs \<Longrightarrow> children h v = Some lr \<Longrightarrow> tag_child lr (ps_tag qs) = Some c \<Longrightarrow> i = j + off h c
      \<Longrightarrow> fr h' c j \<noteq> None \<or> (\<exists>ps. fr h v i = Some ps \<and> ps_tag ps = ps_tag qs)"
  shows "split_ok h'"
  unfolding split_ok_def same_tree_simps [OF s]
proof (intro allI impI notI, elim conjE)
  fix v lr i qs c' j
  assume a: "children h v = Some lr" "fr h' v i = Some qs" "tag_child lr (ps_tag qs) = Some c'" "i = j + off h c'" "asked h' c' j" "fr h' c' j = None"
  have q: "Q c' j" using covers_asked [OF c s a(5)] .
  have "asked h c' j" "fr h c' j = None" using c q a(6) unfolding covers_def by blast+
  moreover obtain ps where "fr h v i = Some ps" "ps_tag ps = ps_tag qs" using new [OF a(2,1,3,4)] a(6) by auto
  ultimately show False using a(1,3,4) o unfolding split_ok_def by metis
qed

section \<open>Frames that are added and removed\<close>

lemma supply_set_frame [simp]: "supply_ok (set_frame v i ps h) = supply_ok h"
  by (simp add: supply_ok_def)

lemma frames_ok_clear:
  assumes "frames_ok h" "shape h v \<noteq> None"
  shows "frames_ok (set_frame v i None h)"
  using assms(1) unfolding frames_ok_def frame_fits_def frame_unique_def
  by (simp add: fr_set_frame [OF assms(2)])

lemma frames_ok_set:
  assumes h: "frames_ok h" and v: "shape h v \<noteq> None"
    and ps: "ps_frame ps \<notin> set (vh_supply h)" "ps_frame ps \<noteq> ZERO_FRAME" "i < len h v" "leaf h v \<longrightarrow> ps_tag ps = Owned"
      "frame_unique h v i (ps_frame ps)"
  shows "frames_ok (set_frame v i (Some ps) h)" (is "frames_ok ?h")
proof -
  have "frame_fits ?h w j qs" if q: "fr ?h w j = Some qs" for w j qs
  proof (cases "w = v \<and> j = i")
    case True
    then have "frame_unique ?h w j (ps_frame ps)"
      using ps(5) unfolding frame_unique_def fr_set_frame [OF v] by auto
    then show ?thesis using True ps q by (simp add: frame_fits_def fr_set_frame [OF v])
  next
    case False
    then have f: "frame_fits h w j qs" "fr h w j = Some qs" using q h by (auto simp: frames_ok_def fr_set_frame [OF v])
    then have "ps_frame qs \<noteq> ps_frame ps" using ps(5) False unfolding frame_unique_def by blast
    then have "frame_unique ?h w j (ps_frame qs)"
      using f(1) unfolding frame_fits_def frame_unique_def fr_set_frame [OF v] by auto
    then show ?thesis using f(1) by (simp add: frame_fits_def)
  qed
  then show ?thesis using h by (simp add: frames_ok_def)
qed

section \<open>The three changes\<close>

text \<open>A page that no other child sees moves down.\<close>

definition moved :: "nat \<Rightarrow> nat \<Rightarrow> nat \<Rightarrow> nat \<Rightarrow> nat \<Rightarrow> vmo_heap \<Rightarrow> vmo_heap" where
  "moved c j v i f h = set_frame c j (Some (page_state_new f)) (set_frame v i None h)"

lemma moved_unseen:
  assumes inv: "vmo_inv d h" and p: "par h c = Some v" and i: "i = j + off h c" and c: "asked h c j" "fr h c j = None"
    and ps: "fr h v i = Some ps" and other: "\<And>e k. par h e = Some v \<Longrightarrow> i = k + off h e \<Longrightarrow> asked h e k \<Longrightarrow> fr h e k = None \<Longrightarrow> e = c"
  shows "unseen d h (moved c j v i (ps_frame ps) h)"
proof -
  let ?h = "moved c j v i (ps_frame ps) h"
  let ?Q = "\<lambda>n k. asked h n k \<and> (n, k) \<noteq> (v, i)"
  have t: "tree_ok d h" and f: "frames_ok h" and sp: "split_ok h" using inv by (auto simp: vmo_inv_def)
  have s: "same_tree h ?h" by (simp add: moved_def same_tree_def)
  have al: "shape h c \<noteq> None" "shape h v \<noteq> None" and cv: "c \<noteq> v" and nl: "\<not> leaf h v"
    using tree_up [OF t p] by auto
  have fr': "fr ?h n k = (if n = c \<and> k = j then Some (page_state_new (ps_frame ps)) else if n = v \<and> k = i then None else fr h n k)" for n k
    using al by (simp add: moved_def fr_set_frame)
  have mem: "vh_mem ?h = vh_mem h" "vh_supply ?h = vh_supply h" by (simp_all add: moved_def)
  have view: "vmo_page h c j = vh_mem h (ps_frame ps)" using vmo_page_up [OF t c(2) p] vmo_page_hit [OF t ps] i by simp
  have cov: "covers h ?h ?Q"
  proof (rule coversI, goal_cases)
    case (1 w m)
    then show ?case using nl by (auto intro: asked_start)
  next
    case (4 n k p')
    have n: "(n, k) \<noteq> (c, j)" using 4 by (auto simp: fr' split: if_splits)
    have "(p', k + off h n) \<noteq> (v, i)" using other [of n k] 4 n i by auto
    then show ?case using asked_up 4 by blast
  next
    case (5 n k qs)
    then show ?case using view vmo_page_hit [OF t] by (auto simp: fr' page_state_new_def mem split: if_splits)
  qed (auto simp: fr' split: if_splits)
  have "j < len h c" using asked_range [OF c(1) t] .
  moreover have "frame_fits h v i ps" using f ps by (simp add: frames_ok_def)
  ultimately have "frames_ok ?h"
    unfolding moved_def using al
    by (intro frames_ok_set frames_ok_clear f) (auto simp: frame_fits_def page_state_new_def frame_unique_def fr_set_frame)
  then show ?thesis
    by (intro unseen_covers [OF cov s t _ split_covers [OF cov s sp]])
       (auto simp: fr' page_state_new_def split: if_splits elim: tag_child.elims)
qed

text \<open>A frame that belongs to nobody yet.\<close>

definition spare :: "vmo_heap \<Rightarrow> nat \<Rightarrow> bool" where
  "spare h f \<longleftrightarrow> f \<notin> set (vh_supply h) \<and> f \<noteq> ZERO_FRAME \<and> (\<forall>w j qs. fr h w j = Some qs \<longrightarrow> ps_frame qs \<noteq> f)"

lemma spare_unseen:
  assumes inv: "vmo_inv d h" and f: "vh_supply h = f # fs"
  shows "unseen d h (h\<lparr>vh_supply := fs, vh_mem := (vh_mem h)(f := g)\<rparr>)" (is "unseen d h ?h")
    and "spare (h\<lparr>vh_supply := fs, vh_mem := (vh_mem h)(f := g)\<rparr>) f"
proof -
  have t: "tree_ok d h" and fo: "frames_ok h" and sp: "split_ok h" using inv by (auto simp: vmo_inv_def)
  have nf: "fr h w j = Some qs \<Longrightarrow> ps_frame qs \<noteq> f" for w j qs
    using fo f unfolding frames_ok_def frame_fits_def by fastforce
  have z: "f \<noteq> ZERO_FRAME" using fo f by (auto simp: frames_ok_def supply_ok_def)
  show "spare ?h f" using nf z fo f by (auto simp: spare_def frames_ok_def supply_ok_def)
  have s: "same_tree h ?h" by (simp add: same_tree_def)
  have cov: "covers h ?h (asked h)"
    by (rule coversI) (use vmo_page_hit [OF t] in \<open>auto intro: asked_start asked_up dest: nf\<close>)
  have "frames_ok ?h"
    using fo f z unfolding frames_ok_def frame_fits_def frame_unique_def supply_ok_def by simp
  then show "unseen d h ?h"
    by (intro unseen_covers [OF cov s t _ split_covers [OF cov s sp]]) auto
qed

text \<open>A page that a child is to write is copied down, and marked as split off to that child.\<close>

definition copied :: "nat \<Rightarrow> nat \<Rightarrow> nat \<Rightarrow> nat \<Rightarrow> page_state \<Rightarrow> nat \<Rightarrow> vmo_heap \<Rightarrow> vmo_heap" where
  "copied c j v i ps f h = set_frame c j (Some (page_state_new f)) (set_frame v i (Some ps) h)"

lemma copied_unseen:
  assumes inv: "vmo_inv d h" and p: "par h c = Some v" and i: "i = j + off h c" and c: "asked h c j" "fr h c j = None"
    and ps: "fr h v i = Some ps" and owned: "ps_tag ps = Owned" and t': "children h v = Some lr" "tag_child lr t = Some c"
    and f: "spare h f" "vh_mem h f = vh_mem h (ps_frame ps)"
  shows "unseen d h (copied c j v i (ps\<lparr>ps_tag := t\<rparr>) f h)"
proof -
  let ?h = "copied c j v i (ps\<lparr>ps_tag := t\<rparr>) f h"
  have t: "tree_ok d h" and fo: "frames_ok h" and sp: "split_ok h" using inv by (auto simp: vmo_inv_def)
  have s: "same_tree h ?h" by (simp add: copied_def same_tree_def)
  have al: "shape h c \<noteq> None" "shape h v \<noteq> None" and cv: "c \<noteq> v" and nl: "\<not> leaf h v"
    using tree_up [OF t p] by auto
  have fr': "fr ?h n k = (if n = c \<and> k = j then Some (page_state_new f) else if n = v \<and> k = i then Some (ps\<lparr>ps_tag := t\<rparr>) else fr h n k)" for n k
    using al by (simp add: copied_def fr_set_frame)
  have mem: "vh_mem ?h = vh_mem h" "vh_supply ?h = vh_supply h" by (simp_all add: copied_def)
  have view: "vmo_page h c j = vh_mem h f" using vmo_page_up [OF t c(2) p] vmo_page_hit [OF t ps] i f by simp
  have cov: "covers h ?h (asked h)"
    by (rule coversI)
       (use view ps vmo_page_hit [OF t] in \<open>auto simp: fr' page_state_new_def mem intro: asked_start asked_up split: if_splits\<close>)
  have j: "j < len h c" using asked_range [OF c(1) t] .
  have fit: "frame_fits h v i ps" using fo ps by (simp add: frames_ok_def)
  have "ps_frame ps \<noteq> f" using f(1) ps by (auto simp: spare_def)
  then have "frames_ok ?h"
    unfolding copied_def using al cv fit f j nl
    by (intro frames_ok_set fo)
       (auto simp: frame_fits_def spare_def page_state_new_def frame_unique_def fr_set_frame split: if_splits)
  moreover have "c' = c \<and> j' = j" if "children h v = Some lr'" "tag_child lr' t = Some c'" "i = j' + off h c'" for lr' c' j'
    using that t' i by auto
  ultimately show ?thesis
    by (intro unseen_covers [OF cov s t _ split_covers [OF cov s sp]])
       (auto simp: fr' page_state_new_def split: if_splits elim: tag_child.elims)
qed

text \<open>A page appears in a leaf.\<close>

lemma placed_unseen:
  assumes inv: "vmo_inv d h" and v: "leaf h v" "i < len h v" "fr h v i = None" and f: "spare h f" "vh_mem h f = vmo_page h v i"
  shows "unseen d h (set_frame v i (Some (page_state_new f)) h)" (is "unseen d h ?h")
proof -
  have t: "tree_ok d h" and fo: "frames_ok h" and sp: "split_ok h" using inv by (auto simp: vmo_inv_def)
  have al: "shape h v \<noteq> None" using v(1) by (auto simp: leaf_def split: option.splits)
  have s: "same_tree h ?h" by simp
  have cov: "covers h ?h (asked h)"
    by (rule coversI)
       (use f(2) vmo_page_hit [OF t] al in \<open>auto simp: fr_set_frame page_state_new_def intro: asked_start asked_up split: if_splits\<close>)
  have "frames_ok ?h"
    using al v f by (intro frames_ok_set fo) (auto simp: spare_def page_state_new_def frame_unique_def)
  then show ?thesis
    by (intro unseen_covers [OF cov s t _ split_covers [OF cov s sp]])
       (use al in \<open>auto simp: fr_set_frame page_state_new_def split: if_splits elim: tag_child.elims\<close>)
qed

text \<open>Notifications to the mappings.\<close>

lemma changes_unseen: "vmo_inv d h \<Longrightarrow> unseen d h (h\<lparr>vh_changes := cs\<rparr>)" (is "_ \<Longrightarrow> unseen d h ?h")
proof -
  assume inv: "vmo_inv d h"
  then have t: "tree_ok d h" and fo: "frames_ok h" and sp: "split_ok h" by (auto simp: vmo_inv_def)
  have s: "same_tree h ?h" by simp
  have cov: "covers h ?h (asked h)"
    by (rule coversI) (use vmo_page_hit [OF t] in \<open>auto intro: asked_start asked_up\<close>)
  have "frames_ok ?h"
    using fo unfolding frames_ok_def frame_fits_def frame_unique_def supply_ok_def by simp
  then show ?thesis
    by (intro unseen_covers [OF cov s t _ split_covers [OF cov s sp]]) auto
qed

end
