(* ===== verification/Vmo_Commit.thy ===== *)
theory Vmo_Commit
  imports Vmo_Tree
begin

text \<open>
  Committing a page (\<open>commit_page_internal\<close>) returns, does not panic, changes nothing that an object sees, and gives a
  frame with the bytes that the object sees there; for a write, a frame of the object's own.
\<close>

section \<open>A node as the operations read it\<close>

definition hidden_as :: "vmo_heap \<Rightarrow> nat \<Rightarrow> vmo_type \<Rightarrow> bool" where
  "hidden_as h v t \<longleftrightarrow> is_hidden t = (\<not> leaf h v) \<and> (\<forall>l r. t = Hidden l r \<longleftrightarrow> children h v = Some (l, r))"

lemma hidden_asD: "hidden_as h v t \<Longrightarrow> t = Hidden l r \<Longrightarrow> children h v = Some (l, r)" "hidden_as h v t \<Longrightarrow> children h v = Some (l, r) \<Longrightarrow> t = Hidden l r"
  unfolding hidden_as_def by blast+

lemma alive_node:
  assumes "shape h v \<noteq> None"
  obtains x where "vh_vmos h v = Some x" "pv_frames x = fr h v" "pv_parent x = par h v" "hidden_as h v (pv_type x)"
    "pv_offset x div PG = off h v" "pv_size x div PG = len h v" "shape h v = Some (x\<lparr>pv_frames := Map.empty\<rparr>)"
proof -
  obtain x where "vh_vmos h v = Some x" using assms by (auto simp: shape_def)
  then show thesis
    by (intro that [of x])
       (auto simp: shape_def fr_def par_def hidden_as_def leaf_def children_def off_def len_def fun_eq_iff split: vmo_type.splits)
qed

lemma tree_node:
  assumes "tree_ok d h" "shape h v = Some (x\<lparr>pv_frames := m\<rparr>)"
  shows "\<not> pv_contiguous x" "pv_size x mod PG = 0" "pv_size x < 2 ^ 64" "pv_cache x = Cached" "pv_pin_count x = 0"
    "pv_parent x = Some p \<Longrightarrow> parent_ok d h v (x\<lparr>pv_frames := m\<rparr>) p"
  using assms(1) [unfolded tree_ok_def, THEN spec, THEN spec, THEN mp, OF assms(2)] by simp_all

lemma node_run: "vh_vmos h v = Some x \<Longrightarrow> bind (node v) k h = k x h"
  by (simp add: bind_def node_def)

lemma mult_lt_div: "a < b div PG \<Longrightarrow> a * PG < b"
  by (simp add: PG_def)

lemma child_limit:
  assumes "parent_ok d h v x p" "pv_size x mod PG = 0"
  shows "pv_limit x div PG = pv_offset x div PG + pv_size x div PG"
  using assms by (auto simp: parent_ok_def div_add1_eq)

section \<open>Notifications\<close>

lemma node_range_change_ok:
  assumes "tree_ok d h" "shape h v \<noteq> None" "vh_next h \<le> n + d v"
  shows "\<exists>cs. node_range_change n v lo hi op h = Some (Ok (), h\<lparr>vh_changes := cs\<rparr>)"
  using assms
proof (induction n arbitrary: v lo hi h)
  case 0
  then show ?case using tree_alive(2) [OF 0(1,2)] by simp
next
  case (Suc n)
  obtain x where x: "vh_vmos h v = Some x" "hidden_as h v (pv_type x)" by (rule alive_node [OF Suc.prems(2)])
  have sub: "\<exists>cs. node_range_change n c a b op (h\<lparr>vh_changes := ds\<rparr>) = Some (Ok (), h\<lparr>vh_changes := cs\<rparr>)"
    if "par h c = Some v" for c a b ds
  proof -
    have "tree_ok d (h\<lparr>vh_changes := ds\<rparr>)" using Suc.prems(1) by (simp add: tree_ok_same [OF same_tree_fields(3)])
    then show ?thesis using Suc.IH [of "h\<lparr>vh_changes := ds\<rparr>" c a b] tree_up [OF Suc.prems(1) that] Suc.prems(3) by auto
  qed
  have self: "\<exists>cs. h = h\<lparr>vh_changes := cs\<rparr>" by (rule exI [of _ "vh_changes h"]) simp
  show ?case
  proof (cases "pv_type x")
    case (Hidden l r)
    then have "children h v = Some (l, r)" using hidden_asD(1) [OF x(2)] by simp
    note ch = tree_children [OF Suc.prems(1) this]
    have "\<exists>cs. bind (node_range_change n l a b op) (\<lambda>_. node_range_change n r a b op) (h\<lparr>vh_changes := ds\<rparr>) = Some (Ok (), h\<lparr>vh_changes := cs\<rparr>)"
      for a b ds using sub [OF ch(1), of a b ds] sub [OF ch(2), of a b] by (auto simp: bind_def)
    then show ?thesis using Hidden x(1) self by (auto simp: node_run notify_def bind_def [of "notify _"] ret_def)
  qed (use self in \<open>auto simp: node_run x(1) notify_def bind_def [of "notify _"] ret_def\<close>)
qed

section \<open>What a commit at an inner node does for the child that asks\<close>

definition keeps :: "(nat \<Rightarrow> nat) \<Rightarrow> nat \<Rightarrow> vmo_heap \<Rightarrow> vmo_heap \<Rightarrow> bool" where
  "keeps d v h h' \<longleftrightarrow> (\<forall>n. d v < d n \<longrightarrow> fr h' n = fr h n)"

definition inner_post :: "(nat \<Rightarrow> nat) \<Rightarrow> nat \<Rightarrow> bool \<Rightarrow> nat \<Rightarrow> nat \<Rightarrow> vmo_heap \<Rightarrow> commit_result zx_result \<Rightarrow> vmo_heap \<Rightarrow> bool" where
  "inner_post d v w c j h r h' \<longleftrightarrow>
     keeps d v h h' \<and>
     (case r of
        Ok (Ref pa) \<Rightarrow> unseen d h h' \<and> \<not> w \<and> vh_mem h' pa = vmo_page h c j
      | Ok (CopyOnWrite f u) \<Rightarrow> unseen d h (set_frame c j (Some (page_state_new f)) h')
      | Ok (NewPage f) \<Rightarrow> unseen d h h' \<and> w \<and> spare h' f \<and> vh_mem h' f = (\<lambda>_. 0) \<and> vmo_page h c j = (\<lambda>_. 0)
      | Err e \<Rightarrow> unseen d h h' \<and> e = NO_MEMORY \<and> w
      | Panic \<Rightarrow> False)"

lemma keeps_trans: "keeps d v h h' \<Longrightarrow> keeps d v h' h'' \<Longrightarrow> keeps d v h h''"
  by (simp add: keeps_def)

lemma inner_post_trans:
  assumes "inner_post d v w c j h' r h''" "unseen d h h'" "keeps d v h h'" "vmo_page h' c j = vmo_page h c j"
  shows "inner_post d v w c j h r h''"
  using assms unfolding inner_post_def
  by (auto intro: unseen_trans keeps_trans split: result.splits commit_result.splits)

text \<open>A request that reached a child still does when only frames further up have changed.\<close>

lemma asks_keep:
  assumes "asks h w m c j" "same_tree h h'" "tree_ok d h" "\<And>n. d c < d n \<Longrightarrow> fr h' n = fr h n"
  shows "asks h' w m c j"
  using assms(1,4)
proof (induction rule: asks.induct)
  case asks_start
  show ?case by (rule asks.asks_start)
next
  case (asks_up c j p)
  have dp: "d p < d c" using tree_up [OF assms(3) asks_up(3)] by simp
  then have "asks h' w m c j" "fr h' c = fr h c" using asks_up by auto
  then show ?case using asks.asks_up [of h' w m c j p] asks_up(2,3) by (simp add: same_tree_simps [OF assms(2)])
qed

lemma asks_view: "asks h w m c j \<Longrightarrow> tree_ok d h \<Longrightarrow> vmo_page h w m = vmo_page h c j"
proof (induction rule: asks.induct)
  case (asks_up c j p)
  then show ?case using vmo_page_up [of d h c j p] by simp
qed simp

lemma asked_keep:
  assumes "unseen d h h'" "keeps d v h h'" "tree_ok d h" "par h c = Some v" "asked h c j"
  shows "asked h' c j" "vmo_page h' c j = vmo_page h c j"
proof -
  obtain w m where w: "leaf h w" "m < len h w" "asks h w m c j" using assms(5) by (auto simp: asked_def)
  have s: "same_tree h h'" and t': "tree_ok d h'" using assms(1) by (auto simp: unseen_def vmo_inv_def)
  have a: "asks h' w m c j"
    using tree_up(3) [OF assms(3,4)] assms(2) by (intro asks_keep [OF w(3) s assms(3)]) (auto simp: keeps_def)
  then show "asked h' c j" using w by (auto simp: asked_def same_tree_simps [OF s])
  show "vmo_page h' c j = vmo_page h c j"
    using asks_view [OF a t'] asks_view [OF w(3) assms(3)] assms(1) w by (simp add: unseen_def)
qed

text \<open>The request that an inner node answers.\<close>

definition request :: "(nat \<Rightarrow> nat) \<Rightarrow> vmo_heap \<Rightarrow> nat \<Rightarrow> nat \<Rightarrow> nat \<Rightarrow> nat \<Rightarrow> bool" where
  "request d h v i c j \<longleftrightarrow> vmo_inv d h \<and> par h c = Some v \<and> i = j + off h c \<and> asked h c j \<and> fr h c j = None"

lemma request_tree: "request d h v i c j \<Longrightarrow> tree_ok d h" by (simp add: request_def vmo_inv_def)

lemma request_view: "request d h v i c j \<Longrightarrow> vmo_page h c j = vmo_page h v i"
  using vmo_page_up [of d h c j v] by (simp add: request_def vmo_inv_def)

lemma request_asked: "request d h v i c j \<Longrightarrow> asked h v i"
  using asked_up [of h c j v] by (simp add: request_def)

lemma request_keep:
  assumes r: "request d h v i c j" and u: "unseen d h h'" and k: "keeps d v h h'"
  shows "request d h' v i c j" "vmo_page h' c j = vmo_page h c j"
  using r u k asked_keep [OF u k request_tree [OF r], of c j] tree_up(3) [OF request_tree [OF r], of c v]
  by (simp_all add: request_def unseen_def same_tree_simps [of h h'] keeps_def)

lemma changes_keep:
  assumes "request d h v i c j"
  shows "request d (h\<lparr>vh_changes := cs\<rparr>) v i c j" "inner_post d v w c j (h\<lparr>vh_changes := cs\<rparr>) r h' \<Longrightarrow> inner_post d v w c j h r h'"
proof -
  have u: "unseen d h (h\<lparr>vh_changes := cs\<rparr>)" using assms by (intro changes_unseen) (simp add: request_def)
  have k: "keeps d v h (h\<lparr>vh_changes := cs\<rparr>)" by (simp add: keeps_def)
  show "request d (h\<lparr>vh_changes := cs\<rparr>) v i c j" by (rule request_keep [OF assms u k])
  show "inner_post d v w c j (h\<lparr>vh_changes := cs\<rparr>) r h' \<Longrightarrow> inner_post d v w c j h r h'"
    using inner_post_trans [OF _ u k] request_keep(2) [OF assms u k] by blast
qed

lemma set_frame_keeps: "shape h v \<noteq> None \<Longrightarrow> keeps d v h (set_frame v i ps h)"
  by (auto simp: keeps_def fr_set_frame fun_eq_iff)

lemma take_frame_inner:
  assumes r: "request d h v i c j" and ps: "fr h v i = Some ps"
    and other: "\<And>e k. par h e = Some v \<Longrightarrow> i = k + off h e \<Longrightarrow> asked h e k \<Longrightarrow> fr h e k = None \<Longrightarrow> e = c"
  shows "\<exists>r h'. take_frame v i u h = Some (r, h') \<and> inner_post d v w c j h r h'"
proof -
  obtain x where x: "vh_vmos h v = Some x" "pv_frames x = fr h v" by (rule alive_node [OF fr_alive [OF ps]])
  have "unseen d h (moved c j v i (ps_frame ps) h)"
    using r other ps by (intro moved_unseen) (auto simp: request_def)
  then show ?thesis
    using x ps set_frame_keeps [OF fr_alive [OF ps]]
    by (simp add: take_frame_def node_run inner_post_def moved_def)
qed

lemma copy_inner:
  assumes r: "request d h v i c j" and ps: "fr h v i = Some ps" "ps_tag ps = Owned" and lr: "children h v = Some lr" "tag_child lr t = Some c"
    and f: "vh_supply h = f # fs"
  shows "inner_post d v True c j h (Ok (CopyOnWrite f True))
    (set_frame v i (Some (ps\<lparr>ps_tag := t\<rparr>)) (h\<lparr>vh_supply := fs, vh_mem := (vh_mem h)(f := vh_mem h (ps_frame ps))\<rparr>))"
proof -
  define h2 where "h2 = h\<lparr>vh_supply := fs, vh_mem := (vh_mem h)(f := vh_mem h (ps_frame ps))\<rparr>"
  have inv: "vmo_inv d h" using r by (simp add: request_def)
  have u2: "unseen d h h2" and s2: "spare h2 f" unfolding h2_def by (rule spare_unseen [OF inv f])+
  have k2: "keeps d v h h2" by (simp add: keeps_def h2_def)
  have r2: "request d h2 v i c j" by (rule request_keep [OF r u2 k2])
  have p2: "fr h2 v i = Some ps" "shape h2 v \<noteq> None" "children h2 v = Some lr" using ps fr_alive [OF ps(1)] lr(1) by (simp_all add: h2_def)
  have "unseen d h2 (copied c j v i (ps\<lparr>ps_tag := t\<rparr>) f h2)"
    using r2 p2 lr(2) ps(2) s2 unfolding request_def by (intro copied_unseen) (auto simp: h2_def)
  then have "unseen d h (set_frame c j (Some (page_state_new f)) (set_frame v i (Some (ps\<lparr>ps_tag := t\<rparr>)) h2))"
    using unseen_trans [OF u2] by (simp add: copied_def)
  then show ?thesis
    using keeps_trans [OF k2 set_frame_keeps [OF p2(2)]] by (simp add: inner_post_def h2_def)
qed

lemma commit_owned_inner:
  assumes r: "request d h v i c j" and ps: "fr h v i = Some ps" and lr: "children h v = Some lr" "tag_child lr t = Some c"
  shows "\<exists>r h'. commit_owned v i w t u h = Some (r, h') \<and> inner_post d v w c j h r h'"
proof -
  have al: "shape h v \<noteq> None" by (rule fr_alive [OF ps])
  obtain x where x: "vh_vmos h v = Some x" "pv_frames x = fr h v" by (rule alive_node [OF al])
  define cs where "cs = vh_changes h @ (if u then mapping_changes (pv_mappings x) i 1 RangeUnmap else [])"
  define h1 where "h1 = h\<lparr>vh_changes := cs\<rparr>"
  have r1: "request d h1 v i c j" unfolding h1_def by (rule changes_keep [OF r])
  have f1: "fr h1 = fr h" "vh_vmos h1 v = Some x" "children h1 = children h" "shape h1 v \<noteq> None" using x al by (simp_all add: h1_def)
  have inv: "vmo_inv d h1" using r1 by (simp add: request_def)
  have run: "commit_owned v i w t u h =
      (if is_split (ps_tag ps) then take_frame v i u
       else if w \<and> is_split t then bind frame_new (\<lambda>f. bind (pmem_copy f (ps_frame ps)) (\<lambda>_ h. Some (Ok (CopyOnWrite f True), set_frame v i (Some (ps\<lparr>ps_tag := t\<rparr>)) h)))
       else ret (Ref (ps_frame ps))) h1"
    using x ps by (simp add: commit_owned_def node_run notify_def bind_def [of "notify _"] h1_def cs_def)
  have ts: "is_split t" using lr(2) by (cases t; cases lr) (auto simp: is_split_def)
  have "\<exists>r h'. commit_owned v i w t u h = Some (r, h') \<and> inner_post d v w c j h1 r h'"
  proof (cases "is_split (ps_tag ps)")
    case True
    have "e = c" if e: "par h1 e = Some v" "i = k + off h1 e" "asked h1 e k" "fr h1 e k = None" for e k
    proof -
      obtain l r where l: "lr = (l, r)" by (cases lr)
      have tr: "tree_ok d h1" by (rule request_tree [OF r1])
      have "par h1 c = Some v" using r1 by (simp add: request_def)
      then have "e = l \<or> e = r" "c = l \<or> c = r" using par_child [OF tr _ e(1)] par_child [OF tr] lr(1) f1 l by auto
      moreover have "tag_child lr (ps_tag ps) \<noteq> Some e" "tag_child lr (ps_tag ps) \<noteq> Some c"
        using inv e r1 lr(1) ps f1 unfolding vmo_inv_def split_ok_def request_def by metis+
      ultimately show ?thesis using True l by (cases "ps_tag ps") (auto simp: is_split_def)
    qed
    then show ?thesis using take_frame_inner [OF r1, of ps u w] ps f1 True run by auto
  next
    case False
    then have own: "ps_tag ps = Owned" by (simp add: is_split_def)
    show ?thesis
    proof (cases w)
      case False
      then show ?thesis
        using run own ps f1 request_view [OF r1] vmo_page_hit [OF request_tree [OF r1], of v i ps] unseen_refl [OF inv]
        by (auto simp: is_split_def ret_def inner_post_def keeps_def)
    next
      case True
      show ?thesis
      proof (cases "vh_supply h1")
        case Nil
        then show ?thesis using run own True ts unseen_refl [OF inv]
          by (auto simp: is_split_def bind_def frame_new_def inner_post_def keeps_def)
      next
        case (Cons f fs)
        then show ?thesis
          using run own True ts copy_inner [OF r1 _ own _ lr(2) Cons] ps f1 lr(1)
          by (simp add: is_split_def bind_def frame_new_def pmem_copy_def)
      qed
    qed
  qed
  then show ?thesis using changes_keep(2) [OF r] unfolding h1_def by blast
qed

text \<open>The tag of a child and its sibling.\<close>

lemma get_tag_child:
  assumes t: "tree_ok d h" and p: "par h c = Some v" and ty: "hidden_as h v ty"
  obtains tag e lr where "get_tag_and_other ty (Some c) = (tag, Some e)" "children h v = Some lr" "tag_child lr tag = Some c"
    "par h e = Some v" "\<And>n. par h n = Some v \<Longrightarrow> n = c \<or> n = e" "is_hidden ty"
proof -
  obtain l r where lr: "children h v = Some (l, r)" "l \<noteq> r" "c = l \<or> c = r" by (rule tree_par [OF t p])
  have ty': "ty = Hidden l r" by (rule hidden_asD(2) [OF ty lr(1)])
  note ch = tree_children [OF t lr(1)] par_child [OF t lr(1)]
  show thesis
  proof (cases "c = l")
    case True
    then show ?thesis using that [of LeftSplit r "(l, r)"] lr ty' ch by auto
  next
    case False
    then show ?thesis using that [of RightSplit l "(l, r)"] lr ty' ch by auto
  qed
qed

lemma commit_hit_inner:
  assumes r: "request d h v i c j" and ps: "fr h v i = Some ps"
  shows "\<exists>r h'. commit_hit v i w (Some c) u h = Some (r, h') \<and> inner_post d v w c j h r h'"
proof -
  have t: "tree_ok d h" and p: "par h c = Some v" using r by (auto simp: request_def vmo_inv_def)
  obtain x where x: "vh_vmos h v = Some x" "hidden_as h v (pv_type x)" by (rule alive_node [OF fr_alive [OF ps]])
  obtain tag e lr where e: "get_tag_and_other (pv_type x) (Some c) = (tag, Some e)" "children h v = Some lr" "tag_child lr tag = Some c"
    "par h e = Some v" "\<And>n. par h n = Some v \<Longrightarrow> n = c \<or> n = e" "is_hidden (pv_type x)"
    by (rule get_tag_child [OF t p x(2)]) blast
  have al: "shape h e \<noteq> None" by (rule par_alive [OF e(4)])
  obtain ex where ex: "vh_vmos h e = Some ex" "pv_parent ex = par h e" "pv_offset ex div PG = off h e" "pv_size ex div PG = len h e"
    "shape h e = Some (ex\<lparr>pv_frames := Map.empty\<rparr>)" by (rule alive_node [OF al])
  have lim: "pv_limit ex div PG = off h e + len h e"
    using child_limit [of d h e "ex\<lparr>pv_frames := Map.empty\<rparr>" v] tree_node [OF t ex(5)] ex e(4) by simp
  have run: "commit_hit v i w (Some c) u h =
      (if off h e \<le> i \<and> i < off h e + len h e then
         bind (if u then (\<lambda>h. node_range_change (vh_next h) e (usz (i * PG)) (usz ((1 + i) * PG)) RangeUnmap h) else ret ())
           (\<lambda>_. commit_owned v i w tag u)
       else take_frame v i u) h"
    using x(1) e(1,6) ex lim by (simp add: commit_hit_def node_run)
  show ?thesis
  proof (cases "off h e \<le> i \<and> i < off h e + len h e")
    case True
    obtain cs where "node_range_change (vh_next h) e (usz (i * PG)) (usz ((1 + i) * PG)) RangeUnmap h = Some (Ok (), h\<lparr>vh_changes := cs\<rparr>)"
      using node_range_change_ok [OF t al] by fastforce
    then obtain ds where ds: "commit_hit v i w (Some c) u h = commit_owned v i w tag u (h\<lparr>vh_changes := ds\<rparr>)"
      using True run by (cases u) (auto simp: bind_def ret_def intro: that [of "vh_changes h"])
    note r' = changes_keep(1) [OF r, of ds]
    have "\<exists>r h'. commit_owned v i w tag u (h\<lparr>vh_changes := ds\<rparr>) = Some (r, h') \<and> inner_post d v w c j (h\<lparr>vh_changes := ds\<rparr>) r h'"
      by (rule commit_owned_inner [OF r', of ps lr tag]) (use ps e(2,3) in simp_all)
    then show ?thesis using changes_keep(2) [OF r] ds by auto
  next
    case False
    have "n = c" if "par h n = Some v" "i = k + off h n" "asked h n k" for n k
      using e(5) [OF that(1)] False asked_range [OF that(3) t] that(2) by auto
    then show ?thesis using take_frame_inner [OF r ps] run False by auto
  qed
qed

lemma out_of_range_request:
  assumes "tree_ok d h" "hidden_as h v (pv_type x)" "pv_size x div PG = len h v" "\<not> leaf h v" "i < len h v"
  shows "\<not> out_of_range x i"
  using assms by (simp add: out_of_range_def hidden_as_def)

lemma usz_page: "n < len h p \<Longrightarrow> tree_ok d h \<Longrightarrow> usz n = n"
proof -
  assume a: "n < len h p" "tree_ok d h"
  then obtain px where "shape h p = Some px" by (cases "shape h p") (auto simp: len_def)
  then have "pv_size px < 2 ^ 64" "n < pv_size px div PG" using a by (auto simp: tree_ok_def len_def)
  then have "n < 2 ^ 64" using div_le_dividend [of "pv_size px" PG] by linarith
  then show ?thesis by (simp add: usz_def)
qed

lemma commit_fresh_inner:
  assumes r: "request d h v i c j" and n: "fr h v i = None" "par h v = None"
  shows "\<exists>r h'. commit_fresh v i w (Some c) h = Some (r, h') \<and> inner_post d v w c j h r h'"
proof -
  have t: "tree_ok d h" and p: "par h c = Some v" and inv: "vmo_inv d h" using r by (auto simp: request_def vmo_inv_def)
  note up = tree_up [OF t p]
  obtain x where x: "vh_vmos h v = Some x" "hidden_as h v (pv_type x)" "pv_size x div PG = len h v" by (rule alive_node [OF up(2)])
  have out: "\<not> out_of_range x i" using asked_range [OF request_asked [OF r] t] by (intro out_of_range_request [OF t x(2,3) up(5)])
  have view: "vmo_page h c j = (\<lambda>_. 0)" using request_view [OF r] vmo_page_none [OF t n] by simp
  have hid: "is_hidden (pv_type x)" using x(2) up(5) by (simp add: hidden_as_def)
  have zero: "vh_mem h ZERO_FRAME = (\<lambda>_. 0)" using inv by (simp add: vmo_inv_def frames_ok_def supply_ok_def)
  show ?thesis
  proof (cases "w \<and> vh_supply h \<noteq> []")
    case False
    then show ?thesis using x(1) view zero unseen_refl [OF inv]
      by (cases w) (simp_all add: commit_fresh_def node_run frame_new_zero_def frame_new_def bind_def [of frame_new] bind_def [of "bind frame_new _"] ret_def inner_post_def keeps_def)
  next
    case True
    then obtain f fs where f: "vh_supply h = f # fs" by (cases "vh_supply h") auto
    show ?thesis
      using x(1) view hid out True spare_unseen [OF inv f, of "\<lambda>_. 0"] f
      by (simp add: commit_fresh_def node_run frame_new_zero_def frame_new_def bind_def [of frame_new] bind_def [of "bind frame_new _"] ret_def inner_post_def keeps_def)
  qed
qed

text \<open>What the parent has found is passed on to the child, after this node has kept its part.\<close>

lemma from_parent_inner:
  assumes r: "request d h v i c j" and q: "par h v = Some q" and n: "fr h v i = None" and post: "inner_post d q w v i h (Ok rr) h1"
  shows "\<exists>r h'. commit_from_parent v i q k w (Some c) rr h1 = Some (r, h') \<and> inner_post d v w c j h r h'"
proof -
  have t: "tree_ok d h" and p: "par h c = Some v" using r by (auto simp: request_def vmo_inv_def)
  have "d q < d v" using tree_up(3) [OF t q] .
  then have k: "keeps d v h h1" using post by (auto simp: inner_post_def keeps_def)
  have view: "vmo_page h c j = vmo_page h v i" by (rule request_view [OF r])
  have s: "shape h1 = shape h" using post by (auto simp: inner_post_def unseen_def same_tree_def split: commit_result.splits)
  then have al: "shape h1 v \<noteq> None" using tree_up(2) [OF t p] by simp
  obtain x where x: "vh_vmos h1 v = Some x" "hidden_as h1 v (pv_type x)" "shape h1 v = Some (x\<lparr>pv_frames := Map.empty\<rparr>)"
    by (rule alive_node [OF al])
  have "leaf h1 v = leaf h v" by (simp add: leaf_def s)
  then have hid: "is_hidden (pv_type x)" using x(2) tree_up(5) [OF t p] by (simp add: hidden_as_def)
  have nc: "\<not> pv_contiguous x" by (rule tree_node(1) [OF t x(3) [unfolded s]])
  show ?thesis
  proof (cases rr)
    case (CopyOnWrite f u)
    define h2 where "h2 = set_frame v i (Some (page_state_new f)) h1"
    have u2: "unseen d h h2" using post CopyOnWrite by (simp add: inner_post_def h2_def)
    have k2: "keeps d v h h2" unfolding h2_def using keeps_trans [OF k set_frame_keeps [OF al]] .
    note r2 = request_keep [OF r u2 k2]
    have "fr h2 v i = Some (page_state_new f)" using al by (simp add: h2_def fr_set_frame)
    from commit_hit_inner [OF r2(1) this, of w u] obtain r' h' where
      "commit_hit v i w (Some c) u h2 = Some (r', h')" "inner_post d v w c j h2 r' h'" by blast
    then show ?thesis
      using CopyOnWrite x(1) nc inner_post_trans [OF _ u2 k2 r2(2)] by (simp add: commit_from_parent_def node_run h2_def)
  qed (use post x(1) hid view k in \<open>simp_all add: commit_from_parent_def node_run ret_def inner_post_def\<close>)
qed

lemma commit_inner:
  assumes "request d h v i c j" "d v < n"
  shows "\<exists>r h'. commit_page_internal n v i w (Some c) h = Some (r, h') \<and> inner_post d v w c j h r h'"
  using assms
proof (induction n arbitrary: h v i c j)
  case 0
  then show ?case by simp
next
  case (Suc n)
  note r = Suc.prems(1)
  have t: "tree_ok d h" and p: "par h c = Some v" using r by (auto simp: request_def vmo_inv_def)
  note up = tree_up [OF t p]
  obtain x where x: "vh_vmos h v = Some x" "pv_frames x = fr h v" "pv_parent x = par h v" "hidden_as h v (pv_type x)" "pv_offset x div PG = off h v"
    "pv_size x div PG = len h v" "shape h v = Some (x\<lparr>pv_frames := Map.empty\<rparr>)" by (rule alive_node [OF up(2)])
  show ?case
  proof (cases "fr h v i")
    case (Some ps)
    then show ?thesis using commit_hit_inner [OF r Some, of w False] x by (simp add: node_run)
  next
    case None
    show ?thesis
    proof (cases "par h v")
      case None': None
      then show ?thesis using commit_fresh_inner [OF r None] x None by (simp add: node_run)
    next
      case (Some q)
      have i: "asked h v i" "i < len h v" using request_asked [OF r] asked_range [OF request_asked [OF r] t] by auto
      have rq: "request d h q (i + off h v) v i" using r Some None i by (simp add: request_def)
      have pi: "usz (i + off h v) = i + off h v"
        using asked_range [OF request_asked [OF rq] t] t by (rule usz_page)
      have "\<not> out_of_range x i" using out_of_range_request [OF t x(4,6) up(5) i(2)] .
      then have run: "commit_page_internal (Suc n) v i w (Some c) h =
          bind (commit_page_internal n q (i + off h v) w (Some v)) (commit_from_parent v i q (i + off h v) w (Some c)) h"
        using x None Some pi by (simp add: node_run)
      have "d q < n" using tree_up(3) [OF t Some] Suc.prems(2) by simp
      from Suc.IH [OF rq this] obtain r1 h1 where
        r1: "commit_page_internal n q (i + off h v) w (Some v) h = Some (r1, h1)" "inner_post d q w v i h r1 h1" by blast
      show ?thesis
      proof (cases r1)
        case (Ok rr)
        then show ?thesis using from_parent_inner [OF r Some None, of w rr h1] r1 run by (simp add: bind_def)
      next
        case (Err e)
        then show ?thesis using r1 run tree_up(3) [OF t Some] by (auto simp: bind_def inner_post_def keeps_def)
      qed (use r1 in \<open>simp add: inner_post_def\<close>)
    qed
  qed
qed

section \<open>Committing a page of an object\<close>

definition leaf_post :: "(nat \<Rightarrow> nat) \<Rightarrow> nat \<Rightarrow> nat \<Rightarrow> bool \<Rightarrow> vmo_heap \<Rightarrow> commit_result zx_result \<Rightarrow> vmo_heap \<Rightarrow> bool" where
  "leaf_post d v i w h r h' \<longleftrightarrow>
     unseen d h h' \<and>
     (case r of
        Ok (Ref pa) \<Rightarrow> vh_mem h' pa = vmo_page h v i \<and> (w \<longrightarrow> (\<exists>ps. fr h' v i = Some ps \<and> ps_frame ps = pa))
      | Err e \<Rightarrow> e = NO_MEMORY \<and> w
      | _ \<Rightarrow> False)"

lemma leaf_post_trans:
  assumes "leaf_post d v i w h' r h''" "unseen d h h'" "leaf h v" "i < len h v"
  shows "leaf_post d v i w h r h''"
proof -
  have "vmo_page h' v i = vmo_page h v i" using assms(2-4) by (simp add: unseen_def)
  then show ?thesis using assms(1,2) unfolding leaf_post_def
    by (auto intro: unseen_trans split: result.splits commit_result.splits)
qed

lemma leaf_alive: "leaf h v \<Longrightarrow> shape h v \<noteq> None"
  by (auto simp: leaf_def split: option.splits)

lemma leaf_tag: "hidden_as h v t \<Longrightarrow> leaf h v \<Longrightarrow> get_tag_and_other t c = (Owned, None) \<and> \<not> is_hidden t"
  by (cases t) (auto simp: hidden_as_def)

lemma commit_hit_leaf:
  assumes inv: "vmo_inv d h" and v: "leaf h v" and ps: "fr h v i = Some ps"
  shows "\<exists>r h'. commit_hit v i w None u h = Some (r, h') \<and> leaf_post d v i w h r h'"
proof -
  obtain x where x: "vh_vmos h v = Some x" "hidden_as h v (pv_type x)" "pv_frames x = fr h v" by (rule alive_node [OF leaf_alive [OF v]])
  have t: "tree_ok d h" and own: "ps_tag ps = Owned"
    using inv ps v by (auto simp: vmo_inv_def frames_ok_def frame_fits_def)
  define cs where "cs = vh_changes h @ (if u then mapping_changes (pv_mappings x) i 1 RangeUnmap else [])"
  have "commit_hit v i w None u h = Some (Ok (Ref (ps_frame ps)), h\<lparr>vh_changes := cs\<rparr>)"
    using x leaf_tag [OF x(2) v, of None] ps own
    by (simp add: commit_hit_def node_run commit_owned_def notify_def bind_def [of "notify _"] cs_def is_split_def ret_def)
  then show ?thesis
    using changes_unseen [OF inv, of cs] vmo_page_hit [OF t ps] ps by (simp add: leaf_post_def)
qed

text \<open>A frame placed in the object, and then found there.\<close>

lemma commit_placed_leaf:
  assumes "unseen d h (set_frame v i (Some (page_state_new f)) h')" "leaf h v" "i < len h v"
  shows "\<exists>r h''. commit_hit v i w None u (set_frame v i (Some (page_state_new f)) h') = Some (r, h'') \<and> leaf_post d v i w h r h''"
proof -
  let ?h = "set_frame v i (Some (page_state_new f)) h'"
  have s: "shape h' = shape h" using assms(1) by (simp add: unseen_def same_tree_def)
  have l: "leaf ?h v" using assms(2) by (simp add: leaf_def s)
  have "fr ?h v i = Some (page_state_new f)" using leaf_alive [OF assms(2)] by (simp add: fr_set_frame s)
  moreover have "vmo_inv d ?h" using assms(1) by (simp add: unseen_def)
  ultimately show ?thesis using commit_hit_leaf [OF _ l] leaf_post_trans [OF _ assms] by blast
qed

lemma spare_zero:
  assumes "vmo_inv d h" "vh_supply h = f # fs"
  shows "frame_new_zero h = Some (Ok f, h\<lparr>vh_supply := fs, vh_mem := (vh_mem h)(f := \<lambda>_. 0)\<rparr>)"
  using assms by (simp add: frame_new_zero_def frame_new_def bind_def)

lemma commit_fresh_leaf:
  assumes inv: "vmo_inv d h" and v: "leaf h v" "i < len h v" and n: "fr h v i = None" "par h v = None"
  shows "\<exists>r h'. commit_fresh v i w None h = Some (r, h') \<and> leaf_post d v i w h r h'"
proof -
  have t: "tree_ok d h" using inv by (simp add: vmo_inv_def)
  obtain x where x: "vh_vmos h v = Some x" "hidden_as h v (pv_type x)" by (rule alive_node [OF leaf_alive [OF v(1)]])
  have view: "vmo_page h v i = (\<lambda>_. 0)" by (rule vmo_page_none [OF t n])
  have zero: "vh_mem h ZERO_FRAME = (\<lambda>_. 0)" using inv by (simp add: vmo_inv_def frames_ok_def supply_ok_def)
  show ?thesis
  proof (cases "w \<and> vh_supply h \<noteq> []")
    case False
    then show ?thesis using x(1) view zero unseen_refl [OF inv]
      by (cases w) (simp_all add: commit_fresh_def node_run frame_new_zero_def frame_new_def bind_def [of frame_new] bind_def [of "bind frame_new _"] ret_def leaf_post_def)
  next
    case True
    then obtain f fs where f: "vh_supply h = f # fs" by (cases "vh_supply h") auto
    let ?h = "h\<lparr>vh_supply := fs, vh_mem := (vh_mem h)(f := \<lambda>_. 0)\<rparr>"
    have u: "unseen d h ?h" "spare ?h f" by (rule spare_unseen [OF inv f])+
    have "vmo_page ?h v i = (\<lambda>_. 0)" using u(1) v view by (simp add: unseen_def)
    then have "unseen d ?h (set_frame v i (Some (page_state_new f)) ?h)"
      using u v n(1) by (intro placed_unseen) (simp_all add: unseen_def)
    then have "unseen d h (set_frame v i (Some (page_state_new f)) ?h)" by (rule unseen_trans [OF u(1)])
    from commit_placed_leaf [OF this v, of w False] show ?thesis
      using x(1) leaf_tag [OF x(2) v(1), of None] True spare_zero [OF inv f]
      by (simp add: commit_fresh_def node_run bind_def [of frame_new_zero])
  qed
qed

lemma from_parent_leaf:
  assumes inv: "vmo_inv d h" and v: "leaf h v" "i < len h v" and q: "par h v = Some q" "fr h v i = None"
    and post: "inner_post d q w v i h (Ok rr) h1"
  shows "\<exists>r h'. commit_from_parent v i q k w None rr h1 = Some (r, h') \<and> leaf_post d v i w h r h'"
proof -
  have t: "tree_ok d h" using inv by (simp add: vmo_inv_def)
  have k: "fr h1 v = fr h v" using post tree_up(3) [OF t q(1)] by (simp add: inner_post_def keeps_def)
  have s: "shape h1 = shape h" using post by (auto simp: inner_post_def unseen_def same_tree_def split: commit_result.splits)
  then have al: "shape h1 v \<noteq> None" using leaf_alive [OF v(1)] by simp
  obtain x where x: "vh_vmos h1 v = Some x" "hidden_as h1 v (pv_type x)" "shape h1 v = Some (x\<lparr>pv_frames := Map.empty\<rparr>)"
    by (rule alive_node [OF al])
  have "leaf h1 v" using v(1) by (simp add: leaf_def s)
  then have hid: "\<not> is_hidden (pv_type x)" using leaf_tag [OF x(2)] by simp
  have nc: "\<not> pv_contiguous x" by (rule tree_node(1) [OF t x(3) [unfolded s]])
  show ?thesis
  proof (cases rr)
    case (Ref pa)
    then show ?thesis using post x(1) by (simp add: commit_from_parent_def node_run ret_def inner_post_def leaf_post_def)
  next
    case (CopyOnWrite f u)
    then have "unseen d h (set_frame v i (Some (page_state_new f)) h1)" using post by (simp add: inner_post_def)
    from commit_placed_leaf [OF this v, of w u] show ?thesis
      using CopyOnWrite x(1) nc by (simp add: commit_from_parent_def node_run)
  next
    case (NewPage f)
    then have n: "unseen d h h1" "spare h1 f" "vh_mem h1 f = vmo_page h v i" using post by (simp_all add: inner_post_def)
    then have "unseen d h1 (set_frame v i (Some (page_state_new f)) h1)"
      using v q(2) k by (intro placed_unseen) (auto simp: unseen_def same_tree_simps [of h h1])
    from commit_placed_leaf [OF unseen_trans [OF n(1) this] v, of w False] show ?thesis
      using NewPage x(1) hid by (simp add: commit_from_parent_def node_run)
  qed
qed

lemma leaf_in_range:
  assumes t: "tree_ok d h" and v: "leaf h v" "i < len h v" and q: "par h v = Some q"
    and x: "hidden_as h v (pv_type x)" "pv_parent x = par h v" "pv_size x div PG = len h v" "shape h v = Some (x\<lparr>pv_frames := Map.empty\<rparr>)"
  shows "\<not> out_of_range x i"
proof -
  have p: "parent_ok d h v (x\<lparr>pv_frames := Map.empty\<rparr>) q" using tree_node(6) [OF t x(4)] x(2) q by simp
  then obtain qx where qx: "shape h q = Some qx" "pv_limit x = pv_offset x + pv_size x" "pv_limit x \<le> pv_size qx"
    by (auto simp: parent_ok_def)
  have "pv_size qx < 2 ^ 64" using t qx(1) by (simp add: tree_ok_def)
  moreover have "i * PG < pv_size x" using v(2) x(3) by (intro mult_lt_div) simp
  ultimately have "usz (pv_offset x + usz (i * PG)) < pv_limit x" using qx by (simp add: usz_def)
  then show ?thesis using leaf_tag [OF x(1) v(1)] x(2) q by (simp add: out_of_range_def)
qed

lemma commit_leaf:
  assumes inv: "vmo_inv d h" and v: "leaf h v" "i < len h v" and n: "d v < n"
  shows "\<exists>r h'. commit_page_internal n v i w None h = Some (r, h') \<and> leaf_post d v i w h r h'"
proof -
  have t: "tree_ok d h" using inv by (simp add: vmo_inv_def)
  obtain m where m: "n = Suc m" using n by (cases n) auto
  obtain x where x: "vh_vmos h v = Some x" "pv_frames x = fr h v" "pv_parent x = par h v" "hidden_as h v (pv_type x)" "pv_offset x div PG = off h v"
    "pv_size x div PG = len h v" "shape h v = Some (x\<lparr>pv_frames := Map.empty\<rparr>)" by (rule alive_node [OF leaf_alive [OF v(1)]])
  show ?thesis
  proof (cases "fr h v i")
    case (Some ps)
    then show ?thesis using commit_hit_leaf [OF inv v(1) Some, of w False] x m by (simp add: node_run)
  next
    case None
    show ?thesis
    proof (cases "par h v")
      case None': None
      then show ?thesis using commit_fresh_leaf [OF inv v None] x None m by (simp add: node_run)
    next
      case (Some q)
      have rq: "request d h q (i + off h v) v i" using inv Some None asked_start [OF v] by (simp add: request_def)
      have pi: "usz (i + off h v) = i + off h v"
        using asked_range [OF request_asked [OF rq] t] t by (rule usz_page)
      have run: "commit_page_internal n v i w None h =
          bind (commit_page_internal m q (i + off h v) w (Some v)) (commit_from_parent v i q (i + off h v) w None) h"
        using x None Some pi m leaf_in_range [OF t v Some x(4,3,6,7)] by (simp add: node_run)
      have "d q < m" using tree_up(3) [OF t Some] n m by simp
      from commit_inner [OF rq this] obtain r1 h1 where
        r1: "commit_page_internal m q (i + off h v) w (Some v) h = Some (r1, h1)" "inner_post d q w v i h r1 h1" by blast
      show ?thesis
      proof (cases r1)
        case (Ok rr)
        then show ?thesis using from_parent_leaf [OF inv v Some None, of w rr h1] r1 run by (simp add: bind_def)
      qed (use r1 run in \<open>simp_all add: bind_def inner_post_def leaf_post_def\<close>)
    qed
  qed
qed

text \<open>
  A commit of a page of an object returns; it gives a frame with the bytes that the object sees, or reports that there is
  no memory, and no object sees a difference.
\<close>

lemma commit_page_ok:
  assumes inv: "vmo_inv d h" and v: "leaf h v" "i < len h v"
  obtains h' where "commit_page v i w h = Some (Err NO_MEMORY, h')" "unseen d h h'" w
  | h' pa where "commit_page v i w h = Some (Ok pa, h')" "unseen d h h'" "vh_mem h' pa = vmo_page h v i"
      "w \<Longrightarrow> \<exists>ps. fr h' v i = Some ps \<and> ps_frame ps = pa"
proof -
  have t: "tree_ok d h" using inv by (simp add: vmo_inv_def)
  have "d v < vh_next h" using tree_alive(2) [OF t leaf_alive [OF v(1)]] .
  from commit_leaf [OF inv v this] obtain r h' where
    r: "commit_page_internal (vh_next h) v i w None h = Some (r, h')" "leaf_post d v i w h r h'" by blast
  show thesis
  proof (cases r)
    case (Ok a)
    then obtain pa where a: "a = Ref pa" using r(2) by (cases a) (auto simp: leaf_post_def)
    have u: "unseen d h h'" using r(2) by (simp add: leaf_post_def)
    then have t': "tree_ok d h'" and s: "shape h' = shape h" by (auto simp: unseen_def vmo_inv_def same_tree_def)
    have al: "shape h' v \<noteq> None" using leaf_alive [OF v(1)] s by simp
    obtain x where x: "vh_vmos h' v = Some x" "shape h' v = Some (x\<lparr>pv_frames := Map.empty\<rparr>)" by (rule alive_node [OF al])
    have "commit_page v i w h = Some (Ok pa, h')"
      using r(1) Ok a x(1) tree_node(1) [OF t' x(2)]
      by (simp add: commit_page_def bind_def node_def check_contig_def ret_def)
    then show ?thesis using that(2) u r(2) Ok a by (simp add: leaf_post_def)
  next
    case (Err e)
    then show ?thesis using that(1) r by (simp add: commit_page_def bind_def leaf_post_def)
  qed (use r in \<open>simp add: leaf_post_def\<close>)
qed

end
