(* ===== verification/Vmo_Data.thy ===== *)
theory Vmo_Data
  imports Vmo_Commit
begin

text \<open>
  Reading and writing the bytes of an object, page by page: a read gives the bytes that the object sees and changes nothing
  that any object sees; a write changes the bytes of its range, or of a first part of it when memory runs out, in the one
  object and in no other.
\<close>

definition vmo_byte :: "vmo_heap \<Rightarrow> nat \<Rightarrow> nat \<Rightarrow> u8" where
  "vmo_byte h v k = vmo_page h v (k div PG) (k mod PG)"

definition wrote :: "(nat \<Rightarrow> nat) \<Rightarrow> vmo_heap \<Rightarrow> nat \<Rightarrow> nat \<Rightarrow> u8 list \<Rightarrow> vmo_heap \<Rightarrow> bool" where
  "wrote d h v b xs h' \<longleftrightarrow>
     same_tree h h' \<and> vmo_inv d h'
     \<and> (\<forall>w m. leaf h w \<longrightarrow> m < len h w \<longrightarrow> w \<noteq> v \<longrightarrow> vmo_page h' w m = vmo_page h w m)
     \<and> (\<forall>k < len h v * PG. vmo_byte h' v k = (if b \<le> k \<and> k < b + length xs then xs ! (k - b) else vmo_byte h v k))"

lemma page_of_byte: "k < n * PG \<Longrightarrow> k div PG < n"
  by (simp add: PG_def div_less_iff_less_mult)

lemma unseen_byte: "unseen d h h' \<Longrightarrow> leaf h v \<Longrightarrow> k < len h v * PG \<Longrightarrow> vmo_byte h' v k = vmo_byte h v k"
  by (simp add: unseen_def vmo_byte_def page_of_byte)

lemma wrote_nothing: "unseen d h h' \<Longrightarrow> leaf h v \<Longrightarrow> wrote d h v b [] h'"
  by (auto simp: wrote_def unseen_byte) (auto simp: unseen_def)

lemma wrote_trans:
  assumes "wrote d h v b xs h1" "wrote d h1 v (b + length xs) ys h2"
  shows "wrote d h v b (xs @ ys) h2"
proof -
  have s: "same_tree h h1" using assms(1) by (simp add: wrote_def)
  have "vmo_byte h2 v k = (if b \<le> k \<and> k < b + length (xs @ ys) then (xs @ ys) ! (k - b) else vmo_byte h v k)" if "k < len h v * PG" for k
  proof -
    have "vmo_byte h1 v k = (if b \<le> k \<and> k < b + length xs then xs ! (k - b) else vmo_byte h v k)"
      "vmo_byte h2 v k = (if b + length xs \<le> k \<and> k < b + length xs + length ys then ys ! (k - (b + length xs)) else vmo_byte h1 v k)"
      using assms that by (auto simp: wrote_def same_tree_simps [OF s])
    then show ?thesis by (auto simp: nth_append)
  qed
  then show ?thesis using assms by (auto simp: wrote_def same_tree_simps [OF s] intro: same_tree_trans)
qed

lemma wrote_after_unseen:
  assumes "unseen d h h1" "leaf h v" "wrote d h1 v b xs h2"
  shows "wrote d h v b xs h2"
  using wrote_trans [OF wrote_nothing [OF assms(1,2), of b]] assms(3) by simp

section \<open>Writing into a frame of the object\<close>

lemma written_page:
  assumes inv: "vmo_inv d h" and ps: "fr h v i = Some ps" and v: "leaf h v"
    and h'_def: "h' = h\<lparr>vh_mem := (vh_mem h)(ps_frame ps := g)\<rparr>"
  shows "vmo_inv d h'" "vmo_page h' v i = g" "(n, k) \<noteq> (v, i) \<Longrightarrow> vmo_page h' n k = vmo_page h n k"
proof -
  have t: "tree_ok d h" and fo: "frames_ok h" and sp: "split_ok h" using inv by (auto simp: vmo_inv_def)
  have s: "same_tree h h'" by (simp add: h'_def)
  have t': "tree_ok d h'" using t by (simp add: tree_ok_same [OF s])
  have f: "fr h' = fr h" by (simp add: h'_def)
  have fit: "frame_fits h v i ps" using fo ps by (simp add: frames_ok_def)
  have asks: "asks h' w m a b = asks h w m a b" for w m a b
    using asks_keep [OF _ s t, of w m a b] asks_keep [of h' w m a b h d] t' s by (auto simp: f same_tree_def)
  have "frames_ok h'"
    using fo fit unfolding frames_ok_def frame_fits_def frame_unique_def supply_ok_def by (simp add: h'_def)
  moreover have "split_ok h'" using sp by (simp add: split_ok_def asked_def asks f same_tree_simps [OF s])
  ultimately show "vmo_inv d h'" using t' by (simp add: vmo_inv_def)
  show "vmo_page h' v i = g" using vmo_page_hit [OF t', of v i ps] ps f by (simp add: h'_def)
  show "(n, k) \<noteq> (v, i) \<Longrightarrow> vmo_page h' n k = vmo_page h n k"
  proof (induction "d n" arbitrary: n k rule: less_induct)
    case less
    have up: "vmo_page h' p (k + off h n) = vmo_page h p (k + off h n)" if "par h n = Some p" for p
    proof -
      have "p \<noteq> v" "d p < d n" using tree_up(3,5) [OF t that] v by auto
      then show ?thesis using less.hyps [of p] by simp
    qed
    have hit: "vh_mem h' (ps_frame qs) = vh_mem h (ps_frame qs)" if "fr h n k = Some qs" for qs
      using fit that less.prems by (auto simp: h'_def frame_fits_def frame_unique_def)
    show ?case
      using vmo_page_unfold [OF t, of n k] vmo_page_unfold [OF t', of n k] up hit
      by (auto simp: f same_tree_simps [OF s] split: option.splits)
  qed
qed

text \<open>A block is a part of one page.\<close>

definition block_ok :: "block_range \<Rightarrow> bool" where
  "block_ok r \<longleftrightarrow> blk_begin r < blk_end r \<and> blk_end r \<le> PG \<and> blk_log2 r = 12"

lemma block_bounds:
  assumes "block_ok r"
  shows "origin_begin r = blk_block r * PG + blk_begin r" "origin_end r = origin_begin r + block_len r" "blk_begin r + block_len r \<le> PG"
  using assms by (simp_all add: block_ok_def origin_begin_def origin_end_def block_len_def push_bit_eq_mult PG_def)

lemma block_page: "block_ok r \<Longrightarrow> origin_end r \<le> n * PG \<Longrightarrow> blk_block r < n"
proof -
  assume a: "block_ok r" "origin_end r \<le> n * PG"
  have "0 < block_len r" using a(1) by (simp add: block_ok_def block_len_def)
  then have "blk_block r * PG < n * PG" using block_bounds [OF a(1)] a(2) by linarith
  then show ?thesis by simp
qed

lemma byte_in_block:
  assumes "q < PG"
  shows "(blk_block r * PG + q) div PG = blk_block r" "(blk_block r * PG + q) mod PG = q"
  using assms by simp_all

lemma page_blocks_ok:
  assumes "offset + n < 2 ^ 64"
  shows "tile offset (offset + n) (page_blocks offset n)" "list_all block_ok (page_blocks offset n)"
  using block_ranges_tile [of "\<lparr>iter_begin = offset, iter_end = usz (offset + n), iter_log2 = 12\<rparr>"] assms
  by (auto simp: page_blocks_def usz_def block_ok_def PG_def list_all_iff)

section \<open>Reading\<close>

lemma map_block:
  assumes "block_ok r"
  shows "map (\<lambda>q. f (blk_block r) q) [blk_begin r..<blk_begin r + block_len r] = map (\<lambda>k. f (k div PG) (k mod PG)) [origin_begin r..<origin_end r]"
proof (rule nth_equalityI)
  fix j assume "j < length (map (\<lambda>q. f (blk_block r) q) [blk_begin r..<blk_begin r + block_len r])"
  then have j: "j < block_len r" by simp
  then have q: "blk_begin r + j < PG" using block_bounds(3) [OF assms] by simp
  show "map (\<lambda>q. f (blk_block r) q) [blk_begin r..<blk_begin r + block_len r] ! j = map (\<lambda>k. f (k div PG) (k mod PG)) [origin_begin r..<origin_end r] ! j"
    using j byte_in_block [OF q, of r] block_bounds [OF assms] by (simp add: add.assoc)
qed (use block_bounds [OF assms] in simp)

lemma read_blocks_ok:
  assumes "vmo_inv d h" "leaf h v" "tile b e rs" "list_all block_ok rs" "b \<le> e" "e \<le> len h v * PG"
  shows "\<exists>h'. read_blocks v rs h = Some (Ok (map (vmo_byte h v) [b..<e]), h') \<and> unseen d h h'"
  using assms
proof (induction rs arbitrary: b h)
  case Nil
  then show ?case by (auto simp: ret_def unseen_refl)
next
  case (Cons r rs)
  have r: "block_ok r" "origin_begin r = b" "b < origin_end r" "origin_end r \<le> e" "tile (origin_end r) e rs" "list_all block_ok rs"
    using Cons.prems by auto
  have i: "blk_block r < len h v" using block_page [OF r(1)] r(4) Cons.prems(6) by simp
  obtain h1 pa where c: "commit_page v (blk_block r) False h = Some (Ok pa, h1)" "unseen d h h1" "vh_mem h1 pa = vmo_page h v (blk_block r)"
    by (rule commit_page_ok [OF Cons.prems(1,2) i, of False]) auto
  have s: "same_tree h h1" "vmo_inv d h1" using c(2) by (auto simp: unseen_def)
  obtain h2 where h2: "read_blocks v rs h1 = Some (Ok (map (vmo_byte h1 v) [origin_end r..<e]), h2)" "unseen d h1 h2"
    using Cons.IH [of h1 "origin_end r"] s Cons.prems r by (auto simp: same_tree_simps [OF s(1)])
  have "map (vmo_byte h1 v) [origin_end r..<e] = map (vmo_byte h v) [origin_end r..<e]"
    using unseen_byte [OF c(2) Cons.prems(2)] Cons.prems(6) by simp
  moreover have "pmem_read pa (blk_begin r) (block_len r) h1 = map (vmo_byte h v) [b..<origin_end r]"
    using map_block [OF r(1), of "vmo_page h v"] c(3) r(2) by (simp add: pmem_read_def vmo_byte_def)
  moreover have "[b..<e] = [b..<origin_end r] @ [origin_end r..<e]"
    using r(3,4) by (metis le_Suc_ex less_imp_le upt_add_eq_append)
  ultimately show ?case
    using c(1) h2 unseen_trans [OF c(2) h2(2)] by (simp add: bind_def ret_def)
qed

lemma paged_read_ok:
  assumes inv: "vmo_inv d h" and v: "leaf h v" and b: "offset + n \<le> len h v * PG"
  shows "\<exists>h'. paged_read v offset n h = Some (Ok (map (vmo_byte h v) [offset..<offset + n]), h') \<and> unseen d h h'"
proof -
  have t: "tree_ok d h" using inv by (simp add: vmo_inv_def)
  obtain x where x: "vh_vmos h v = Some x" "shape h v = Some (x\<lparr>pv_frames := Map.empty\<rparr>)" "pv_size x div PG = len h v"
    by (rule alive_node [OF leaf_alive [OF v]])
  note n = tree_node [OF t x(2)]
  have "len h v * PG \<le> pv_size x" using x(3) by (metis div_times_less_eq_dividend)
  then have "offset + n < 2 ^ 64" using b n(3) by linarith
  note bl = page_blocks_ok [OF this]
  show ?thesis using read_blocks_ok [OF inv v bl _ b] x(1) n(4) by (simp add: paged_read_def node_run)
qed

section \<open>Writing\<close>

lemma write_block:
  assumes inv: "vmo_inv d h" and v: "leaf h v" and ps: "fr h v (blk_block r) = Some ps" and r: "block_ok r" and xs: "length xs = block_len r"
  shows "\<exists>h'. pmem_write (ps_frame ps) (blk_begin r) xs h = Some (Ok (), h') \<and> wrote d h v (origin_begin r) xs h'"
proof -
  define g where "g = (\<lambda>k. if blk_begin r \<le> k \<and> k < blk_begin r + length xs then xs ! (k - blk_begin r) else vh_mem h (ps_frame ps) k)"
  define h' where "h' = h\<lparr>vh_mem := (vh_mem h)(ps_frame ps := g)\<rparr>"
  note w = written_page [OF inv ps v h'_def]
  have t: "tree_ok d h" using inv by (simp add: vmo_inv_def)
  have old: "vmo_page h v (blk_block r) = vh_mem h (ps_frame ps)" by (rule vmo_page_hit [OF t ps])
  have "vmo_byte h' v k = (if origin_begin r \<le> k \<and> k < origin_begin r + length xs then xs ! (k - origin_begin r) else vmo_byte h v k)" for k
  proof (cases "k div PG = blk_block r")
    case True
    then have k: "k = blk_block r * PG + k mod PG" by (metis div_mult_mod_eq)
    have o: "k - origin_begin r = k mod PG - blk_begin r" "origin_begin r \<le> k \<longleftrightarrow> blk_begin r \<le> k mod PG"
      "k < origin_begin r + length xs \<longleftrightarrow> k mod PG < blk_begin r + length xs"
      using k block_bounds(1) [OF r] by linarith+
    have "vmo_byte h' v k = g (k mod PG)" using w(2) True by (simp add: vmo_byte_def)
    moreover have "vmo_byte h v k = vh_mem h (ps_frame ps) (k mod PG)" using old True by (simp add: vmo_byte_def)
    ultimately show ?thesis unfolding o g_def by simp
  next
    case False
    then have "vmo_byte h' v k = vmo_byte h v k" using w(3) by (simp add: vmo_byte_def)
    moreover have "\<not> (origin_begin r \<le> k \<and> k < origin_begin r + length xs)"
    proof
      assume a: "origin_begin r \<le> k \<and> k < origin_begin r + length xs"
      then obtain q where "k = blk_block r * PG + q" "q < PG"
        using block_bounds [OF r] xs le_Suc_ex [of "blk_block r * PG" k] by auto
      then show False using False byte_in_block(1) by simp
    qed
    ultimately show ?thesis by auto
  qed
  then have "wrote d h v (origin_begin r) xs h'" using w(1,3) by (simp add: wrote_def h'_def)
  then show ?thesis by (simp add: pmem_write_def h'_def g_def)
qed

lemma write_blocks_ok:
  assumes "vmo_inv d h" "leaf h v" "tile b e rs" "list_all block_ok rs" "b \<le> e" "e \<le> len h v * PG" "length buf = e - b"
  shows "\<exists>r h' n. write_blocks v buf rs h = Some (r, h') \<and> n \<le> length buf \<and> wrote d h v b (take n buf) h'
    \<and> (r = Ok () \<and> n = length buf \<or> r = Err NO_MEMORY)"
  using assms
proof (induction rs arbitrary: b h buf)
  case Nil
  then show ?case using wrote_nothing [OF unseen_refl [OF Nil(1)] Nil(2)] by (auto simp: ret_def)
next
  case (Cons r rs)
  have r: "block_ok r" "origin_begin r = b" "b < origin_end r" "origin_end r \<le> e" "tile (origin_end r) e rs" "list_all block_ok rs"
    using Cons.prems by auto
  have i: "blk_block r < len h v" using block_page [OF r(1)] r(4) Cons.prems(6) by simp
  have bl: "block_len r \<le> length buf" "origin_end r = b + block_len r" using block_bounds(2) [OF r(1)] r Cons.prems(7) by auto
  show ?case
  proof (rule commit_page_ok [OF Cons.prems(1,2) i, of True])
    fix h1 assume "commit_page v (blk_block r) True h = Some (Err NO_MEMORY, h1)" "unseen d h h1"
    then show ?thesis using wrote_nothing [of d h h1 v b] Cons.prems(2) by (auto simp: bind_def intro: exI [of _ 0])
  next
    fix h1 pa
    assume c: "commit_page v (blk_block r) True h = Some (Ok pa, h1)" "unseen d h h1" and "True \<Longrightarrow> \<exists>ps. fr h1 v (blk_block r) = Some ps \<and> ps_frame ps = pa"
    then obtain ps where ps: "fr h1 v (blk_block r) = Some ps" "ps_frame ps = pa" by auto
    have s: "same_tree h h1" "vmo_inv d h1" using c(2) by (auto simp: unseen_def)
    then have l1: "leaf h1 v" using Cons.prems(2) by (simp add: same_tree_simps [OF s(1)])
    obtain h2 where h2: "pmem_write pa (blk_begin r) (take (block_len r) buf) h1 = Some (Ok (), h2)" "wrote d h1 v b (take (block_len r) buf) h2"
      using write_block [OF s(2) l1 ps(1) r(1), of "take (block_len r) buf"] ps(2) r(2) bl(1) by auto
    have w2: "wrote d h v b (take (block_len r) buf) h2" by (rule wrote_after_unseen [OF c(2) Cons.prems(2) h2(2)])
    then have s2: "same_tree h h2" "vmo_inv d h2" by (auto simp: wrote_def)
    obtain q h3 n where h3: "write_blocks v (drop (block_len r) buf) rs h2 = Some (q, h3)" "n \<le> length (drop (block_len r) buf)"
      "wrote d h2 v (origin_end r) (take n (drop (block_len r) buf)) h3" "q = Ok () \<and> n = length (drop (block_len r) buf) \<or> q = Err NO_MEMORY"
      using Cons.IH [of h2 "origin_end r" "drop (block_len r) buf"] s2 Cons.prems r bl by (auto simp: same_tree_simps [OF s2(1)])
    have "wrote d h v b (take (block_len r + n) buf) h3"
      using wrote_trans [OF w2, of "take n (drop (block_len r) buf)" h3] h3(3) bl by (simp add: take_add)
    then show ?thesis using c(1) h2(1) h3 bl(1) by (auto simp: bind_def intro!: exI [of _ "block_len r + n"])
  qed
qed

lemma paged_write_ok:
  assumes inv: "vmo_inv d h" and v: "leaf h v" and b: "offset + length buf \<le> len h v * PG"
  shows "\<exists>r h' n. paged_write v offset buf h = Some (r, h') \<and> n \<le> length buf \<and> wrote d h v offset (take n buf) h'
    \<and> (r = Ok () \<and> n = length buf \<or> r = Err NO_MEMORY)"
proof -
  have t: "tree_ok d h" using inv by (simp add: vmo_inv_def)
  obtain x where x: "vh_vmos h v = Some x" "shape h v = Some (x\<lparr>pv_frames := Map.empty\<rparr>)" "pv_size x div PG = len h v"
    by (rule alive_node [OF leaf_alive [OF v]])
  note n = tree_node [OF t x(2)]
  have "len h v * PG \<le> pv_size x" using x(3) by (metis div_times_less_eq_dividend)
  then have "offset + length buf < 2 ^ 64" using b n(3) by linarith
  note bl = page_blocks_ok [OF this]
  show ?thesis using write_blocks_ok [OF inv v bl _ b] x(1) n(4) by (simp add: paged_write_def node_run)
qed

end
