(* ===== verification/Vmo_Clone.thy ===== *)
theory Vmo_Clone
  imports Vmo_Data
begin

text \<open>
  Making an object, and making a clone of an object: the clone sees what the object sees, nobody sees a difference, and the
  tree stays in order.
\<close>

section \<open>The heap after a clone\<close>

definition relink :: "nat \<Rightarrow> nat \<Rightarrow> vmo_type \<Rightarrow> vmo_type" where
  "relink v n t = (case replace_link v n t of Some t' \<Rightarrow> t' | None \<Rightarrow> t)"

definition clone_of :: "nat \<Rightarrow> nat \<Rightarrow> nat \<Rightarrow> nat \<Rightarrow> paged" where
  "clone_of owner offset n p =
     \<lparr>pv_owner = owner, pv_type = Snapshot, pv_parent = Some p, pv_offset = offset, pv_limit = offset + n, pv_size = n, pv_frames = Map.empty,
      pv_mappings = [], pv_cache = Cached, pv_contiguous = False, pv_pin_count = 0\<rparr>"

definition cloned :: "nat \<Rightarrow> nat \<Rightarrow> nat \<Rightarrow> paged \<Rightarrow> vmo_heap \<Rightarrow> vmo_heap" where
  "cloned v offset n x h =
     (let c = vh_next h; hid = Suc c
      in h\<lparr>vh_vmos := (\<lambda>u.
             if u = c then Some (clone_of (vh_owner h) offset n hid)
             else if u = hid then Some (x\<lparr>pv_type := Hidden v c, pv_mappings := [], pv_cache := Cached\<rparr>)
             else if u = v then Some (x\<lparr>pv_frames := Map.empty, pv_parent := Some hid, pv_offset := 0, pv_limit := pv_size x\<rparr>)
             else if par h v = Some u then map_option (\<lambda>px. px\<lparr>pv_type := relink v hid (pv_type px)\<rparr>) (vh_vmos h u)
             else vh_vmos h u),
           vh_next := Suc hid, vh_owner := vh_owner h + 1,
           vh_changes := vh_changes h @ mapping_changes (pv_mappings x) (page_count offset) (page_count n) RemoveWrite\<rparr>)"

definition clone_ok :: "(nat \<Rightarrow> nat) \<Rightarrow> vmo_heap \<Rightarrow> nat \<Rightarrow> nat \<Rightarrow> nat \<Rightarrow> paged \<Rightarrow> bool" where
  "clone_ok d h v offset n x \<longleftrightarrow>
     vmo_inv d h \<and> leaf h v \<and> vh_vmos h v = Some x \<and> offset mod PG = 0 \<and> n mod PG = 0 \<and> offset + n \<le> pv_size x"

lemma clone_okD:
  assumes "clone_ok d h v offset n x"
  shows "vmo_inv d h" "tree_ok d h" "frames_ok h" "split_ok h" "leaf h v" "vh_vmos h v = Some x" "shape h v = Some (x\<lparr>pv_frames := Map.empty\<rparr>)"
    "pv_frames x = fr h v" "v < vh_next h" "offset mod PG = 0" "n mod PG = 0" "offset + n \<le> pv_size x" "pv_size x < 2 ^ 64" "pv_size x mod PG = 0"
proof -
  show a: "vmo_inv d h" "leaf h v" "vh_vmos h v = Some x" "offset mod PG = 0" "n mod PG = 0" "offset + n \<le> pv_size x"
    using assms by (auto simp: clone_ok_def)
  then show t: "tree_ok d h" "frames_ok h" "split_ok h" by (auto simp: vmo_inv_def)
  show sh: "shape h v = Some (x\<lparr>pv_frames := Map.empty\<rparr>)" using a(3) by (simp add: shape_def)
  show "pv_frames x = fr h v" using a(3) by (simp add: fr_def fun_eq_iff)
  show "v < vh_next h" using tree_alive(1) [OF t(1) leaf_alive [OF a(2)]] .
  show "pv_size x < 2 ^ 64" "pv_size x mod PG = 0" using tree_node(2,3) [OF t(1) sh] by auto
qed

lemma create_child_cloned:
  assumes ok: "clone_ok d h v offset n x"
  shows "paged_create_child v offset n h = Some (Ok (vh_next h), cloned v offset n x h)"
proof -
  note t = clone_okD(2) [OF ok] and v = clone_okD(5) [OF ok] and x = clone_okD(6) [OF ok] and sh = clone_okD(7) [OF ok]
    and lt = clone_okD(9) [OF ok] and a = clone_okD(10-12) [OF ok]
  note nd = tree_node [OF t sh]
  have pa: "par h v = pv_parent x" by (simp add: par_def sh)
  have lim: "min (usz (offset + n)) (pv_size x) = offset + n" using a(3) nd(3) by (simp add: usz_def)
  show ?thesis
  proof (cases "pv_parent x")
    case None
    then show ?thesis
      using x a lim nd lt pa
      by (simp add: paged_create_child_def node_run bind_def [of new_owner_id] new_owner_id_def bind_def [of "wrap _"] wrap_def bind_def [of "ret _"]
          bind_def [of "put _ _"] bind_def [of "notify _"] put_def notify_def ret_def set_node_def cloned_def clone_of_def fun_eq_iff)
  next
    case (Some p)
    obtain l r where lr: "children h p = Some (l, r)" "v = l \<or> v = r" "shape h p \<noteq> None" by (rule tree_par [OF t, of v p]) (use Some pa in auto)
    obtain px where px: "vh_vmos h p = Some px" "hidden_as h p (pv_type px)" by (rule alive_node [OF lr(3)])
    have ty: "pv_type px = Hidden l r" by (rule hidden_asD(2) [OF px(2) lr(1)])
    have ne: "p \<noteq> v" "p < vh_next h" using tree_up(2,4) [OF t, of v p] tree_alive(1) [OF t lr(3)] Some pa by auto
    obtain t' where t': "replace_link v (Suc (vh_next h)) (pv_type px) = Some t'" using ty lr(2) by (cases "l = v") (auto simp: replace_link_def)
    show ?thesis
      using x a lim nd lt pa Some px ne ty t'
      by (simp add: paged_create_child_def node_run bind_def [of new_owner_id] new_owner_id_def bind_def [of "wrap _"] wrap_def
          bind_def [of "bind _ _"] bind_def [of "put _ _"] bind_def [of "notify _"] put_def notify_def ret_def set_node_def cloned_def clone_of_def relink_def fun_eq_iff)
  qed
qed

section \<open>The nodes after a clone\<close>

text \<open>The hidden node stands where the object stood.\<close>

definition old_node :: "nat \<Rightarrow> vmo_heap \<Rightarrow> nat \<Rightarrow> nat" where
  "old_node v h u = (if u = Suc (vh_next h) then v else u)"

lemma dead_above: "tree_ok d h \<Longrightarrow> vh_next h \<le> u \<Longrightarrow> shape h u = None"
  using tree_alive(1) [of d h u] by fastforce

lemma shape_cloned:
  "shape (cloned v offset n x h) u =
     (if u = vh_next h then Some (clone_of (vh_owner h) offset n (Suc (vh_next h)))
      else if u = Suc (vh_next h) then Some (x\<lparr>pv_type := Hidden v (vh_next h), pv_mappings := [], pv_cache := Cached, pv_frames := Map.empty\<rparr>)
      else if u = v then Some (x\<lparr>pv_frames := Map.empty, pv_parent := Some (Suc (vh_next h)), pv_offset := 0, pv_limit := pv_size x\<rparr>)
      else if par h v = Some u then map_option (\<lambda>px. px\<lparr>pv_type := relink v (Suc (vh_next h)) (pv_type px)\<rparr>) (shape h u)
      else shape h u)"
  by (cases "vh_vmos h u") (simp_all add: shape_def cloned_def clone_of_def)

lemma fr_cloned:
  assumes "clone_ok d h v offset n x"
  shows "fr (cloned v offset n x h) u = (if u = v \<or> u = vh_next h then Map.empty else fr h (old_node v h u))"
  using clone_okD(6,8,9) [OF assms] by (auto simp: fr_def cloned_def clone_of_def old_node_def fun_eq_iff split: option.splits)

lemma cloned_fields [simp]:
  "vh_mem (cloned v offset n x h) = vh_mem h" "vh_supply (cloned v offset n x h) = vh_supply h" "vh_next (cloned v offset n x h) = Suc (Suc (vh_next h))"
  by (simp_all add: cloned_def)

lemma cloned_links:
  assumes ok: "clone_ok d h v offset n x"
  shows "par (cloned v offset n x h) u = (if u = v \<or> u = vh_next h then Some (Suc (vh_next h)) else par h (old_node v h u))"
    and "off (cloned v offset n x h) u = (if u = v then 0 else if u = vh_next h then offset div PG else off h (old_node v h u))"
    and "len (cloned v offset n x h) u = (if u = vh_next h then n div PG else len h (old_node v h u))"
    and "leaf (cloned v offset n x h) u = (u = vh_next h \<or> u \<noteq> Suc (vh_next h) \<and> leaf h u)"
proof -
  note sh = clone_okD(7) [OF ok] and lt = clone_okD(9) [OF ok]
  have "leaf h (vh_next h) = False" using dead_above [OF clone_okD(2) [OF ok], of "vh_next h"] by (simp add: leaf_def)
  moreover have "is_hidden (relink v k t) = is_hidden t" for k t
    by (cases t) (auto simp: relink_def replace_link_def split: option.splits)
  moreover have "\<not> is_hidden (pv_type x)" using clone_okD(5) [OF ok] sh by (simp add: leaf_def)
  ultimately show "leaf (cloned v offset n x h) u = (u = vh_next h \<or> u \<noteq> Suc (vh_next h) \<and> leaf h u)"
    using lt sh by (auto simp: leaf_def shape_cloned clone_of_def split: option.splits)
qed (use clone_okD(7,9) [OF ok] in \<open>auto simp: par_def off_def len_def shape_cloned clone_of_def old_node_def split: option.splits\<close>)

lemma cloned_children:
  assumes ok: "clone_ok d h v offset n x" and u: "u \<noteq> v" "u \<noteq> vh_next h" "u \<noteq> Suc (vh_next h)"
    and lr: "children (cloned v offset n x h) u = Some lr" "tag_child lr t = Some c"
  shows "c \<noteq> v \<and> c \<noteq> vh_next h \<and> (\<exists>lr'. children h u = Some lr' \<and> tag_child lr' t = Some (old_node v h c))"
proof -
  note t = clone_okD(2) [OF ok]
  obtain l r where l: "children h u = Some (l, r)"
    using u lr(1) by (auto simp: children_def shape_cloned relink_def replace_link_def split: option.splits vmo_type.splits if_splits)
  note ch = tree_children [OF t l] children_differ [OF t l]
  have dead: "l \<noteq> vh_next h" "l \<noteq> Suc (vh_next h)" "r \<noteq> vh_next h" "r \<noteq> Suc (vh_next h)"
    using par_alive [OF ch(1)] par_alive [OF ch(2)] dead_above [OF t, of l] dead_above [OF t, of r] by auto
  have "lr = (if l = v then (Suc (vh_next h), r) else if r = v then (l, Suc (vh_next h)) else (l, r))"
    using lr(1) u l ch by (auto simp: children_def shape_cloned relink_def replace_link_def split: option.splits vmo_type.splits if_splits)
  then show ?thesis using l lr(2) dead ch clone_okD(9) [OF ok] by (cases t) (auto simp: old_node_def split: if_splits)
qed

section \<open>The invariant after a clone\<close>

definition clone_rank :: "nat \<Rightarrow> vmo_heap \<Rightarrow> (nat \<Rightarrow> nat) \<Rightarrow> nat \<Rightarrow> nat" where
  "clone_rank v h d = d(v := Suc (d v), vh_next h := Suc (d v), Suc (vh_next h) := d v)"

lemma clone_rank_other: "u \<noteq> v \<Longrightarrow> u \<noteq> vh_next h \<Longrightarrow> u \<noteq> Suc (vh_next h) \<Longrightarrow> clone_rank v h d u = d u"
  by (simp add: clone_rank_def)

lemma cloned_alive:
  assumes ok: "clone_ok d h v offset n x" and p: "par h u = Some p"
  shows "p \<noteq> v" "p < vh_next h" "u < vh_next h"
  using tree_up [OF clone_okD(2) [OF ok] p] tree_alive(1) [OF clone_okD(2) [OF ok]] clone_okD(5) [OF ok] by auto

lemma parent_ok_cloned:
  assumes ok: "clone_ok d h v offset n x" and par: "parent_ok d h (old_node v h u) y p" and p: "par h (old_node v h u) = Some p"
    and u: "u \<noteq> v" "u \<noteq> vh_next h"
  shows "parent_ok (clone_rank v h d) (cloned v offset n x h) u y p"
proof -
  obtain px l r where px: "shape h p = Some px" "d p < d (old_node v h u)" "pv_type px = Hidden l r" "l \<noteq> r" "old_node v h u = l \<or> old_node v h u = r"
    "pv_offset y mod PG = 0" "pv_limit y = pv_offset y + pv_size y" "pv_limit y \<le> pv_size px"
    using par unfolding parent_ok_def by (elim exE conjE)
  note ne = cloned_alive [OF ok p]
  have ch: "children h p = Some (l, r)" using px by (simp add: children_def)
  note cl = tree_children [OF clone_okD(2) [OF ok] ch]
  have lr: "l < vh_next h" "r < vh_next h" using cloned_alive(3) [OF ok] cl by auto
  have rk: "clone_rank v h d p < clone_rank v h d u" using px(2) u ne by (auto simp: clone_rank_def old_node_def split: if_splits)
  let ?px = "if par h v = Some p then px\<lparr>pv_type := relink v (Suc (vh_next h)) (pv_type px)\<rparr> else px"
  have sh: "shape (cloned v offset n x h) p = Some ?px" using px(1) ne by (simp add: shape_cloned)
  have "\<exists>l' r'. pv_type ?px = Hidden l' r' \<and> l' \<noteq> r' \<and> (u = l' \<or> u = r')"
  proof (cases "par h v = Some p")
    case True
    then have "v = l \<or> v = r" using par_child [OF clone_okD(2) [OF ok] ch] by simp
    then show ?thesis using True px(3-5) u lr clone_okD(9) [OF ok] by (auto simp: relink_def replace_link_def old_node_def split: if_splits)
  next
    case False
    then have "u = old_node v h u" using p by (auto simp: old_node_def split: if_splits)
    then show ?thesis using False px by auto
  qed
  then obtain l' r' where "pv_type ?px = Hidden l' r'" "l' \<noteq> r'" "u = l' \<or> u = r'" by blast
  moreover have "pv_size ?px = pv_size px" by simp
  ultimately show ?thesis
    unfolding parent_ok_def using sh rk px(6-8) by (intro exI [of _ ?px] exI [of _ l'] exI [of _ r']) simp
qed

lemma cloned_clone_parent:
  assumes ok: "clone_ok d h v offset n x"
  shows "parent_ok (clone_rank v h d) (cloned v offset n x h) (vh_next h) (clone_of w offset n (Suc (vh_next h))) (Suc (vh_next h))"
    and "parent_ok (clone_rank v h d) (cloned v offset n x h) v (x\<lparr>pv_frames := m, pv_parent := q, pv_offset := 0, pv_limit := pv_size x\<rparr>) (Suc (vh_next h))"
  using clone_okD(9-12) [OF ok] by (auto simp: parent_ok_def shape_cloned clone_rank_def clone_of_def)

lemma cloned_children_par:
  assumes ok: "clone_ok d h v offset n x" and u: "shape (cloned v offset n x h) u = Some y" and ty: "pv_type y = Hidden l r"
  shows "par (cloned v offset n x h) l = Some u \<and> par (cloned v offset n x h) r = Some u"
proof (cases "u = Suc (vh_next h)")
  case True
  then show ?thesis using u ty by (auto simp: shape_cloned cloned_links [OF ok])
next
  case False
  have "\<not> is_hidden (pv_type x)" using clone_okD(5,7) [OF ok] by (simp add: leaf_def)
  then have nv: "u \<noteq> v" "u \<noteq> vh_next h" using u ty False clone_okD(9) [OF ok] by (auto simp: shape_cloned clone_of_def)
  have ch: "children (cloned v offset n x h) u = Some (l, r)" using u ty by (simp add: children_def)
  have "par (cloned v offset n x h) c = Some u" if tc: "tag_child (l, r) tg = Some c" for tg c
  proof -
    obtain lr' where c: "c \<noteq> v" "c \<noteq> vh_next h" "children h u = Some lr'" "tag_child lr' tg = Some (old_node v h c)"
      using cloned_children [OF ok nv False ch tc] by blast
    obtain l' r' where "lr' = (l', r')" by (cases lr')
    then have "par h (old_node v h c) = Some u"
      using tree_children [OF clone_okD(2) [OF ok]] c(3,4) by (cases tg) auto
    then show ?thesis using c by (simp add: cloned_links [OF ok])
  qed
  from this [of LeftSplit l] this [of RightSplit r] show ?thesis by simp
qed

lemma tree_ok_cloned:
  assumes ok: "clone_ok d h v offset n x"
  shows "tree_ok (clone_rank v h d) (cloned v offset n x h)"
  unfolding tree_ok_def
proof (intro allI impI conjI)
  note t = clone_okD(2) [OF ok] and lt = clone_okD(9) [OF ok]
  note vx = tree_node [OF t clone_okD(7) [OF ok]]
  have dv: "d v < vh_next h" using tree_alive(2) [OF t leaf_alive [OF clone_okD(5) [OF ok]]] .
  fix u y assume y: "shape (cloned v offset n x h) u = Some y"
  have old: "u \<noteq> v \<Longrightarrow> u \<noteq> vh_next h \<Longrightarrow> u \<noteq> Suc (vh_next h) \<Longrightarrow> \<exists>z. shape h u = Some z \<and> y = z\<lparr>pv_type := pv_type y\<rparr>"
    using y by (auto simp: shape_cloned split: if_splits)
  have alive: "u \<noteq> v \<Longrightarrow> u \<noteq> vh_next h \<Longrightarrow> u \<noteq> Suc (vh_next h) \<Longrightarrow> u < vh_next h \<and> d u < vh_next h"
    using old tree_alive [OF t, of u] by auto
  show "u < vh_next (cloned v offset n x h)" using alive lt by fastforce
  show "clone_rank v h d u < vh_next (cloned v offset n x h)" using alive dv by (cases "u = v \<or> u = vh_next h \<or> u = Suc (vh_next h)") (auto simp: clone_rank_def)
  have node: "\<exists>z. (z = clone_of (vh_owner h) offset n (Suc (vh_next h)) \<or> z = x \<or> shape h u = Some z)
      \<and> pv_size y = pv_size z \<and> pv_contiguous y = pv_contiguous z \<and> (pv_cache y = pv_cache z \<or> pv_cache y = Cached) \<and> pv_pin_count y = pv_pin_count z"
    using y by (fastforce simp: shape_cloned split: if_splits)
  then obtain z where z: "z = clone_of (vh_owner h) offset n (Suc (vh_next h)) \<or> z = x \<or> shape h u = Some z"
    "pv_size y = pv_size z" "pv_contiguous y = pv_contiguous z" "pv_cache y = pv_cache z \<or> pv_cache y = Cached" "pv_pin_count y = pv_pin_count z" by blast
  have "pv_size z mod PG = 0 \<and> pv_size z < 2 ^ 64 \<and> \<not> pv_contiguous z \<and> pv_cache z = Cached \<and> pv_pin_count z = 0"
    using z(1)
  proof (elim disjE)
    assume "shape h u = Some z"
    then show ?thesis using t unfolding tree_ok_def by blast
  qed (use vx clone_okD(11-13) [OF ok] in \<open>auto simp: clone_of_def\<close>)
  then show "pv_size y mod PG = 0" "pv_size y < 2 ^ 64" "\<not> pv_contiguous y" "pv_cache y = Cached" "pv_pin_count y = 0" using z by auto
  show "par (cloned v offset n x h) l = Some u" "par (cloned v offset n x h) r = Some u" if "pv_type y = Hidden l r" for l r
    using cloned_children_par [OF ok y that] by auto
  show "parent_ok (clone_rank v h d) (cloned v offset n x h) u y p" if p: "pv_parent y = Some p" for p
  proof (cases "u = v \<or> u = vh_next h")
    case True
    then show ?thesis using y p cloned_clone_parent [OF ok] lt by (auto simp: shape_cloned clone_of_def)
  next
    case False
    have "par (cloned v offset n x h) u = Some p" using y p by (simp add: par_def)
    then have pp: "par h (old_node v h u) = Some p" using False by (simp add: cloned_links [OF ok])
    obtain z where z: "shape h (old_node v h u) = Some z" using par_alive [OF pp] by auto
    have zp: "pv_parent z = Some p" using pp z by (simp add: par_def)
    have "parent_ok d h (old_node v h u) z p" using t z zp unfolding tree_ok_def by blast
    moreover have "pv_offset y = pv_offset z" "pv_limit y = pv_limit z" "pv_size y = pv_size z"
      using y z False clone_okD(7) [OF ok] by (auto simp: shape_cloned old_node_def split: if_splits)
    ultimately have "parent_ok d h (old_node v h u) y p" by (simp add: parent_ok_def)
    then show ?thesis using parent_ok_cloned [OF ok _ pp] False by simp
  qed
qed

lemma frames_ok_cloned:
  assumes ok: "clone_ok d h v offset n x"
  shows "frames_ok (cloned v offset n x h)"
proof -
  have dead: "fr h (vh_next h) = Map.empty" "fr h (Suc (vh_next h)) = Map.empty"
    using fr_alive dead_above [OF clone_okD(2) [OF ok]] by (auto simp: fun_eq_iff) (metis fr_alive le_refl le_SucI option.exhaust)+
  have "frame_fits (cloned v offset n x h) u i ps" if f: "fr (cloned v offset n x h) u i = Some ps" for u i ps
  proof -
    have u: "u \<noteq> v" "u \<noteq> vh_next h" "fr h (old_node v h u) i = Some ps" using f by (auto simp: fr_cloned [OF ok] split: if_splits)
    have fit: "frame_fits h (old_node v h u) i ps" using clone_okD(3) [OF ok] u(3) by (simp add: frames_ok_def)
    have "w = u \<and> j = i" if q: "fr (cloned v offset n x h) w j = Some qs" "ps_frame qs = ps_frame ps" for w j qs
    proof -
      have w: "w \<noteq> v" "w \<noteq> vh_next h" "fr h (old_node v h w) j = Some qs" using q by (auto simp: fr_cloned [OF ok] split: if_splits)
      have "old_node v h w = old_node v h u \<and> j = i" using fit w(3) q(2) unfolding frame_fits_def frame_unique_def by blast
      then show ?thesis using w u dead by (auto simp: old_node_def split: if_splits)
    qed
    then show ?thesis using fit u by (auto simp: frame_fits_def frame_unique_def cloned_links [OF ok] old_node_def split: if_splits)
  qed
  then show ?thesis using clone_okD(3) [OF ok] by (simp add: frames_ok_def supply_ok_def)
qed

text \<open>Requests after the clone that go beyond the object and its clone were requests before.\<close>

lemma cloned_asks:
  assumes ok: "clone_ok d h v offset n x"
  shows "asks (cloned v offset n x h) w m u k \<Longrightarrow> leaf (cloned v offset n x h) w \<Longrightarrow> m < len (cloned v offset n x h) w
    \<Longrightarrow> (if u = v then k < len h v else if u = vh_next h then k < n div PG else asked h (old_node v h u) k)"
proof (induction rule: asks.induct)
  case asks_start
  then show ?case using clone_okD(9) [OF ok] by (auto simp: cloned_links [OF ok] old_node_def intro: asked_start)
next
  case (asks_up c j p)
  note lt = clone_okD(9) [OF ok]
  have sz: "(offset + n) div PG \<le> pv_size x div PG" using clone_okD(12) [OF ok] by (rule div_le_mono)
  have od: "(offset + n) div PG = offset div PG + n div PG" using clone_okD(10,11) [OF ok] by (simp add: div_add1_eq)
  have lv: "len h v = pv_size x div PG" using clone_okD(7) [OF ok] by (simp add: len_def)
  show ?case
  proof (cases "c = v \<or> c = vh_next h")
    case True
    have "p = Suc (vh_next h)" using True asks_up(3) by (auto simp: cloned_links [OF ok])
    then show ?thesis
      using True asks_up lt sz od lv clone_okD(5) [OF ok] by (auto simp: cloned_links [OF ok] old_node_def intro!: asked_start)
  next
    case False
    have p: "par h (old_node v h c) = Some p" using False asks_up(3) by (simp add: cloned_links [OF ok])
    have "asked h p (j + off h (old_node v h c))"
      using asked_up [OF _ _ p] asks_up False by (simp add: fr_cloned [OF ok])
    then show ?thesis using False cloned_alive [OF ok p] by (simp add: cloned_links [OF ok] old_node_def)
  qed
qed

lemma split_ok_cloned:
  assumes ok: "clone_ok d h v offset n x"
  shows "split_ok (cloned v offset n x h)"
  unfolding split_ok_def
proof (intro allI impI notI, elim conjE)
  fix u lr i ps c j
  assume a: "children (cloned v offset n x h) u = Some lr" "fr (cloned v offset n x h) u i = Some ps" "tag_child lr (ps_tag ps) = Some c"
    "i = j + off (cloned v offset n x h) c" "asked (cloned v offset n x h) c j" "fr (cloned v offset n x h) c j = None"
  have u: "u \<noteq> v" "u \<noteq> vh_next h" "fr h (old_node v h u) i = Some ps" using a(2) by (auto simp: fr_cloned [OF ok] split: if_splits)
  have "u \<noteq> Suc (vh_next h)"
  proof
    assume "u = Suc (vh_next h)"
    then have "ps_tag ps = Owned"
      using u(3) clone_okD(3,5) [OF ok] by (auto simp: old_node_def frames_ok_def frame_fits_def)
    then show False using a(3) by (cases lr) simp
  qed
  note u' = this
  obtain lr' where c: "c \<noteq> v" "c \<noteq> vh_next h" "children h u = Some lr'" "tag_child lr' (ps_tag ps) = Some (old_node v h c)"
    using cloned_children [OF ok u(1,2) u' a(1,3)] by blast
  obtain w m where "leaf (cloned v offset n x h) w" "m < len (cloned v offset n x h) w" "asks (cloned v offset n x h) w m c j"
    using a(5) by (auto simp: asked_def)
  then have "asked h (old_node v h c) j" using cloned_asks [OF ok, of w m c j] c(1,2) by simp
  moreover have "fr h (old_node v h c) j = None" "i = j + off h (old_node v h c)" using a(4,6) c(1,2) by (simp_all add: fr_cloned [OF ok] cloned_links [OF ok])
  moreover have "fr h u i = Some ps" using u(3) u' by (simp add: old_node_def)
  ultimately show False using clone_okD(4) [OF ok] c(3,4) unfolding split_ok_def by metis
qed

lemma vmo_inv_cloned: "clone_ok d h v offset n x \<Longrightarrow> vmo_inv (clone_rank v h d) (cloned v offset n x h)"
  by (simp add: vmo_inv_def tree_ok_cloned frames_ok_cloned split_ok_cloned)

lemma vmo_page_cloned_old:
  assumes ok: "clone_ok d h v offset n x"
  shows "u \<noteq> v \<Longrightarrow> u \<noteq> vh_next h \<Longrightarrow> vmo_page (cloned v offset n x h) u k = vmo_page h (old_node v h u) k"
proof (induction "d (old_node v h u)" arbitrary: u k rule: less_induct)
  case less
  note t = clone_okD(2) [OF ok] and t' = tree_ok_cloned [OF ok]
  have up: "vmo_page (cloned v offset n x h) p j = vmo_page h p j" if p: "par h (old_node v h u) = Some p" for p j
  proof -
    have "p \<noteq> v" "p < vh_next h" "d p < d (old_node v h u)" using cloned_alive [OF ok p] tree_up(3) [OF t p] by auto
    then show ?thesis using less.hyps [of p] by (simp add: old_node_def)
  qed
  show ?case
    using vmo_page_unfold [OF t, of "old_node v h u" k] vmo_page_unfold [OF t', of u k] up less.prems
    by (auto simp: fr_cloned [OF ok] cloned_links [OF ok] split: option.splits)
qed

lemma vmo_page_cloned:
  assumes ok: "clone_ok d h v offset n x"
  shows "u \<noteq> vh_next h \<Longrightarrow> vmo_page (cloned v offset n x h) u k = vmo_page h (old_node v h u) k"
    and "vmo_page (cloned v offset n x h) (vh_next h) k = vmo_page h v (k + offset div PG)"
proof -
  note t' = tree_ok_cloned [OF ok] and lt = clone_okD(9) [OF ok]
  have hid: "vmo_page (cloned v offset n x h) (Suc (vh_next h)) j = vmo_page h v j" for j
    using vmo_page_cloned_old [OF ok, of "Suc (vh_next h)" j] lt by (simp add: old_node_def)
  have "vmo_page (cloned v offset n x h) v k = vmo_page h v k"
    using vmo_page_up [OF t', of v k "Suc (vh_next h)"] hid lt by (simp add: fr_cloned [OF ok] cloned_links [OF ok])
  then show "u \<noteq> vh_next h \<Longrightarrow> vmo_page (cloned v offset n x h) u k = vmo_page h (old_node v h u) k"
    using vmo_page_cloned_old [OF ok, of u k] lt by (cases "u = v") (auto simp: old_node_def)
  show "vmo_page (cloned v offset n x h) (vh_next h) k = vmo_page h v (k + offset div PG)"
    using vmo_page_up [OF t', of "vh_next h" k "Suc (vh_next h)"] hid lt by (simp add: fr_cloned [OF ok] cloned_links [OF ok])
qed

section \<open>A new object\<close>

definition fresh_vmo :: "nat \<Rightarrow> vmo_heap \<Rightarrow> vmo_heap" where
  "fresh_vmo n h = snd (the (paged_new n h))"

lemma paged_new_run: "paged_new n h = Some (Ok (vh_next h), fresh_vmo n h)"
  by (simp add: fresh_vmo_def paged_new_def bind_def new_owner_id_def wrap_def)

lemma fresh_vmo_fields:
  "vh_mem (fresh_vmo n h) = vh_mem h" "vh_supply (fresh_vmo n h) = vh_supply h" "vh_next (fresh_vmo n h) = Suc (vh_next h)"
  "fr (fresh_vmo n h) u = (if u = vh_next h then Map.empty else fr h u)"
  "par (fresh_vmo n h) u = (if u = vh_next h then None else par h u)"
  "off (fresh_vmo n h) u = (if u = vh_next h then 0 else off h u)"
  "len (fresh_vmo n h) u = (if u = vh_next h then usz (n * PG) div PG else len h u)"
  "leaf (fresh_vmo n h) u = (u = vh_next h \<or> leaf h u)"
  "children (fresh_vmo n h) u = (if u = vh_next h then None else children h u)"
  "u \<noteq> vh_next h \<Longrightarrow> shape (fresh_vmo n h) u = shape h u"
  by (simp_all add: fresh_vmo_def paged_new_def bind_def new_owner_id_def wrap_def set_node_def fr_def par_def off_def len_def leaf_def children_def
      shape_def fun_eq_iff)

lemma tree_ok_fresh:
  assumes t: "tree_ok d h" and n: "n * PG < 2 ^ 64"
  shows "tree_ok (d(vh_next h := 0)) (fresh_vmo n h)"
  unfolding tree_ok_def
proof (intro allI impI)
  fix u y assume y: "shape (fresh_vmo n h) u = Some y"
  show "u < vh_next (fresh_vmo n h) \<and> (d(vh_next h := 0)) u < vh_next (fresh_vmo n h) \<and> pv_size y mod PG = 0 \<and> pv_size y < 2 ^ 64 \<and> \<not> pv_contiguous y
    \<and> pv_cache y = Cached \<and> pv_pin_count y = 0 \<and> (\<forall>p. pv_parent y = Some p \<longrightarrow> parent_ok (d(vh_next h := 0)) (fresh_vmo n h) u y p)
    \<and> (\<forall>l r. pv_type y = Hidden l r \<longrightarrow> par (fresh_vmo n h) l = Some u \<and> par (fresh_vmo n h) r = Some u)"
  proof (cases "u = vh_next h")
    case True
    then show ?thesis
      using y n by (auto simp: fresh_vmo_def paged_new_def bind_def new_owner_id_def wrap_def set_node_def shape_def usz_def)
  next
    case False
    have yh: "shape h u = Some y" using y False by (simp add: fresh_vmo_fields)
    note a = t [unfolded tree_ok_def, THEN spec, THEN spec, THEN mp, OF yh]
    have dead: "shape h (vh_next h) = None" by (rule dead_above [OF t]) simp
    have pok: "parent_ok (d(vh_next h := 0)) (fresh_vmo n h) u y p" if "parent_ok d h u y p" for p
      using that False dead unfolding parent_ok_def by (auto simp: fresh_vmo_fields)
    have "par h l = Some u \<Longrightarrow> l \<noteq> vh_next h" for l using par_alive [of h l u] dead by auto
    then show ?thesis using a pok False by (auto simp: fresh_vmo_fields)
  qed
qed

lemma fresh_asks:
  assumes t: "tree_ok d h"
  shows "asks (fresh_vmo n h) w m u k \<Longrightarrow> w \<noteq> vh_next h \<Longrightarrow> u \<noteq> vh_next h \<and> asks h w m u k"
proof (induction rule: asks.induct)
  case asks_start
  then show ?case by (simp add: asks.asks_start)
next
  case (asks_up c j p)
  have p: "par h c = Some p" using asks_up by (simp add: fresh_vmo_fields)
  have "p < vh_next h" using tree_alive(1) [OF t tree_up(2) [OF t p]] .
  then show ?case using asks_up p asks.asks_up [of h w m c j p] by (simp add: fresh_vmo_fields)
qed

lemma fresh_asks_new: "asks (fresh_vmo n h) (vh_next h) m u k \<Longrightarrow> u = vh_next h"
  by (induction rule: asks.induct) (auto simp: fresh_vmo_fields)

lemma vmo_inv_fresh:
  assumes inv: "vmo_inv d h" and n: "n * PG < 2 ^ 64"
  shows "vmo_inv (d(vh_next h := 0)) (fresh_vmo n h)"
proof -
  have t: "tree_ok d h" and f: "frames_ok h" and s: "split_ok h" using inv by (auto simp: vmo_inv_def)
  have "frames_ok (fresh_vmo n h)"
    using f unfolding frames_ok_def frame_fits_def frame_unique_def supply_ok_def by (simp add: fresh_vmo_fields)
  moreover have "split_ok (fresh_vmo n h)"
    unfolding split_ok_def
  proof (intro allI impI notI, elim conjE)
    fix v lr i ps c j
    assume a: "children (fresh_vmo n h) v = Some lr" "fr (fresh_vmo n h) v i = Some ps" "tag_child lr (ps_tag ps) = Some c"
      "i = j + off (fresh_vmo n h) c" "asked (fresh_vmo n h) c j" "fr (fresh_vmo n h) c j = None"
    have v: "children h v = Some lr" "fr h v i = Some ps" using a by (auto simp: fresh_vmo_fields split: if_splits)
    obtain l r where "lr = (l, r)" by (cases lr)
    then have "par h c = Some v" using tree_children [OF t] v(1) a(3) by (cases "ps_tag ps") auto
    then have c: "c \<noteq> vh_next h" using tree_alive(1) [OF t par_alive] by fastforce
    obtain w m where w: "leaf (fresh_vmo n h) w" "m < len (fresh_vmo n h) w" "asks (fresh_vmo n h) w m c j" using a(5) by (auto simp: asked_def)
    have "w \<noteq> vh_next h" using fresh_asks_new w(3) c by blast
    then have "asked h c j" using fresh_asks [OF t w(3)] w(1,2) by (auto simp: asked_def fresh_vmo_fields)
    then show False using s v a(3,4,6) c unfolding split_ok_def by (metis fresh_vmo_fields(4,6))
  qed
  ultimately show ?thesis using tree_ok_fresh [OF t n] by (simp add: vmo_inv_def)
qed

lemma vmo_page_fresh:
  assumes t: "tree_ok d h" and n: "n * PG < 2 ^ 64"
  shows "vmo_page (fresh_vmo n h) u k = (if u = vh_next h then (\<lambda>_. 0) else vmo_page h u k)"
proof (induction "d u" arbitrary: u k rule: less_induct)
  case less
  note t' = tree_ok_fresh [OF t n]
  have up: "vmo_page (fresh_vmo n h) p j = vmo_page h p j" if p: "par h u = Some p" for p j
    using less.hyps [of p j] tree_up(3) [OF t p] tree_alive(1) [OF t tree_up(2) [OF t p]] by simp
  show ?case
    using vmo_page_unfold [OF t, of u k] vmo_page_unfold [OF t', of u k] up
    by (auto simp: fresh_vmo_fields split: option.splits)
qed

end
