(* ===== verification/Vmo_Snapshot.thy ===== *)
theory Vmo_Snapshot
  imports Vmo_Clone
begin

text \<open>
  The system calls on paged objects (\<open>zircon-syscall/src/vmo.rs\<close> over \<open>zircon-object/src/vm/vmo/mod.rs\<close>) and what they
  promise: every object, clone or not, is a byte array of its own, and a clone starts as a copy. Objects without the
  options for resizing and for unbounded size; the handle of a call has been resolved to an object.
\<close>

section \<open>The calls\<close>

definition page_roundup :: "nat \<Rightarrow> nat" where "page_roundup n = usz (page_count n * PG)"

definition backing_size :: "bool \<Rightarrow> nat \<Rightarrow> nat zx_result" where
  "backing_size unbounded sz =
     (if unbounded then Ok ((2 ^ 64 - 1) div PG * PG)
      else if sz + (PG - 1) \<ge> 2 ^ 64 then Err OUT_OF_RANGE
      else Ok ((sz + (PG - 1)) div PG * PG))"

definition new_paged_with_options :: "bool \<Rightarrow> nat \<Rightarrow> nat vm" where
  "new_paged_with_options unbounded sz =
     (case backing_size unbounded sz of
        Ok backing \<Rightarrow> if sz > backing then fail OUT_OF_RANGE else paged_new (backing div PG)
      | Err e \<Rightarrow> fail e
      | Panic \<Rightarrow> vpanic)"

definition sys_vmo_read :: "nat \<Rightarrow> nat \<Rightarrow> nat \<Rightarrow> u8 list vm" where
  "sys_vmo_read v offset n =
     bind (node v) (\<lambda>x.
       if offset > pv_size x \<or> n > pv_size x - offset then fail OUT_OF_RANGE else paged_read v offset n)"

text \<open>\<open>grow_for_write\<close> of an object that is not unbounded.\<close>

definition grow_for_write :: "nat \<Rightarrow> nat \<Rightarrow> unit vm" where
  "grow_for_write v stop = bind (node v) (\<lambda>x. if stop \<le> pv_size x then ret () else fail OUT_OF_RANGE)"

definition sys_vmo_write :: "nat \<Rightarrow> nat \<Rightarrow> u8 list \<Rightarrow> unit vm" where
  "sys_vmo_write v offset buf =
     (if offset + length buf \<ge> 2 ^ 64 then fail OUT_OF_RANGE
      else
        bind (grow_for_write v (offset + length buf)) (\<lambda>_.
        bind (node v) (\<lambda>x.
          if offset > pv_size x \<or> length buf > pv_size x - offset then fail OUT_OF_RANGE else paged_write v offset buf)))"

text \<open>The part of the call for a snapshot, after its options and the rights of the handle have been checked.\<close>

definition sys_vmo_create_child :: "nat \<Rightarrow> nat \<Rightarrow> nat \<Rightarrow> nat vm" where
  "sys_vmo_create_child v offset sz =
     (let child_size = page_roundup sz
      in if child_size < sz then fail OUT_OF_RANGE else paged_create_child v offset child_size)"

datatype vmo_call =
    VmoCreate nat
  | VmoCreateChild nat nat nat
  | VmoRead nat nat nat
  | VmoWrite nat nat "u8 list"

datatype vmo_ret = VmoId nat | VmoBytes "u8 list" | VmoDone

fun vmo_exec :: "vmo_call \<Rightarrow> vmo_ret vm" where
  "vmo_exec (VmoCreate sz) = bind (new_paged_with_options False sz) (\<lambda>i. ret (VmoId i))"
| "vmo_exec (VmoCreateChild v offset sz) = bind (sys_vmo_create_child v offset sz) (\<lambda>i. ret (VmoId i))"
| "vmo_exec (VmoRead v offset n) = bind (sys_vmo_read v offset n) (\<lambda>bs. ret (VmoBytes bs))"
| "vmo_exec (VmoWrite v offset buf) = bind (sys_vmo_write v offset buf) (\<lambda>_. ret VmoDone)"

text \<open>A call names an object, and a clone covers whole pages within its parent.\<close>

fun vmo_fits :: "vmo_call \<Rightarrow> vmo_heap \<Rightarrow> bool" where
  "vmo_fits (VmoCreate sz) h = True"
| "vmo_fits (VmoCreateChild v offset sz) h \<longleftrightarrow> leaf h v \<and> offset mod PG = 0 \<and> offset + page_roundup sz \<le> len h v * PG"
| "vmo_fits (VmoRead v offset n) h = leaf h v"
| "vmo_fits (VmoWrite v offset buf) h = leaf h v"

fun vmo_run :: "vmo_call list \<Rightarrow> vmo_heap \<Rightarrow> vmo_heap option" where
  "vmo_run [] h = Some h"
| "vmo_run (c # cs) h = (if vmo_fits c h then (case vmo_exec c h of Some (_, h') \<Rightarrow> vmo_run cs h' | None \<Rightarrow> None) else None)"

definition vmo_init :: "nat list \<Rightarrow> vmo_heap" where
  "vmo_init supply =
     \<lparr>vh_vmos = Map.empty, vh_next = 0, vh_owner = 1, vh_mem = (\<lambda>_ _. 0), vh_supply = supply, vh_changes = []\<rparr>"

section \<open>What they promise\<close>

type_synonym vmo_spec = "nat \<Rightarrow> (nat \<times> (nat \<Rightarrow> u8)) option"

definition overwrite :: "(nat \<Rightarrow> u8) \<Rightarrow> nat \<Rightarrow> u8 list \<Rightarrow> nat \<Rightarrow> u8" where
  "overwrite b offset xs k = (if offset \<le> k \<and> k < offset + length xs then xs ! (k - offset) else b k)"

definition spec_new :: "vmo_spec \<Rightarrow> nat \<Rightarrow> (nat \<Rightarrow> u8) \<Rightarrow> vmo_ret zx_result \<Rightarrow> vmo_spec \<Rightarrow> bool" where
  "spec_new s sz b r s' \<longleftrightarrow> (\<exists>i. r = Ok (VmoId i) \<and> s i = None \<and> s' = s(i \<mapsto> (sz, b)))"

fun vmo_spec_step :: "vmo_spec \<Rightarrow> vmo_call \<Rightarrow> vmo_ret zx_result \<Rightarrow> vmo_spec \<Rightarrow> bool" where
  "vmo_spec_step s (VmoCreate sz) r s' \<longleftrightarrow>
     (if sz + (PG - 1) \<ge> 2 ^ 64 then r = Err OUT_OF_RANGE \<and> s' = s else spec_new s (page_roundup sz) (\<lambda>_. 0) r s')"
| "vmo_spec_step s (VmoCreateChild v offset sz) r s' \<longleftrightarrow>
     (if page_roundup sz < sz then r = Err OUT_OF_RANGE \<and> s' = s
      else case s v of None \<Rightarrow> False
           | Some (n, b) \<Rightarrow> spec_new s (page_roundup sz) (\<lambda>k. if k < page_roundup sz then b (offset + k) else 0) r s')"
| "vmo_spec_step s (VmoRead v offset n) r s' \<longleftrightarrow>
     (case s v of None \<Rightarrow> False
      | Some (sz, b) \<Rightarrow> s' = s \<and> r = (if offset + n \<le> sz then Ok (VmoBytes (map b [offset..<offset + n])) else Err OUT_OF_RANGE))"
| "vmo_spec_step s (VmoWrite v offset buf) r s' \<longleftrightarrow>
     (case s v of None \<Rightarrow> False
      | Some (sz, b) \<Rightarrow>
          if offset + length buf \<le> sz
          then (\<exists>k \<le> length buf. s' = s(v \<mapsto> (sz, overwrite b offset (take k buf))) \<and> (r = Ok VmoDone \<and> k = length buf \<or> r = Err NO_MEMORY))
          else r = Err OUT_OF_RANGE \<and> s' = s)"

definition vmo_abs :: "vmo_heap \<Rightarrow> vmo_spec" where
  "vmo_abs h v = (if leaf h v then Some (len h v * PG, \<lambda>k. if k < len h v * PG then vmo_byte h v k else 0) else None)"

section \<open>Each call keeps its promise\<close>

lemma page_roundup_aligned [simp]: "page_roundup n mod PG = 0" "page_roundup n div PG * PG = page_roundup n"
proof -
  have "page_count n * PG \<le> usz (n + PG - 1)" by (simp add: page_count_def)
  also have "\<dots> < 2 ^ 64" by (simp add: usz_def)
  finally have "page_roundup n = page_count n * PG" by (simp add: page_roundup_def usz_def)
  then show "page_roundup n mod PG = 0" "page_roundup n div PG * PG = page_roundup n" by (simp_all add: PG_def)
qed

lemma unseen_abs: "unseen d h h' \<Longrightarrow> vmo_abs h' = vmo_abs h"
  by (rule ext) (simp add: unseen_def vmo_abs_def same_tree_simps [of h h'] vmo_byte_def page_of_byte cong: if_cong)

lemma leaf_size:
  assumes "vmo_inv d h" "leaf h v" "vh_vmos h v = Some x"
  shows "pv_size x = len h v * PG"
proof -
  have sh: "shape h v = Some (x\<lparr>pv_frames := Map.empty\<rparr>)" using assms(3) by (simp add: shape_def)
  have t: "tree_ok d h" using assms(1) by (simp add: vmo_inv_def)
  have "pv_size x mod PG = 0" by (rule tree_node(2) [OF t sh])
  then show ?thesis using sh by (auto simp: len_def PG_def)
qed

lemma range_check: "(offset > sz \<or> n > sz - offset) \<longleftrightarrow> \<not> offset + n \<le> (sz :: nat)"
  by linarith

lemma exec_read:
  assumes inv: "vmo_inv d h" and v: "leaf h v"
  shows "\<exists>r h'. vmo_exec (VmoRead v offset n) h = Some (r, h') \<and> vmo_inv d h' \<and> vmo_spec_step (vmo_abs h) (VmoRead v offset n) r (vmo_abs h')"
proof -
  obtain x where x: "vh_vmos h v = Some x" by (rule alive_node [OF leaf_alive [OF v]])
  note sz = leaf_size [OF inv v x]
  show ?thesis
  proof (cases "offset + n \<le> len h v * PG")
    case True
    then obtain h' where h': "paged_read v offset n h = Some (Ok (map (vmo_byte h v) [offset..<offset + n]), h')" "unseen d h h'"
      using paged_read_ok [OF inv v] by blast
    have "sys_vmo_read v offset n h = Some (Ok (map (vmo_byte h v) [offset..<offset + n]), h')"
      using h'(1) x range_check [where offset = offset and n = n and sz = "pv_size x"] True sz by (simp add: sys_vmo_read_def node_run)
    then show ?thesis using True unseen_abs [OF h'(2)] h'(2) v by (simp add: bind_def ret_def vmo_abs_def unseen_def)
  next
    case False
    then have "sys_vmo_read v offset n h = Some (Err OUT_OF_RANGE, h)" using x sz range_check [where offset = offset and n = n and sz = "pv_size x"] by (simp add: sys_vmo_read_def node_run fail_def)
    then show ?thesis using False inv v by (simp add: bind_def vmo_abs_def)
  qed
qed

lemma wrote_abs:
  assumes v: "leaf h v" and w: "wrote d h v offset xs h'" and b: "offset + length xs \<le> len h v * PG"
  shows "vmo_abs h' = (vmo_abs h)(v \<mapsto> (len h v * PG, overwrite (\<lambda>k. if k < len h v * PG then vmo_byte h v k else 0) offset xs))"
proof (rule ext)
  fix u
  have s: "same_tree h h'" using w by (simp add: wrote_def)
  show "vmo_abs h' u = ((vmo_abs h)(v \<mapsto> (len h v * PG, overwrite (\<lambda>k. if k < len h v * PG then vmo_byte h v k else 0) offset xs))) u"
  proof (cases "u = v")
    case True
    have "(if k < len h v * PG then vmo_byte h' v k else 0) = overwrite (\<lambda>k. if k < len h v * PG then vmo_byte h v k else 0) offset xs k" for k
      using w b by (auto simp: wrote_def overwrite_def)
    then show ?thesis using True v by (simp add: vmo_abs_def same_tree_simps [OF s])
  next
    case False
    then have "leaf h u \<Longrightarrow> k < len h u * PG \<Longrightarrow> vmo_byte h' u k = vmo_byte h u k" for k
      using w by (simp add: wrote_def vmo_byte_def page_of_byte)
    then show ?thesis using False by (simp add: vmo_abs_def same_tree_simps [OF s] cong: if_cong)
  qed
qed

lemma exec_write:
  assumes inv: "vmo_inv d h" and v: "leaf h v"
  shows "\<exists>r h'. vmo_exec (VmoWrite v offset buf) h = Some (r, h') \<and> vmo_inv d h' \<and> vmo_spec_step (vmo_abs h) (VmoWrite v offset buf) r (vmo_abs h')"
proof -
  obtain x where x: "vh_vmos h v = Some x" "shape h v = Some (x\<lparr>pv_frames := Map.empty\<rparr>)" by (rule alive_node [OF leaf_alive [OF v]])
  note sz = leaf_size [OF inv v x(1)]
  have lt: "pv_size x < 2 ^ 64" using tree_node(3) [OF _ x(2), of d] inv by (simp add: vmo_inv_def)
  show ?thesis
  proof (cases "offset + length buf \<le> len h v * PG")
    case True
    then obtain r h' n where h': "paged_write v offset buf h = Some (r, h')" "n \<le> length buf" "wrote d h v offset (take n buf) h'"
      "r = Ok () \<and> n = length buf \<or> r = Err NO_MEMORY" using paged_write_ok [OF inv v] by blast
    have run: "sys_vmo_write v offset buf h = Some (r, h')"
      using True h'(1) x(1) sz lt range_check [where offset = offset and n = "length buf" and sz = "pv_size x"] by (simp add: sys_vmo_write_def grow_for_write_def bind_def node_def ret_def)
    have "vmo_abs h' = (vmo_abs h)(v \<mapsto> (len h v * PG, overwrite (\<lambda>k. if k < len h v * PG then vmo_byte h v k else 0) offset (take n buf)))"
      by (rule wrote_abs [OF v h'(3)]) (use True h'(2) in simp)
    moreover have "vmo_inv d h'" using h'(3) by (simp add: wrote_def)
    ultimately show ?thesis using h'(2,4) True run v by (auto simp: bind_def ret_def vmo_abs_def)
  next
    case False
    then have "sys_vmo_write v offset buf h = Some (Err OUT_OF_RANGE, h)"
      using x(1) sz by (simp add: sys_vmo_write_def grow_for_write_def bind_def node_def ret_def fail_def)
    then show ?thesis using False inv v by (simp add: bind_def vmo_abs_def)
  qed
qed

lemma exec_create:
  assumes inv: "vmo_inv d h"
  shows "\<exists>r h' d'. vmo_exec (VmoCreate n) h = Some (r, h') \<and> vmo_inv d' h' \<and> vmo_spec_step (vmo_abs h) (VmoCreate n) r (vmo_abs h')"
proof (cases "n + (PG - 1) \<ge> 2 ^ 64")
  case True
  then show ?thesis using inv by (auto simp: new_paged_with_options_def backing_size_def bind_def fail_def)
next
  case False
  define m where "m = (n + (PG - 1)) div PG"
  have le: "m * PG \<le> n + (PG - 1)" by (simp add: m_def)
  then have m: "m * PG < 2 ^ 64" using False by linarith
  have up: "n \<le> m * PG" using mod_less_divisor [of PG "n + (PG - 1)"] div_mult_mod_eq [of "n + (PG - 1)" PG] unfolding m_def by (simp add: PG_def)
  have pg: "m * PG div PG = m" by (simp add: PG_def)
  have ru: "page_roundup n = m * PG" using False m by (simp add: page_roundup_def page_count_def usz_def m_def PG_def)
  have t: "tree_ok d h" using inv by (simp add: vmo_inv_def)
  have dead: "\<not> leaf h (vh_next h)" using dead_above [OF t, of "vh_next h"] by (simp add: leaf_def)
  have run: "new_paged_with_options False n h = Some (Ok (vh_next h), fresh_vmo m h)"
    using False up pg paged_new_run [of m h] unfolding new_paged_with_options_def backing_size_def m_def [symmetric] by simp
  have "vmo_abs (fresh_vmo m h) = (vmo_abs h)(vh_next h \<mapsto> (m * PG, \<lambda>_. 0))"
    using m by (auto simp: vmo_abs_def fun_eq_iff fresh_vmo_fields usz_def vmo_byte_def vmo_page_fresh [OF t m] PG_def)
  then have "spec_new (vmo_abs h) (page_roundup n) (\<lambda>_. 0) (Ok (VmoId (vh_next h))) (vmo_abs (fresh_vmo m h))"
    using dead ru by (auto simp: spec_new_def vmo_abs_def)
  then show ?thesis using False run vmo_inv_fresh [OF inv m] by (auto simp: bind_def ret_def)
qed

lemma exec_clone:
  assumes inv: "vmo_inv d h" and f: "vmo_fits (VmoCreateChild v offset n) h"
  shows "\<exists>r h' d'. vmo_exec (VmoCreateChild v offset n) h = Some (r, h') \<and> vmo_inv d' h' \<and> vmo_spec_step (vmo_abs h) (VmoCreateChild v offset n) r (vmo_abs h')"
proof (cases "page_roundup n < n")
  case True
  then show ?thesis using inv by (auto simp: sys_vmo_create_child_def bind_def fail_def)
next
  case False
  define m where "m = page_roundup n"
  have v: "leaf h v" and a: "offset mod PG = 0" "m mod PG = 0" "offset + m \<le> len h v * PG" using f by (auto simp: m_def)
  obtain x where x: "vh_vmos h v = Some x" by (rule alive_node [OF leaf_alive [OF v]])
  have ok: "clone_ok d h v offset m x" using inv v x a leaf_size [OF inv v x] by (simp add: clone_ok_def)
  have t: "tree_ok d h" using inv by (simp add: vmo_inv_def)
  have run: "sys_vmo_create_child v offset n h = Some (Ok (vh_next h), cloned v offset m x h)"
    using False create_child_cloned [OF ok] by (simp add: sys_vmo_create_child_def m_def)
  have dead: "\<not> leaf h (vh_next h)" "\<not> leaf h (Suc (vh_next h))"
    using dead_above [OF t, of "vh_next h"] dead_above [OF t, of "Suc (vh_next h)"] by (simp_all add: leaf_def)
  have child: "vmo_byte (cloned v offset m x h) (vh_next h) k = vmo_byte h v (offset + k)" for k
  proof -
    have "(offset + k) div PG = k div PG + offset div PG" "(offset + k) mod PG = k mod PG"
      using a(1) by (simp_all add: div_add1_eq [of offset k] mod_add_eq [of offset PG k, symmetric])
    then show ?thesis by (simp add: vmo_byte_def vmo_page_cloned [OF ok])
  qed
  have mm: "m div PG * PG = m" by (simp add: m_def)
  have "vmo_abs (cloned v offset m x h) u
      = ((vmo_abs h)(vh_next h \<mapsto> (m, \<lambda>k. if k < m then (if offset + k < len h v * PG then vmo_byte h v (offset + k) else 0) else 0))) u" for u
  proof (cases "u = vh_next h")
    case True
    then show ?thesis using child mm a(3) by (auto simp: vmo_abs_def cloned_links [OF ok] fun_eq_iff)
  next
    case False
    then show ?thesis using dead by (auto simp: vmo_abs_def cloned_links [OF ok] old_node_def vmo_byte_def vmo_page_cloned [OF ok] fun_eq_iff)
  qed
  then have "spec_new (vmo_abs h) m (\<lambda>k. if k < m then (if offset + k < len h v * PG then vmo_byte h v (offset + k) else 0) else 0)
      (Ok (VmoId (vh_next h))) (vmo_abs (cloned v offset m x h))"
    using dead by (auto simp: spec_new_def vmo_abs_def)
  moreover have "vmo_abs h v = Some (len h v * PG, \<lambda>k. if k < len h v * PG then vmo_byte h v k else 0)" using v by (simp add: vmo_abs_def)
  ultimately have "vmo_spec_step (vmo_abs h) (VmoCreateChild v offset n) (Ok (VmoId (vh_next h))) (vmo_abs (cloned v offset m x h))"
    using False by (simp add: m_def)
  then show ?thesis using run vmo_inv_cloned [OF ok] by (auto simp: bind_def ret_def simp del: vmo_spec_step.simps)
qed

lemma exec_refines:
  assumes "vmo_inv d h" "vmo_fits c h"
  shows "\<exists>r h' d'. vmo_exec c h = Some (r, h') \<and> vmo_inv d' h' \<and> vmo_spec_step (vmo_abs h) c r (vmo_abs h')"
proof (cases c)
  case (VmoCreate n)
  then show ?thesis using exec_create [OF assms(1)] by blast
next
  case (VmoCreateChild v offset n)
  then show ?thesis using exec_clone [OF assms(1)] assms(2) by blast
next
  case (VmoRead v offset n)
  then show ?thesis using exec_read [OF assms(1), of v offset n] assms(2) by (auto simp del: vmo_exec.simps vmo_spec_step.simps)
next
  case (VmoWrite v offset buf)
  then show ?thesis using exec_write [OF assms(1), of v offset buf] assms(2) by (auto simp del: vmo_exec.simps vmo_spec_step.simps)
qed

lemma vmo_inv_init:
  assumes "distinct supply" "ZERO_FRAME \<notin> set supply"
  shows "vmo_inv d (vmo_init supply)"
  using assms
  by (simp add: vmo_init_def vmo_inv_def tree_ok_def shape_def frames_ok_def supply_ok_def fr_def split_ok_def children_def)

lemma vmo_inv_run: "vmo_inv d h \<Longrightarrow> vmo_run cs h = Some h' \<Longrightarrow> \<exists>d'. vmo_inv d' h'"
proof (induction cs arbitrary: d h)
  case (Cons c cs)
  then show ?case using exec_refines [of d h c] by (fastforce split: if_splits option.splits)
qed auto


text \<open>What it takes to compute with the calls on concrete objects.\<close>

lemmas vmo_eval =
  bind_def ret_def fail_def vpanic_def node_def set_node_def put_def frame_new_def frame_new_zero_def pmem_copy_def notify_def
  is_split_def page_state_new_def set_frame_def new_owner_id_def wrap_def paged_new_def mapping_changes_def page_count_def out_of_range_def
  take_frame_def commit_owned_def commit_hit_def commit_fresh_def commit_from_parent_def check_contig_def commit_page_def page_blocks_def
  pmem_read_def pmem_write_def paged_read_def paged_write_def replace_link_def paged_create_child_def page_roundup_def new_paged_with_options_def backing_size_def
  sys_vmo_read_def grow_for_write_def sys_vmo_write_def sys_vmo_create_child_def vmo_init_def PG_def usz_def ZERO_FRAME_def
  shape_def fr_def par_def off_def len_def leaf_def block_ranges.simps block_next_def block_len_def
  commit_page_internal.simps(2) [of "pred_numeral k" for k, folded numeral_eq_Suc]
  node_range_change.simps(2) [of "pred_numeral k" for k, folded numeral_eq_Suc]

definition demo_vmo_calls :: "vmo_call list" where
  "demo_vmo_calls = [VmoCreate 1, VmoWrite 0 0 [7], VmoCreateChild 0 0 1, VmoWrite 0 0 [9], VmoCreateChild 1 0 1, VmoWrite 1 0 [5]]"

lemma demo_vmo_run:
  "\<exists>h h'. vmo_run demo_vmo_calls (vmo_init [1, 2, 3, 4]) = Some h \<and> vmo_fits (VmoRead 3 0 1) h \<and> vmo_exec (VmoRead 3 0 1) h = Some (Ok (VmoBytes [7]), h')"
  by (simp add: demo_vmo_calls_def vmo_eval)


end
