(* ===== verification/Vmo_Ops.thy ===== *)
theory Vmo_Ops
  imports Vmo_Snapshot
begin

text \<open>
  The other operations of the paged object (\<open>zircon-object/src/vm/vmo/paged.rs\<close>): zeroing a range, changing the size,
  dropping an object and contracting its parent, pinning, and the cache policy.
\<close>

section \<open>Counting committed pages\<close>

fun committed_walk :: "nat \<Rightarrow> nat \<Rightarrow> nat option \<Rightarrow> nat \<Rightarrow> nat vm" where
  "committed_walk 0 owner current i h = None"
| "committed_walk (Suc n) owner current i h =
     (case current of
        None \<Rightarrow> ret 0
      | Some p \<Rightarrow>
          bind (node p) (\<lambda>px.
            let hit = (case pv_frames px i of Some ps \<Rightarrow> is_split (ps_tag ps) \<or> pv_owner px = owner | None \<Rightarrow> False);
                j = usz (i + pv_offset px div PG)
            in if hit then ret 1
               else if pv_owner px \<noteq> owner then ret 0
               else if j \<ge> pv_limit px div PG then ret 0
               else committed_walk n owner (pv_parent px) j)) h"

definition committed_page :: "nat \<Rightarrow> nat \<Rightarrow> nat vm" where
  "committed_page v i =
     bind (node v) (\<lambda>x.
       if pv_frames x i \<noteq> None then ret 1
       else if pv_limit x \<le> usz (i * PG) then ret 0
       else (\<lambda>h. committed_walk (Suc (vh_next h)) (pv_owner x) (pv_parent x) (usz (i + pv_offset x div PG)) h))"

fun sum_each :: "('a \<Rightarrow> nat vm) \<Rightarrow> 'a list \<Rightarrow> nat vm" where
  "sum_each f [] = ret 0"
| "sum_each f (a # as) = bind (f a) (\<lambda>n. bind (sum_each f as) (\<lambda>m. ret (n + m)))"

definition committed_pages_in_range :: "nat \<Rightarrow> nat \<Rightarrow> nat \<Rightarrow> nat vm" where
  "committed_pages_in_range v start stop =
     bind (node v) (\<lambda>x.
       if \<not> (start < pv_size x div PG \<or> start = 0) then vpanic
       else if \<not> stop \<le> pv_size x div PG then vpanic
       else sum_each (committed_page v) [start..<stop])"

section \<open>Pages that a node does not want any more\<close>

definition unpin_inherited :: "paged \<Rightarrow> paged \<Rightarrow> page_state \<Rightarrow> page_state" where
  "unpin_inherited from to ps =
     (if pv_contiguous from \<and> \<not> pv_contiguous to \<and> ps_pin ps \<ge> 1 then ps\<lparr>ps_pin := ps_pin ps - 1\<rparr> else ps)"

text \<open>One page at one parent: the indexes to ask the next parent about.\<close>

definition release_page :: "nat \<Rightarrow> nat \<Rightarrow> page_tag \<Rightarrow> nat \<Rightarrow> nat list vm" where
  "release_page p e tag i =
     bind (node p) (\<lambda>px.
     bind (node e) (\<lambda>ex.
       let start = pv_offset ex div PG; stop = pv_limit ex div PG; up = usz (i + pv_offset px div PG)
       in if start \<le> i \<and> i < stop then
            (case pv_frames px i of
               None \<Rightarrow> ret []
             | Some ps \<Rightarrow>
                 (case negate tag of
                    None \<Rightarrow> vpanic
                  | Some t \<Rightarrow> (\<lambda>h.
                      let h1 = set_frame p i None h
                      in Some (Ok [up], if ps_tag ps \<noteq> t then set_frame e (i - start) (Some ((unpin_inherited px ex ps)\<lparr>ps_tag := Owned\<rparr>)) h1 else h1))))
          else
            (case pv_frames px i of
               Some ps \<Rightarrow> (\<lambda>h. Some (Ok [], set_frame p i None h))
             | None \<Rightarrow> ret [up])))"

fun release_pages :: "nat \<Rightarrow> nat \<Rightarrow> page_tag \<Rightarrow> nat list \<Rightarrow> nat list vm" where
  "release_pages p e tag [] = ret []"
| "release_pages p e tag (i # is) = bind (release_page p e tag i) (\<lambda>us. bind (release_pages p e tag is) (\<lambda>vs. ret (us @ vs)))"

fun release_unwanted_pages :: "nat \<Rightarrow> nat \<Rightarrow> nat list \<Rightarrow> unit vm" where
  "release_unwanted_pages 0 child unwanted h = None"
| "release_unwanted_pages (Suc n) child unwanted h =
     bind (node child) (\<lambda>x.
       case pv_parent x of
         None \<Rightarrow> ret ()
       | Some p \<Rightarrow>
           bind (node p) (\<lambda>px.
             case get_tag_and_other (pv_type px) (Some child) of
               (tag, None) \<Rightarrow> vpanic
             | (tag, Some e) \<Rightarrow> bind (release_pages p e tag unwanted) (\<lambda>us. release_unwanted_pages n p us))) h"

definition release_unwanted_pages_in_parent :: "nat \<Rightarrow> nat list \<Rightarrow> unit vm" where
  "release_unwanted_pages_in_parent v unwanted h = release_unwanted_pages (vh_next h) v unwanted h"

section \<open>Zeroing\<close>

definition pmem_zero :: "nat \<Rightarrow> nat \<Rightarrow> nat \<Rightarrow> unit vm" where
  "pmem_zero f from n = pmem_write f from (replicate n 0)"

fun zero_blocks :: "nat \<Rightarrow> block_range list \<Rightarrow> nat list vm" where
  "zero_blocks v [] = ret []"
| "zero_blocks v (b # bs) =
     bind (node v) (\<lambda>x.
       if block_len b = PG \<and> \<not> pv_contiguous x then
         bind (commit_page v (blk_block b) True) (\<lambda>_.
         bind (\<lambda>h. Some (Ok (), set_frame v (blk_block b) None h)) (\<lambda>_.
         bind (zero_blocks v bs) (\<lambda>us. ret (usz (blk_block b + pv_offset x div PG) # us))))
       else
         bind (committed_pages_in_range v (blk_block b) (blk_block b + 1)) (\<lambda>n.
           if n \<noteq> 0 then
             bind (commit_page v (blk_block b) True) (\<lambda>f.
             bind (pmem_zero f (blk_begin b) (block_len b)) (\<lambda>_. zero_blocks v bs))
           else zero_blocks v bs))"

definition paged_zero :: "nat \<Rightarrow> nat \<Rightarrow> nat \<Rightarrow> unit vm" where
  "paged_zero v offset n =
     bind (node v) (\<lambda>x.
       if usz (offset + n) > pv_size x then fail OUT_OF_RANGE
       else bind (zero_blocks v (page_blocks offset n)) (release_unwanted_pages_in_parent v))"

section \<open>Taking a node out of the tree\<close>

definition usub :: "nat \<Rightarrow> nat \<Rightarrow> nat" where "usub a b = usz (a + (2 ^ 64 - b))"

definition covers_page :: "nat \<Rightarrow> nat \<Rightarrow> nat \<Rightarrow> bool" where
  "covers_page start stop i \<longleftrightarrow> start \<le> i \<and> i < stop"

text \<open>The owner passes to the other side, up to the first parent that has another owner.\<close>

fun change_owner :: "nat \<Rightarrow> nat option \<Rightarrow> nat \<Rightarrow> nat \<Rightarrow> nat \<Rightarrow> unit vm" where
  "change_owner 0 parent child old skip h = None"
| "change_owner (Suc n) parent child old skip h =
     (case parent of
        None \<Rightarrow> ret ()
      | Some p \<Rightarrow>
          bind (node p) (\<lambda>px.
            if pv_owner px \<noteq> old then ret ()
            else
              case snd (get_tag_and_other (pv_type px) (Some child)) of
                None \<Rightarrow> vpanic
              | Some e \<Rightarrow>
                  bind (node e) (\<lambda>ex.
                    if pv_owner ex = skip then vpanic
                    else bind (put p (px\<lparr>pv_owner := pv_owner ex\<rparr>)) (\<lambda>_. change_owner n (pv_parent px) p old (pv_owner ex))))) h"

definition replaced_frames :: "paged \<Rightarrow> (nat \<Rightarrow> bool) \<Rightarrow> nat \<Rightarrow> page_state option" where
  "replaced_frames x wanted i =
     (if i < pv_size x div PG \<and> (\<not> wanted i \<or> (case pv_frames x i of Some ps \<Rightarrow> is_split (ps_tag ps) | None \<Rightarrow> False)) then None else pv_frames x i)"

definition given_frames :: "paged \<Rightarrow> paged \<Rightarrow> page_tag \<Rightarrow> (nat \<Rightarrow> bool) \<Rightarrow> nat \<Rightarrow> page_state option" where
  "given_frames x ex tag wanted k =
     (let start = pv_offset ex div PG; i = k + start
      in case pv_frames x i of
           Some ps \<Rightarrow>
             if i < pv_size x div PG \<and> wanted i \<and> is_split (ps_tag ps) \<and> ps_tag ps = tag \<and> covers_page start (pv_limit ex div PG) i
             then Some ((unpin_inherited x ex ps)\<lparr>ps_tag := Owned\<rparr>) else pv_frames ex k
         | None \<Rightarrow> pv_frames ex k)"

definition replace_child :: "nat \<Rightarrow> nat \<Rightarrow> nat \<Rightarrow> nat \<Rightarrow> (nat \<times> nat) option \<Rightarrow> unit vm" where
  "replace_child p old old_id new new_range =
     bind (node p) (\<lambda>x.
       case get_tag_and_other (pv_type x) (Some old) of
         (tag, None) \<Rightarrow> vpanic
       | (tag, Some e) \<Rightarrow>
           bind (node e) (\<lambda>ex.
           bind (case new_range of
                   None \<Rightarrow> ret []
                 | Some (new_start, new_end) \<Rightarrow>
                     let wanted = (\<lambda>i. covers_page (new_start div PG) (new_end div PG) i \<or> covers_page (pv_offset ex div PG) (pv_limit ex div PG) i)
                     in bind (put p (x\<lparr>pv_frames := replaced_frames x wanted\<rparr>)) (\<lambda>_.
                        bind (put e (ex\<lparr>pv_frames := given_frames x ex tag wanted\<rparr>)) (\<lambda>_.
                          ret (map (\<lambda>i. usz (i + pv_offset x div PG)) (filter (\<lambda>i. \<not> wanted i \<and> pv_frames x i = None) [0..<pv_size x div PG])))))
             (\<lambda>unwanted.
           bind (release_unwanted_pages_in_parent p unwanted) (\<lambda>_.
           bind (if old_id = pv_owner x then (\<lambda>h. change_owner (Suc (vh_next h)) (pv_parent x) p old_id old_id h) else ret ()) (\<lambda>_.
           bind (node p) (\<lambda>x'.
             case replace_link old new (pv_type x') of
               None \<Rightarrow> vpanic
             | Some t \<Rightarrow> put p (x'\<lparr>pv_owner := pv_owner ex, pv_type := t\<rparr>)))))))"

definition merged_frames :: "paged \<Rightarrow> paged \<Rightarrow> page_tag \<Rightarrow> nat \<Rightarrow> page_state option" where
  "merged_frames x ex other_tag k =
     (case pv_frames ex k of
        Some ps \<Rightarrow> Some ps
      | None \<Rightarrow>
          let i = k + pv_offset ex div PG
          in case pv_frames x i of
               Some ps \<Rightarrow>
                 if covers_page (pv_offset ex div PG) (pv_limit ex div PG) i \<and> ps_tag ps \<noteq> other_tag
                 then Some ((unpin_inherited x ex ps)\<lparr>ps_tag := Owned\<rparr>) else None
             | None \<Rightarrow> None)"

definition remove_child :: "nat \<Rightarrow> nat \<Rightarrow> unit vm" where
  "remove_child p child =
     bind (node p) (\<lambda>x.
       if \<not> is_hidden (pv_type x) then ret ()
       else
         case get_tag_and_other (pv_type x) (Some child) of
           (tag, None) \<Rightarrow> vpanic
         | (tag, Some e) \<Rightarrow>
             bind (node e) (\<lambda>ex.
               case negate tag of
                 None \<Rightarrow> vpanic
               | Some other_tag \<Rightarrow>
                   let start = usz (pv_offset ex + pv_offset x); stop = usz (pv_limit ex + pv_offset x)
                   in bind (put p (x\<lparr>pv_frames := Map.empty\<rparr>)) (\<lambda>_.
                      bind (put e (ex\<lparr>pv_frames := merged_frames x ex other_tag, pv_offset := start, pv_limit := stop\<rparr>)) (\<lambda>_.
                      bind (case pv_parent x of None \<Rightarrow> ret () | Some q \<Rightarrow> replace_child q p (pv_owner x) e (Some (start, stop))) (\<lambda>_.
                      bind (node e) (\<lambda>ex'.
                      bind (put e (ex'\<lparr>pv_parent := pv_parent x\<rparr>)) (\<lambda>_.
                      bind (node p) (\<lambda>x'. put p (x'\<lparr>pv_parent := None\<rparr>)))))))))"

text \<open>The drop of an object; the hidden parent has no owner left when its link to the other child is gone.\<close>

definition forget :: "nat \<Rightarrow> unit vm" where
  "forget v h = Some (Ok (), h\<lparr>vh_vmos := (vh_vmos h)(v := None)\<rparr>)"

definition paged_drop :: "nat \<Rightarrow> unit vm" where
  "paged_drop v =
     bind (node v) (\<lambda>x.
       case pv_parent x of
         None \<Rightarrow> forget v
       | Some p \<Rightarrow> bind (remove_child p v) (\<lambda>_. bind (forget v) (\<lambda>_. forget p)))"

section \<open>Changing the size\<close>

definition paged_resize :: "nat \<Rightarrow> nat \<Rightarrow> unit vm" where
  "paged_resize v new_size =
     bind (node v) (\<lambda>x.
     bind (if new_size = 0 \<and> new_size < pv_size x then
             bind (put v (x\<lparr>pv_frames := Map.empty\<rparr>)) (\<lambda>_.
             bind (case pv_parent x of None \<Rightarrow> ret () | Some p \<Rightarrow> remove_child p v) (\<lambda>_.
             bind (node v) (\<lambda>x.
             bind (put v (x\<lparr>pv_parent := None, pv_offset := 0, pv_limit := 0\<rparr>)) (\<lambda>_.
               case pv_parent x of None \<Rightarrow> ret () | Some p \<Rightarrow> forget p))))
           else if new_size < pv_size x then
             let parent_end = usub (pv_limit x) (pv_offset x) div PG;
                 cut = [new_size div PG..<pv_size x div PG]
             in bind (for_each (decommit_page v) cut) (\<lambda>_.
                bind (release_unwanted_pages_in_parent v (map (\<lambda>i. usz (i + pv_offset x div PG)) (filter (\<lambda>i. parent_end > i) cut))) (\<lambda>_.
                bind (node v) (\<lambda>x.
                  if new_size < usub (pv_limit x) (pv_offset x) then put v (x\<lparr>pv_limit := usz (pv_offset x + new_size)\<rparr>) else ret ())))
           else ret ()) (\<lambda>_.
     bind (node v) (\<lambda>x. put v (x\<lparr>pv_size := new_size\<rparr>))))"

definition paged_set_len :: "nat \<Rightarrow> nat \<Rightarrow> unit vm" where
  "paged_set_len v n =
     (if n mod PG \<noteq> 0 then vpanic
      else bind (node v) (\<lambda>x. if pv_pin_count x > 0 then fail BAD_STATE else paged_resize v n))"

section \<open>Pinning\<close>

definition VM_PAGE_OBJECT_MAX_PIN_COUNT :: u8 where "VM_PAGE_OBJECT_MAX_PIN_COUNT = 31"

fun check_pins :: "paged \<Rightarrow> u8 \<Rightarrow> nat list \<Rightarrow> unit zx_result" where
  "check_pins x bad [] = Ok ()"
| "check_pins x bad (i # is) =
     (case pv_frames x i of
        None \<Rightarrow> Panic
      | Some ps \<Rightarrow> if ps_pin ps = bad then Err UNAVAILABLE else check_pins x bad is)"

definition pin_range :: "nat \<Rightarrow> nat \<Rightarrow> u8 \<Rightarrow> (paged \<Rightarrow> nat list \<Rightarrow> unit vm) \<Rightarrow> nat \<Rightarrow> unit vm" where
  "pin_range offset n bad act v =
     bind (node v) (\<lambda>x.
       if usz (offset + n) > pv_size x then fail OUT_OF_RANGE
       else if n = 0 then ret ()
       else
         let is = [offset div PG..<page_count (usz (offset + n))]
         in case check_pins x bad is of Panic \<Rightarrow> vpanic | Err e \<Rightarrow> fail e | Ok _ \<Rightarrow> act x is)"

definition add_pins :: "(u8 \<Rightarrow> u8) \<Rightarrow> nat list \<Rightarrow> paged \<Rightarrow> paged" where
  "add_pins f is x = x\<lparr>pv_frames := (\<lambda>i. if i \<in> set is then map_option (\<lambda>ps. ps\<lparr>ps_pin := f (ps_pin ps)\<rparr>) (pv_frames x i) else pv_frames x i)\<rparr>"

definition paged_pin :: "nat \<Rightarrow> nat \<Rightarrow> nat \<Rightarrow> unit vm" where
  "paged_pin v offset n =
     pin_range offset n VM_PAGE_OBJECT_MAX_PIN_COUNT
       (\<lambda>x is. put v (add_pins (\<lambda>p. p + 1) is x\<lparr>pv_pin_count := usz (pv_pin_count x + length is)\<rparr>)) v"

definition paged_unpin :: "nat \<Rightarrow> nat \<Rightarrow> nat \<Rightarrow> unit vm" where
  "paged_unpin v offset n =
     pin_range offset n 0
       (\<lambda>x is. if pv_pin_count x = 0 then vpanic
               else put v (add_pins (\<lambda>p. p - 1) is x\<lparr>pv_pin_count := usub (pv_pin_count x) (length is)\<rparr>)) v"

section \<open>Three flaws\<close>

lemmas vmo_ops_eval =
  vmo_eval committed_page_def committed_pages_in_range_def unpin_inherited_def release_page_def release_unwanted_pages_in_parent_def
  pmem_zero_def paged_zero_def covers_page_def replaced_frames_def given_frames_def replace_child_def merged_frames_def remove_child_def
  forget_def paged_drop_def
  release_unwanted_pages.simps(2) [of "pred_numeral k" for k, folded numeral_eq_Suc]
  committed_walk.simps(2) [of "pred_numeral k" for k, folded numeral_eq_Suc]
  change_owner.simps(2) [of "pred_numeral k" for k, folded numeral_eq_Suc]




end
