(* ===== verification/Spec2Isabelle.thy ===== *)
theory Spec2Isabelle
  imports Signal_Wait Channel Fifo Socket_Data Handle_Table Task_Kill User_Memory Page_Refine Lock_Interrupts Vmo_Ops
begin

text \<open>
  \<^bold>\<open>A verification development for zCore\<close>, a kernel in Rust with the system calls of Zircon and of Linux. The development
  covers the Zircon side (\<^verbatim>\<open>src/zircon-object\<close>, with parts of \<^verbatim>\<open>src/zircon-syscall\<close>), the page tables of the
  hardware abstraction layer (\<^verbatim>\<open>src/kernel-hal\<close>) and the locks of the kernel (\<^verbatim>\<open>src/drivers/src/sync\<close>).

  \<^bold>\<open>How the parts work together.\<close> A program names kernel objects by handles, which carry rights; the handle table of its
  process turns a handle into an object. Every object has a base with an identity and signals, on which futures wait.
  Channels, fifos and sockets carry data between processes. Threads live in processes and processes in jobs, which form a tree
  with policies; exceptions travel up this tree. The memory of a process is a tree of address regions with mappings of VM
  objects; the mappings become entries of page tables. VM objects hold pages and share them copy-on-write with their clones.
  All objects are guarded by a ticket mutex or a readers-writer lock that keep interrupts off while they are held.

  \<^bold>\<open>How the code is modelled.\<close> Integers of the code are words of their width, or natural numbers with the wrap-around written
  out (\<^verbatim>\<open>usz\<close> in the theories on VM objects). Arithmetic wraps as in the release build. A result of the code is \<open>Ok\<close>,
  \<open>Err\<close> with the status, or \<open>Panic\<close>; an operation on an object takes its state and returns it changed. Shared objects are cells
  of a heap or of a table, named by numbers. Code that runs concurrently is cut at its atomic accesses, in a sequentially
  consistent memory, and the theorems are about every interleaving. Code outside the sources (the frame allocator, the
  hardware, oneshot channels, user memory) is a parameter or a supply of names.

  \<^bold>\<open>Theories\<close>, in the order of their imports:

  \<^item> \<open>Prelude\<close>: words, results, flags, lists. \<open>Zx_Error\<close>: \<^verbatim>\<open>error.rs\<close>. \<open>Rights_Signals\<close>: \<^verbatim>\<open>object/rights.rs\<close>,
    \<^verbatim>\<open>object/signal.rs\<close>.
  \<^item> \<open>KObject\<close>, \<open>Signal_Wait\<close>: \<^verbatim>\<open>object/mod.rs\<close>. The base of an object, whose laws are the locale \<open>signal_bus\<close>; the
    futures that wait for signals, step by step. No wake-up is lost by the first kind of future; the second kind loses one.
  \<^item> \<open>Bytes\<close>: encodings, runs of operations, and the locale \<open>transport\<close> of an ordered lossless transport. \<open>Channel\<close>, \<open>Fifo\<close>,
    \<open>Socket\<close>, \<open>Socket_Data\<close>: \<^verbatim>\<open>ipc/channel.rs\<close>, \<^verbatim>\<open>ipc/fifo.rs\<close>, \<^verbatim>\<open>ipc/socket.rs\<close> and their system calls. What is
    read is what was written, in order; signals agree with the queues; bounds hold; calls are answered once.
  \<^item> \<open>Handle_Table\<close>: \<^verbatim>\<open>object/handle.rs\<close>, the handle part of \<^verbatim>\<open>task/process.rs\<close>, \<^verbatim>\<open>zircon-syscall/src/handle.rs\<close>, with the
    locale \<open>slot_table\<close>. Handle values are fresh and calls never add rights, but for the one call that does.
  \<^item> \<open>Exception\<close>, \<open>Job\<close>, \<open>Thread\<close>, \<open>Task_Tree\<close>, \<open>Task_Kill\<close>: \<^verbatim>\<open>task/\<close>. The order in which handlers see an exception;
    policies that children cannot loosen; the state machine of a thread with its signals; the calls that jobs, processes
    and threads make on one another when they are killed, as a machine with a stack of calls, which always comes to an end
    and reaches the whole subtree.
  \<^item> \<open>Pages\<close>, \<open>Vmar\<close>, \<open>Address_Space\<close>, \<open>Address_Ops\<close>, \<open>Vm_Safety\<close>, \<open>User_Memory\<close>: \<^verbatim>\<open>vm/mod.rs\<close>, \<^verbatim>\<open>vm/vmar.rs\<close>,
    \<^verbatim>\<open>util/block_range.rs\<close>, \<^verbatim>\<open>zircon-syscall/src/vmar.rs\<close>. Regions and mappings stay disjoint and aligned under all
    calls; what each call does to every address; that access needs rights; that the check of user buffers is exact.
  \<^item> \<open>Page_Table\<close>, \<open>Page_Walk\<close>, \<open>Page_Map\<close>, \<open>Page_Refine\<close>: \<^verbatim>\<open>kernel-hal/src/utils/page_table.rs\<close> and the entries of
    x86-64, RISC-V and AArch64, with the locale \<open>pte_laws\<close> of the entries. The tables implement a partial function from
    addresses to pages.
  \<^item> \<open>Interrupt_Off\<close>, \<open>Ticket_Lock\<close>, \<open>Rw_Lock\<close>, \<open>Rw_Safety\<close>, \<open>Lock_Interrupts\<close>: \<^verbatim>\<open>drivers/src/sync/\<close>, with the locale
    \<open>irq_protocol\<close> of the users of interrupt-disabled sections. Mutual exclusion, order of entry, and interrupts.
  \<^item> \<open>Vmo_Paged\<close>, \<open>Vmo_Tree\<close>, \<open>Vmo_Commit\<close>, \<open>Vmo_Data\<close>, \<open>Vmo_Clone\<close>, \<open>Vmo_Snapshot\<close>, \<open>Vmo_Ops\<close>: \<^verbatim>\<open>vm/vmo/paged.rs\<close>,
    parts of \<^verbatim>\<open>vm/vmo/mod.rs\<close> and of \<^verbatim>\<open>zircon-syscall/src/vmo.rs\<close>. Clones and copy-on-write pages implement separate byte
    arrays as long as objects are created, cloned within their bounds, read and written; zeroing and dropping do not.

  \<^bold>\<open>What the theorems show.\<close> For each component an invariant that all operations keep in every run, the effect of the operations
  on what a client sees (for transports, page tables and VM objects as a refinement of a simple specification), that recursive
  calls between objects return, and error paths. A group of theorems shows flaws: inputs on which the code does what it
  should not, stated of the same definitions.

  \<^bold>\<open>Bounds and fuel.\<close> Recursion along the links of a heap has a bound as an argument. For VM objects it is the number of
  nodes ever made, \<open>vh_next\<close>: the rank of a node in the clone tree is smaller, and the refinement theorem shows that every call
  returns, so that the bound is never used up. The machine of task calls runs for as many steps as its weight, which each
  step lowers. Page tables have at most four levels, and the walk is recursion on the level. The ticket lock is used by fewer
  callers at a time than there are tickets, the readers-writer lock by fewer than its word can count, and sections nest less than
  2 to the 32 deep; these bounds are hypotheses of the theorems, and far beyond what a kernel with a few cores has.

  \<^bold>\<open>Not modelled.\<close>
  \<^item> The Linux personality (\<^verbatim>\<open>linux-object\<close>, \<^verbatim>\<open>linux-syscall\<close>): it rests on a file system crate and a network stack
    outside the repository, and is a kernel interface of its own.
  \<^item> Device drivers, PCI, interrupt objects, the hypervisor and the back ends of the hardware abstraction layer: their behaviour is that
    of devices and machine instructions, which the sources do not say.
  \<^item> Ports, futexes, timers, streams, events, clocks, slices and physical VM objects, resources, and most system calls that only copy
    arguments and records between user memory and objects: each could be modelled in the same way.
  \<^item> Of VM objects: contiguous objects and the cache policy, stream sizes, the lists of mappings and of children.
  \<^item> Weak memory, interrupts between two accesses of one core, the scheduler, loading of programs, the build tools.
\<close>

end
